(* ===== verification/Paths.thy ===== *)
theory Paths
  imports Prelude
begin

text \<open>
  The package \<open>path/filepath\<close> on Unix, as far as the program uses it: \<open>Clean\<close>, \<open>Join\<close>,
  \<open>IsAbs\<close>, \<open>Abs\<close>, \<open>Rel\<close>, \<open>Base\<close> and \<open>Dir\<close>. \<open>ToSlash\<close> and \<open>FromSlash\<close> are the identity
  there. \<open>Clean\<close> is lexical: it folds the components over a stack. The working directory that
  \<open>Abs\<close> reads is an argument, \<open>None\<close> when \<open>os.Getwd\<close> fails.
\<close>

abbreviation slash :: char where "slash \<equiv> CHR ''/''"

definition IsAbs :: "go_string \<Rightarrow> bool" where
  "IsAbs p = has_prefix p [slash]"

definition path_comps :: "go_string \<Rightarrow> go_string list" where
  "path_comps p = filter (\<lambda>c. c \<noteq> []) (split_on slash p)"

text \<open>One component on the stack of those kept so far (the last one first).\<close>

definition clean_step :: "bool \<Rightarrow> go_string \<Rightarrow> go_string list \<Rightarrow> go_string list" where
  "clean_step rooted c st =
     (if c = [] \<or> c = ''.'' then st
      else if c = ''..'' then
        (case st of
           [] \<Rightarrow> if rooted then [] else [''..'']
         | t # ts \<Rightarrow> if t = ''..'' then ''..'' # t # ts else ts)
      else c # st)"

definition clean_comps :: "bool \<Rightarrow> go_string list \<Rightarrow> go_string list" where
  "clean_comps rooted cs = rev (fold (clean_step rooted) cs [])"

definition Clean :: "go_string \<Rightarrow> go_string" where
  "Clean p =
     (let rooted = IsAbs p;
          body = join_with [slash] (clean_comps rooted (split_on slash p))
      in if rooted then slash # body else if body = [] then ''.'' else body)"

definition Join :: "go_string list \<Rightarrow> go_string" where
  "Join es =
     (case dropWhile (\<lambda>e. e = []) es of [] \<Rightarrow> [] | es' \<Rightarrow> Clean (join_with [slash] es'))"

definition Abs :: "go_string option \<Rightarrow> go_string \<Rightarrow> go_string option" where
  "Abs cwd p = (if IsAbs p then Some (Clean p) else map_option (\<lambda>d. Join [d, p]) cwd)"

fun strip_common :: "'a list \<Rightarrow> 'a list \<Rightarrow> 'a list \<times> 'a list" where
  "strip_common (x # xs) (y # ys) = (if x = y then strip_common xs ys else (x # xs, y # ys))"
| "strip_common xs ys = (xs, ys)"

definition Rel :: "go_string \<Rightarrow> go_string \<Rightarrow> go_string option" where
  "Rel basepath targpath =
     (let base = Clean basepath; targ = Clean targpath in
      if targ = base then Some ''.''
      else
        let base = (if base = ''.'' then [] else base) in
        if IsAbs base \<noteq> IsAbs targ then None
        else
          case strip_common (path_comps base) (path_comps targ) of
            (b, t) \<Rightarrow>
              if b \<noteq> [] \<and> t \<noteq> [] \<and> hd b = ''..'' then None
              else Some (join_with [slash] (replicate (length b) ''..'' @ t)))"

text \<open>The slash-only \<open>path.Base\<close> and \<open>path.Dir\<close>.\<close>

definition path_Base :: "go_string \<Rightarrow> go_string" where
  "path_Base p =
     (if p = [] then ''.''
      else let q = trim_right_char slash p
           in if q = [] then [slash] else last (split_on slash q))"

definition path_Dir :: "go_string \<Rightarrow> go_string" where
  "path_Dir p = Clean (rev (dropWhile (\<lambda>c. c \<noteq> slash) (rev p)))"

section \<open>Clean paths\<close>

text \<open>A plain component is one that \<open>Clean\<close> keeps.\<close>

definition plain :: "go_string \<Rightarrow> bool" where
  "plain c \<longleftrightarrow> c \<noteq> [] \<and> c \<noteq> ''.'' \<and> c \<noteq> ''..'' \<and> slash \<notin> set c"

lemma clean_step_plain: "plain c \<Longrightarrow> clean_step r c st = c # st"
  by (simp add: clean_step_def plain_def)

lemma clean_step_skip [simp]: "clean_step r [] st = st" "clean_step r ''.'' st = st"
  by (simp_all add: clean_step_def)

lemma fold_clean_step_plain: "list_all plain cs \<Longrightarrow> fold (clean_step r) cs st = rev cs @ st"
  by (induction cs arbitrary: st) (auto simp: clean_step_plain)

lemma fold_clean_step_filter:
  "fold (clean_step r) (filter (\<lambda>c. c \<noteq> []) cs) st = fold (clean_step r) cs st"
  by (induction cs arbitrary: st) auto

lemma clean_comps_plain: "list_all plain cs \<Longrightarrow> clean_comps r cs = cs"
  by (simp add: clean_comps_def fold_clean_step_plain)

lemma clean_comps_filter: "clean_comps r (filter (\<lambda>c. c \<noteq> []) cs) = clean_comps r cs"
  by (simp add: clean_comps_def fold_clean_step_filter)

lemma clean_step_rooted_plain:
  "list_all plain st \<Longrightarrow> slash \<notin> set c \<Longrightarrow> list_all plain (clean_step True c st)"
  by (auto simp: clean_step_def plain_def split: list.splits)

lemma clean_comps_rooted_plain:
  assumes "\<forall>c \<in> set cs. slash \<notin> set c"
  shows "list_all plain (clean_comps True cs)"
proof -
  have "list_all plain (fold (clean_step True) cs st)" if "list_all plain st" for st
    using that assms by (induction cs arbitrary: st) (auto simp: clean_step_rooted_plain)
  then show ?thesis by (simp add: clean_comps_def list_all_rev)
qed

lemma split_on_append_gen: "split_on c (s @ c # t) = split_on c s @ split_on c t"
  by (induction s) (auto split: list.splits)

lemma path_comps_append: "path_comps (s @ slash # t) = path_comps s @ path_comps t"
  by (simp add: path_comps_def split_on_append_gen)

lemma path_comps_slash [simp]: "path_comps (slash # t) = path_comps t"
  by (simp add: path_comps_def)

lemma path_comps_Nil [simp]: "path_comps [] = []"
  by (simp add: path_comps_def)

lemma path_comps_no_slash: "c \<in> set (path_comps p) \<Longrightarrow> slash \<notin> set c"
  by (auto simp: path_comps_def dest: split_on_no_sep)

lemma path_comps_plain1: "plain c \<Longrightarrow> path_comps c = [c]"
  by (simp add: path_comps_def plain_def split_on_absent)

lemma path_comps_join: "list_all plain cs \<Longrightarrow> path_comps (join_with [slash] cs) = cs"
proof (induction cs)
  case (Cons c cs)
  then show ?case
    by (cases cs) (auto simp: path_comps_plain1 path_comps_append)
qed simp

lemma clean_comps_comps: "clean_comps r (split_on slash p) = clean_comps r (path_comps p)"
  by (simp add: path_comps_def clean_comps_filter)

text \<open>The normal form of an absolute path: its components, all plain.\<close>

definition abs_comps :: "go_string \<Rightarrow> go_string list" where
  "abs_comps p = clean_comps True (path_comps p)"

definition abs_path :: "go_string list \<Rightarrow> go_string" where
  "abs_path cs = slash # join_with [slash] cs"

lemma abs_comps_plain: "list_all plain (abs_comps p)"
  unfolding abs_comps_def by (rule clean_comps_rooted_plain) (auto dest: path_comps_no_slash)

lemma Clean_abs: "IsAbs p \<Longrightarrow> Clean p = abs_path (abs_comps p)"
  by (simp add: Clean_def abs_path_def abs_comps_def clean_comps_comps)

lemma IsAbs_slash [simp]: "IsAbs (slash # p)"
  by (simp add: IsAbs_def has_prefix_def)

lemma IsAbs_abs_path [simp]: "IsAbs (abs_path cs)"
  by (simp add: abs_path_def)

lemma path_comps_abs_path: "list_all plain cs \<Longrightarrow> path_comps (abs_path cs) = cs"
  by (simp add: abs_path_def path_comps_join)

lemma abs_comps_abs_path: "list_all plain cs \<Longrightarrow> abs_comps (abs_path cs) = cs"
  by (simp add: abs_comps_def path_comps_abs_path clean_comps_plain)

lemma abs_path_inject:
  "list_all plain cs \<Longrightarrow> list_all plain ds \<Longrightarrow> abs_path cs = abs_path ds \<longleftrightarrow> cs = ds"
  using path_comps_abs_path by metis

lemma Clean_abs_path: "list_all plain cs \<Longrightarrow> Clean (abs_path cs) = abs_path cs"
  by (simp add: Clean_abs abs_comps_abs_path)

lemma Clean_abs_idem: "IsAbs p \<Longrightarrow> Clean (Clean p) = Clean p"
  by (simp add: Clean_abs abs_comps_abs_path abs_comps_plain)

lemma abs_comps_append: "abs_comps (s @ slash # t) = rev (fold (clean_step True) (path_comps t) (rev (abs_comps s)))"
  by (simp add: abs_comps_def clean_comps_def path_comps_append)

lemma abs_comps_append_plain:
  "list_all plain (path_comps t) \<Longrightarrow> abs_comps (s @ slash # t) = abs_comps s @ path_comps t"
  by (simp add: abs_comps_append fold_clean_step_plain)

lemma IsAbs_append: "IsAbs p \<Longrightarrow> IsAbs (p @ q)"
  by (auto simp: IsAbs_def has_prefix_iff)

lemma Join_abs2: "IsAbs p \<Longrightarrow> Join [p, q] = Clean (p @ slash # q)"
  by (cases p) (auto simp: Join_def IsAbs_def has_prefix_def)

lemma Join_abs_comps: "IsAbs p \<Longrightarrow> Join [p, q] = abs_path (abs_comps (p @ slash # q))"
  by (simp add: Join_abs2 Clean_abs IsAbs_append)

lemma Join_abs_plain:
  "IsAbs p \<Longrightarrow> plain n \<Longrightarrow> Join [p, n] = abs_path (abs_comps p @ [n])"
  by (simp add: Join_abs_comps abs_comps_append_plain path_comps_plain1)

lemma Abs_abs: "Abs cwd p = Some q \<Longrightarrow> \<forall>d. cwd = Some d \<longrightarrow> IsAbs d \<Longrightarrow>
  \<exists>cs. list_all plain cs \<and> q = abs_path cs"
  by (cases "IsAbs p") (auto simp: Abs_def Clean_abs Join_abs_comps intro: abs_comps_plain)

section \<open>Containment\<close>

text \<open>
  The string test of the code: equal to the directory or starting with it and a separator. On
  clean absolute paths it is the prefix relation of the components.
\<close>

lemma join_with_append:
  "xs \<noteq> [] \<Longrightarrow> ys \<noteq> [] \<Longrightarrow> join_with s (xs @ ys) = join_with s xs @ s @ join_with s ys"
proof (induction xs)
  case (Cons x xs)
  then show ?case by (cases "xs = []") (simp_all add: join_with_Cons)
qed simp

lemma abs_path_prefix_iff:
  assumes "list_all plain cs" "list_all plain ds" "ds \<noteq> []"
  shows "abs_path cs = abs_path ds \<or> has_prefix (abs_path cs) (abs_path ds @ [slash]) \<longleftrightarrow>
    (\<exists>rest. cs = ds @ rest)"
proof
  assume "abs_path cs = abs_path ds \<or> has_prefix (abs_path cs) (abs_path ds @ [slash])"
  then show "\<exists>rest. cs = ds @ rest"
  proof
    assume "abs_path cs = abs_path ds"
    with assms show ?thesis by (simp add: abs_path_inject)
  next
    assume "has_prefix (abs_path cs) (abs_path ds @ [slash])"
    then obtain t where "abs_path cs = abs_path ds @ slash # t" by (auto simp: has_prefix_iff)
    then have "path_comps (abs_path cs) = path_comps (abs_path ds) @ path_comps t"
      by (simp add: path_comps_append)
    with assms show ?thesis by (simp add: path_comps_abs_path)
  qed
next
  assume "\<exists>rest. cs = ds @ rest"
  then obtain rest where cs: "cs = ds @ rest" ..
  show "abs_path cs = abs_path ds \<or> has_prefix (abs_path cs) (abs_path ds @ [slash])"
  proof (cases "rest = []")
    case False
    with assms(3) have "abs_path cs = (abs_path ds @ [slash]) @ join_with [slash] rest"
      by (simp add: cs abs_path_def join_with_append)
    then show ?thesis by (auto simp: has_prefix_iff)
  qed (simp add: cs)
qed

lemma strip_common_append: "strip_common xs (xs @ ys) = ([], ys)"
proof (induction xs)
  case Nil
  show ?case by (cases ys) simp_all
qed simp

lemma Rel_inside:
  assumes "list_all plain ds" "list_all plain rest" "rest \<noteq> []"
  shows "Rel (abs_path ds) (abs_path (ds @ rest)) = Some (join_with [slash] rest)"
proof -
  have p: "list_all plain (ds @ rest)" using assms by simp
  have "abs_path (ds @ rest) \<noteq> abs_path ds"
    using assms p by (simp add: abs_path_inject)
  moreover have "abs_path ds \<noteq> ''.''" by (simp add: abs_path_def)
  ultimately show ?thesis
    using assms(1) p
    by (simp add: Rel_def Clean_abs_path path_comps_abs_path strip_common_append Let_def)
qed

section \<open>Relative paths stay relative\<close>

lemma clean_step_no_slash:
  "slash \<notin> set c \<Longrightarrow> \<forall>d \<in> set st. d \<noteq> [] \<and> slash \<notin> set d \<Longrightarrow>
   \<forall>d \<in> set (clean_step r c st). d \<noteq> [] \<and> slash \<notin> set d"
  by (auto simp: clean_step_def split: list.splits)

lemma fold_clean_no_slash:
  "\<forall>c \<in> set cs. slash \<notin> set c \<Longrightarrow> \<forall>d \<in> set st. d \<noteq> [] \<and> slash \<notin> set d \<Longrightarrow>
   \<forall>d \<in> set (fold (clean_step r) cs st). d \<noteq> [] \<and> slash \<notin> set d"
proof (induction cs arbitrary: st)
  case (Cons c cs)
  have "slash \<notin> set c" "\<forall>c \<in> set cs. slash \<notin> set c" using Cons.prems(1) by simp_all
  from Cons.IH [OF this(2) clean_step_no_slash [OF this(1) Cons.prems(2)]]
  show ?case by (simp only: fold_simps)
qed simp

lemma clean_comps_no_slash:
  "\<forall>c \<in> set cs. slash \<notin> set c \<Longrightarrow> \<forall>c \<in> set (clean_comps r cs). c \<noteq> [] \<and> slash \<notin> set c"
  using fold_clean_no_slash [of cs "[]" r] by (simp add: clean_comps_def)

lemma join_not_abs:
  assumes "cs = [] \<or> (hd cs \<noteq> [] \<and> slash \<notin> set (hd cs))"
  shows "\<not> IsAbs (join_with [slash] cs)"
proof (cases cs)
  case (Cons c ds)
  with assms obtain x xs where c: "c = x # xs" "x \<noteq> slash" by (cases c) auto
  show ?thesis
  proof (cases ds)
    case Nil
    then show ?thesis using Cons c by (simp add: IsAbs_def has_prefix_def)
  next
    case (Cons d es)
    then show ?thesis using \<open>cs = c # ds\<close> c by (simp add: IsAbs_def has_prefix_def)
  qed
qed (simp add: IsAbs_def has_prefix_def)

lemma Clean_relative:
  assumes "\<not> IsAbs p"
  shows "\<not> IsAbs (Clean p)"
proof -
  define cs where "cs = clean_comps False (split_on slash p)"
  have "\<forall>c \<in> set cs. c \<noteq> [] \<and> slash \<notin> set c"
    unfolding cs_def by (rule clean_comps_no_slash) (auto dest: split_on_no_sep)
  then have "cs = [] \<or> (hd cs \<noteq> [] \<and> slash \<notin> set (hd cs))" by (cases cs) simp_all
  then have "\<not> IsAbs (join_with [slash] cs)" by (rule join_not_abs)
  moreover have "\<not> IsAbs ''.''" by (simp add: IsAbs_def has_prefix_def)
  ultimately show ?thesis using assms by (simp add: Clean_def Let_def cs_def)
qed

lemma plain_not_abs: "plain n \<Longrightarrow> \<not> IsAbs n"
  by (cases n) (auto simp: plain_def IsAbs_def has_prefix_def)

lemma append_not_abs: "\<not> IsAbs p \<Longrightarrow> p \<noteq> [] \<Longrightarrow> \<not> IsAbs (p @ q)"
  by (cases p) (simp_all add: IsAbs_def has_prefix_def)

lemma Join_relative:
  assumes "\<not> IsAbs p" "plain n"
  shows "\<not> IsAbs (Join [p, n])"
proof (cases "p = []")
  case True
  moreover have "n \<noteq> []" using assms(2) by (simp add: plain_def)
  ultimately show ?thesis using assms(2) by (simp add: Join_def Clean_relative plain_not_abs)
next
  case False
  moreover have "n \<noteq> []" using assms(2) by (simp add: plain_def)
  ultimately show ?thesis
    using append_not_abs [OF assms(1) False, of "slash # n"] by (simp add: Join_def Clean_relative)
qed

lemma Rel_relative:
  assumes "\<not> IsAbs p" "list_all plain cs"
  shows "Rel (abs_path cs) p = None"
proof -
  have "\<not> IsAbs (Clean p)" by (rule Clean_relative [OF assms(1)])
  moreover have "abs_path cs \<noteq> ''.''" by (simp add: abs_path_def)
  ultimately show ?thesis
    using IsAbs_abs_path [of cs] by (auto simp: Rel_def Clean_abs_path [OF assms(2)] Let_def)
qed

end
