(* ===== verification/Catalog.thy ===== *)
theory Catalog
  imports Paths
begin

text \<open>
  The package \<open>internal/catalog\<close>: the manifest of workflows, its cleaning before it is decoded, its
  validation against the repository and its lookups. \<open>encoding/json\<close> is an argument of \<open>Load\<close>:
  decoding to the generic form, encoding it, and the decoding to the typed form; so are the file
  system's \<open>ReadFile\<close> and \<open>Stat\<close>. The problems of a manifest are values instead of texts.
\<close>

section \<open>The manifest\<close>

record catalog_module =
  m_Code :: go_string
  m_Label :: go_string

record input =
  in_Name :: go_string
  in_Kind :: go_string
  in_Required :: bool
  in_Env :: go_string
  in_Filename :: go_string
  in_Schema :: go_string
  in_Label :: go_string
  in_Help :: go_string
  in_Default :: "int option"
  in_Min :: "int option"
  in_Max :: "int option"
  in_Template :: go_string
  in_Parser :: go_string
  in_TemplateFilename :: go_string
  in_TemplateHelp :: go_string
  in_Group :: go_string
  in_Caption :: go_string
  in_Note :: go_string

record result_file =
  rf_Glob :: go_string
  rf_Kind :: go_string
  rf_Label :: go_string

record results =
  res_OutputJSON :: bool
  res_Files :: "result_file list"

record workflow =
  w_ID :: go_string
  w_Module :: go_string
  w_Label :: go_string
  w_Description :: go_string
  w_Spec :: go_string
  w_Class :: go_string
  w_DefaultTimeoutSeconds :: int
  w_MaxTimeoutSeconds :: int
  w_Inputs :: "input list"
  w_Results :: results

record csv_schema =
  sch_Headers :: "go_string list"
  sch_SecretColumns :: "go_string list"

record catalog =
  cat_Version :: int
  cat_Modules :: "catalog_module list"
  cat_CSVSchemas :: "(go_string, csv_schema) gomap"
  cat_Workflows :: "workflow list"
  cat_byID :: "(go_string, workflow) gomap"
  cat_raw :: go_string

section \<open>Lookups\<close>

definition Input_named :: "workflow \<Rightarrow> go_string \<Rightarrow> input option" where
  "Input_named w name = List.find (\<lambda>i. in_Name i = name) (w_Inputs w)"

definition Raw :: "catalog \<Rightarrow> go_string" where
  "Raw c = cat_raw c"

definition Workflow :: "catalog \<Rightarrow> go_string \<Rightarrow> workflow option" where
  "Workflow c i = map_of (cat_byID c) i"

definition Schema :: "catalog \<Rightarrow> go_string \<Rightarrow> csv_schema option" where
  "Schema c name = map_of (cat_CSVSchemas c) name"

text \<open>
  \<open>strings.EqualFold\<close> on valid UTF-8 whose letters are ASCII, or one of the two characters
  beyond ASCII that fold to an ASCII letter: the Kelvin sign (bytes E2 84 AA) and the long s
  (bytes C5 BF). Other characters are compared by their bytes.
\<close>

definition lower :: "char \<Rightarrow> char" where
  "lower c = (let n = of_char c :: nat in if 65 \<le> n \<and> n \<le> 90 then char_of (n + 32) else c)"

fun fold_case :: "go_string \<Rightarrow> go_string" where
  "fold_case [] = []"
| "fold_case (c # cs) =
     (if c = CHR 0xE2 \<and> take 2 cs = [CHR 0x84, CHR 0xAA] then CHR ''k'' # fold_case (drop 2 cs)
      else if c = CHR 0xC5 \<and> take 1 cs = [CHR 0xBF] then CHR ''s'' # fold_case (drop 1 cs)
      else lower c # fold_case cs)"

definition EqualFold :: "go_string \<Rightarrow> go_string \<Rightarrow> bool" where
  "EqualFold s t = (fold_case s = fold_case t)"

definition IsSecret :: "csv_schema \<Rightarrow> go_string \<Rightarrow> bool" where
  "IsSecret s col = list_ex (\<lambda>c. EqualFold c col) (sch_SecretColumns s)"

section \<open>stripComments\<close>

text \<open>A decoded JSON value; a number is kept as its text, an object has distinct keys.\<close>

datatype json = JNull | JBool bool | JNum go_string | JStr go_string | JArr "json list"
  | JObj "(go_string \<times> json) list"

definition comment_key :: go_string where
  "comment_key = ''$comment''"

function stripComments :: "json \<Rightarrow> json" where
  "stripComments (JObj kvs) =
     JObj (map (\<lambda>kv. (fst kv, stripComments (snd kv))) (filter (\<lambda>kv. fst kv \<noteq> comment_key) kvs))"
| "stripComments (JArr js) = JArr (map stripComments js)"
| "stripComments JNull = JNull"
| "stripComments (JBool b) = JBool b"
| "stripComments (JNum n) = JNum n"
| "stripComments (JStr s) = JStr s"
  by pat_completeness auto

lemma size_value: "kv \<in> set kvs \<Longrightarrow> size (snd kv) < Suc (size_list (size_prod (\<lambda>_. 0) size) kvs)"
  by (induction kvs) auto

termination stripComments
proof (relation "measure size")
  fix kvs :: "(go_string \<times> json) list" and kv
  assume "kv \<in> set (filter (\<lambda>kv. fst kv \<noteq> comment_key) kvs)"
  then show "(snd kv, JObj kvs) \<in> measure size" using size_value [of kv kvs] by simp
next
  fix js :: "json list" and j
  assume "j \<in> set js"
  then show "(j, JArr js) \<in> measure size" by (simp add: size_list_estimation' less_Suc_eq_le)
qed simp

text \<open>A step into a value and a path of steps.\<close>

datatype json_step = Key go_string | Idx nat

fun json_step_in :: "json \<Rightarrow> json_step \<Rightarrow> json option" where
  "json_step_in (JObj kvs) (Key k) = map_of kvs k"
| "json_step_in (JArr js) (Idx i) = (if i < length js then Some (js ! i) else None)"
| "json_step_in _ _ = None"

definition json_at :: "json \<Rightarrow> json_step list \<Rightarrow> json option" where
  "json_at j p = fold (\<lambda>st v. Option.bind v (\<lambda>v. json_step_in v st)) p (Some j)"

lemma map_of_values: "map_of (map (\<lambda>kv. (fst kv, f (snd kv))) kvs) k = map_option f (map_of kvs k)"
  by (induction kvs) auto

lemma map_of_filter_key:
  "map_of (filter (\<lambda>kv. fst kv \<noteq> c) kvs) k = (if k = c then None else map_of kvs k)"
  by (induction kvs) auto

lemma strip_step:
  "json_step_in (stripComments j) st =
     (if st = Key comment_key then None else map_option stripComments (json_step_in j st))"
  by (cases "(j, st)" rule: json_step_in.cases)
    (auto simp: map_of_values map_of_filter_key)

lemma json_at_None [simp]: "fold (\<lambda>st v. Option.bind v (\<lambda>v. json_step_in v st)) p None = None"
  by (induction p) auto

lemma json_at_simps:
  "json_at j [] = Some j"
  "json_at j (st # p) = Option.bind (json_step_in j st) (\<lambda>v. json_at v p)"
  by (simp_all add: json_at_def) (cases "json_step_in j st"; simp)

text \<open>
  Cleaning the manifest loses nothing but comments: a path that never goes through a
  \<open>$comment\<close> key leads to the cleaned form of what it led to before, and a path through such a key
  leads nowhere.
\<close>

theorem strip_comments_exact:
  "json_at (stripComments j) p =
     (if Key comment_key \<in> set p then None else map_option stripComments (json_at j p))"
proof (induction p arbitrary: j)
  case (Cons st p)
  show ?case
    by (cases "json_step_in j st") (auto simp: json_at_simps strip_step Cons.IH)
qed (simp add: json_at_simps)

section \<open>index\<close>

datatype problem =
    MissingID nat
  | DuplicateID go_string
  | UnknownModule go_string go_string
  | MissingSpec go_string
  | SpecNotFound go_string go_string
  | DefaultTimeoutNotPositive go_string
  | MaxTimeoutBelowDefault go_string
  | InputNoName go_string
  | DuplicateInput go_string go_string
  | CsvNeedsSchema go_string go_string
  | UnknownSchema go_string go_string go_string
  | CsvNeedsFilename go_string go_string
  | UnsupportedKind go_string go_string go_string
  | MissingEnv go_string go_string
  | EnvTwice go_string go_string go_string

record input_scan =
  seenEnv :: "go_string set"
  seenName :: "go_string set"
  found :: "problem list"

definition kind_problems :: "(go_string, csv_schema) gomap \<Rightarrow> go_string \<Rightarrow> input \<Rightarrow> problem list" where
  "kind_problems schemas wid i =
     (if in_Kind i = ''csv'' then
        (if in_Schema i = [] then [CsvNeedsSchema wid (in_Name i)]
         else if map_of schemas (in_Schema i) = None then [UnknownSchema wid (in_Name i) (in_Schema i)]
         else []) @
        (if in_Filename i = [] then [CsvNeedsFilename wid (in_Name i)] else [])
      else if in_Kind i = ''int'' then []
      else [UnsupportedKind wid (in_Name i) (in_Kind i)])"

definition index_input ::
  "(go_string, csv_schema) gomap \<Rightarrow> go_string \<Rightarrow> input \<Rightarrow> input_scan \<Rightarrow> input_scan" where
  "index_input schemas wid i st =
     (if in_Name i = [] then st\<lparr>found := found st @ [InputNoName wid]\<rparr>
      else
        st\<lparr>seenName := insert (in_Name i) (seenName st),
           seenEnv := insert (in_Env i) (seenEnv st),
           found := found st @
             (if in_Name i \<in> seenName st then [DuplicateInput wid (in_Name i)] else []) @
             kind_problems schemas wid i @
             (if in_Env i = [] then [MissingEnv wid (in_Name i)]
              else if in_Env i \<in> seenEnv st then [EnvTwice wid (in_Name i) (in_Env i)] else [])\<rparr>)"

definition index_workflow ::
  "(go_string \<Rightarrow> bool) \<Rightarrow> go_string \<Rightarrow> go_string set \<Rightarrow> (go_string, csv_schema) gomap \<Rightarrow>
   nat \<times> workflow \<Rightarrow> (go_string, workflow) gomap \<times> problem list \<Rightarrow>
   (go_string, workflow) gomap \<times> problem list" where
  "index_workflow stat dir modules schemas iw st =
     (case st of (byID, problems) \<Rightarrow>
      let w = snd iw in
      if w_ID w = [] then (byID, problems @ [MissingID (fst iw)])
      else
        (AList.update (w_ID w) w byID,
         problems @
         (if map_of byID (w_ID w) \<noteq> None then [DuplicateID (w_ID w)] else []) @
         (if w_Module w \<notin> modules then [UnknownModule (w_ID w) (w_Module w)] else []) @
         (if w_Spec w = [] then [MissingSpec (w_ID w)]
          else if \<not> stat (Join [dir, w_Spec w]) then [SpecNotFound (w_ID w) (w_Spec w)] else []) @
         (if w_DefaultTimeoutSeconds w \<le> 0 then [DefaultTimeoutNotPositive (w_ID w)] else []) @
         (if w_MaxTimeoutSeconds w < w_DefaultTimeoutSeconds w then [MaxTimeoutBelowDefault (w_ID w)] else []) @
         found (fold (index_input schemas (w_ID w)) (w_Inputs w)
           \<lparr>seenEnv = {}, seenName = {}, found = []\<rparr>)))"

definition index :: "(go_string \<Rightarrow> bool) \<Rightarrow> go_string \<Rightarrow> catalog \<Rightarrow> catalog \<times> problem list" where
  "index stat dir c =
     (case fold (index_workflow stat dir (set (map m_Code (cat_Modules c))) (cat_CSVSchemas c))
        (enumerate 0 (cat_Workflows c)) ([], []) of
        (byID, problems) \<Rightarrow> (c\<lparr>cat_byID := byID\<rparr>, problems))"

datatype load_error = ReadingManifest | ParsingManifest | NormalisingManifest
  | Inconsistent "problem list"

definition Load ::
  "(go_string \<Rightarrow> go_string option) \<Rightarrow> (go_string \<Rightarrow> json option) \<Rightarrow> (json \<Rightarrow> go_string option) \<Rightarrow>
   (go_string \<Rightarrow> catalog option) \<Rightarrow> (go_string \<Rightarrow> bool) \<Rightarrow> go_string \<Rightarrow> go_string \<Rightarrow> load_error + catalog" where
  "Load readFile unmarshal marshal decode stat manifestPath automationDir =
     (case readFile manifestPath of
        None \<Rightarrow> Inl ReadingManifest
      | Some raw \<Rightarrow>
          (case unmarshal raw of
             None \<Rightarrow> Inl ParsingManifest
           | Some generic \<Rightarrow>
               (case marshal (stripComments generic) of
                  None \<Rightarrow> Inl NormalisingManifest
                | Some cleaned \<Rightarrow>
                    (case decode cleaned of
                       None \<Rightarrow> Inl ParsingManifest
                     | Some c \<Rightarrow>
                         (case index stat automationDir (c\<lparr>cat_raw := raw\<rparr>) of
                            (c', problems) \<Rightarrow> if problems = [] then Inr c' else Inl (Inconsistent problems))))))"

section \<open>What a consistent manifest is\<close>

definition kind_ok :: "(go_string, csv_schema) gomap \<Rightarrow> input \<Rightarrow> bool" where
  "kind_ok schemas i \<longleftrightarrow>
     in_Kind i = ''int'' \<or>
     in_Kind i = ''csv'' \<and> in_Schema i \<noteq> [] \<and> map_of schemas (in_Schema i) \<noteq> None \<and> in_Filename i \<noteq> []"

definition inputs_ok :: "(go_string, csv_schema) gomap \<Rightarrow> input list \<Rightarrow> bool" where
  "inputs_ok schemas is \<longleftrightarrow>
     (\<forall>i \<in> set is. in_Name i \<noteq> [] \<and> in_Env i \<noteq> [] \<and> kind_ok schemas i) \<and>
     distinct (map in_Name is) \<and> distinct (map in_Env is)"

definition workflow_ok ::
  "(go_string \<Rightarrow> bool) \<Rightarrow> go_string \<Rightarrow> catalog \<Rightarrow> workflow \<Rightarrow> bool" where
  "workflow_ok stat dir c w \<longleftrightarrow>
     w_ID w \<noteq> [] \<and> w_Module w \<in> m_Code ` set (cat_Modules c) \<and>
     w_Spec w \<noteq> [] \<and> stat (Join [dir, w_Spec w]) \<and>
     0 < w_DefaultTimeoutSeconds w \<and> w_DefaultTimeoutSeconds w \<le> w_MaxTimeoutSeconds w \<and>
     inputs_ok (cat_CSVSchemas c) (w_Inputs w)"

definition manifest_ok :: "(go_string \<Rightarrow> bool) \<Rightarrow> go_string \<Rightarrow> catalog \<Rightarrow> bool" where
  "manifest_ok stat dir c \<longleftrightarrow>
     (\<forall>w \<in> set (cat_Workflows c). workflow_ok stat dir c w) \<and> distinct (map w_ID (cat_Workflows c))"

lemma kind_problems_Nil: "kind_problems schemas wid i = [] \<longleftrightarrow> kind_ok schemas i"
  by (auto simp: kind_problems_def kind_ok_def)

lemma index_input_found:
  "found (index_input schemas wid i st) = [] \<longleftrightarrow>
     found st = [] \<and> in_Name i \<noteq> [] \<and> in_Env i \<noteq> [] \<and> kind_ok schemas i \<and>
     in_Name i \<notin> seenName st \<and> in_Env i \<notin> seenEnv st"
  by (auto simp: index_input_def kind_problems_Nil)

lemma index_input_seen:
  "in_Name i \<noteq> [] \<Longrightarrow> seenName (index_input schemas wid i st) = insert (in_Name i) (seenName st)"
  "in_Name i \<noteq> [] \<Longrightarrow> seenEnv (index_input schemas wid i st) = insert (in_Env i) (seenEnv st)"
  by (simp_all add: index_input_def)

lemma index_inputs_found:
  "found (fold (index_input schemas wid) is st) = [] \<longleftrightarrow>
     found st = [] \<and> inputs_ok schemas is \<and>
     in_Name ` set is \<inter> seenName st = {} \<and> in_Env ` set is \<inter> seenEnv st = {}"
proof (induction "is" arbitrary: st)
  case (Cons i "is")
  show ?case
  proof (cases "in_Name i = []")
    case True
    then have "found (index_input schemas wid i st) \<noteq> []" by (simp add: index_input_found)
    with Cons.IH [of "index_input schemas wid i st"] True show ?thesis
      by (simp add: inputs_ok_def)
  next
    case False
    show ?thesis
      unfolding fold_simps Cons.IH index_input_found index_input_seen [OF False]
      by (auto simp: inputs_ok_def)
  qed
qed (simp add: inputs_ok_def)

lemma index_workflow_problems:
  "snd (index_workflow stat dir (set (map m_Code (cat_Modules c))) (cat_CSVSchemas c) iw (byID, ps)) = [] \<longleftrightarrow>
     ps = [] \<and> workflow_ok stat dir c (snd iw) \<and> map_of byID (w_ID (snd iw)) = None"
  by (auto simp: index_workflow_def Let_def workflow_ok_def index_inputs_found)

lemma index_workflow_byID:
  "w_ID (snd iw) \<noteq> [] \<Longrightarrow>
   fst (index_workflow stat dir ms schemas iw (byID, ps)) = AList.update (w_ID (snd iw)) (snd iw) byID"
  by (simp add: index_workflow_def Let_def)

lemma index_fold_problems:
  fixes stat dir c
  defines "step \<equiv> index_workflow stat dir (set (map m_Code (cat_Modules c))) (cat_CSVSchemas c)"
  shows "snd (fold step iws (byID, ps)) = [] \<longleftrightarrow>
     ps = [] \<and> (\<forall>w \<in> set (map snd iws). workflow_ok stat dir c w) \<and>
     distinct (map (w_ID \<circ> snd) iws) \<and> (\<forall>w \<in> set (map snd iws). map_of byID (w_ID w) = None)"
proof (induction iws arbitrary: byID ps)
  case (Cons iw iws)
  obtain b q where bq: "step iw (byID, ps) = (b, q)" by (cases "step iw (byID, ps)")
  have q: "q = [] \<longleftrightarrow> ps = [] \<and> workflow_ok stat dir c (snd iw) \<and> map_of byID (w_ID (snd iw)) = None"
    using index_workflow_problems [of stat dir c iw byID ps] bq unfolding step_def by simp
  have b: "b = AList.update (w_ID (snd iw)) (snd iw) byID" if "w_ID (snd iw) \<noteq> []"
    using index_workflow_byID [OF that, of stat dir _ _ byID ps] bq by (metis fst_conv step_def)
  have ne: "workflow_ok stat dir c (snd iw) \<Longrightarrow> w_ID (snd iw) \<noteq> []" by (simp add: workflow_ok_def)
  show ?case
  proof (cases "workflow_ok stat dir c (snd iw)")
    case True
    then have "b = AList.update (w_ID (snd iw)) (snd iw) byID" using ne b by blast
    then have "(\<forall>x \<in> set iws. map_of b (w_ID (snd x)) = None) \<longleftrightarrow>
        (\<forall>x \<in> set iws. w_ID (snd x) \<noteq> w_ID (snd iw) \<and> map_of byID (w_ID (snd x)) = None)"
      by (auto simp: go_maps)
    moreover have "w_ID (snd iw) \<notin> (w_ID \<circ> snd) ` set iws \<longleftrightarrow>
        (\<forall>x \<in> set iws. w_ID (snd x) \<noteq> w_ID (snd iw))" by (auto simp: image_iff)
    ultimately show ?thesis using True by (simp add: bq Cons.IH q) blast
  qed (simp add: bq Cons.IH q)
qed simp

lemma index_fold_byID:
  fixes stat dir c
  defines "step \<equiv> index_workflow stat dir (set (map m_Code (cat_Modules c))) (cat_CSVSchemas c)"
  shows "\<forall>w \<in> set (map snd iws). w_ID w \<noteq> [] \<Longrightarrow> distinct (map (w_ID \<circ> snd) iws) \<Longrightarrow>
    map_of (fst (fold step iws (byID, ps))) i =
      (case List.find (\<lambda>w. w_ID w = i) (map snd iws) of None \<Rightarrow> map_of byID i | Some w \<Rightarrow> Some w)"
proof (induction iws arbitrary: byID ps)
  case (Cons iw iws)
  obtain b q where bq: "step iw (byID, ps) = (b, q)" by (cases "step iw (byID, ps)")
  have b: "b = AList.update (w_ID (snd iw)) (snd iw) byID"
    using index_workflow_byID [of iw stat dir _ _ byID ps] Cons.prems(1) bq
    by (metis fst_conv step_def list.set_intros(1) list.simps(9))
  have "\<forall>x \<in> set iws. w_ID (snd x) \<noteq> w_ID (snd iw)"
    using Cons.prems(2) by (fastforce simp: image_iff)
  then have "List.find (\<lambda>w. w_ID w = w_ID (snd iw)) (map snd iws) = None"
    by (simp add: find_None_iff)
  with Cons show ?case by (auto simp: bq b go_maps split: option.splits)
qed simp

lemma index_problems: "snd (index stat dir c) = [] \<longleftrightarrow> manifest_ok stat dir c"
proof -
  have "map (w_ID \<circ> snd) (enumerate 0 (cat_Workflows c)) = map w_ID (cat_Workflows c)"
    by (metis map_map map_snd_enumerate)
  then show ?thesis
    using index_fold_problems [of stat dir c "enumerate 0 (cat_Workflows c)" "[]" "[]"]
    by (simp add: index_def split_beta manifest_ok_def)
qed

lemma index_Workflow:
  assumes "manifest_ok stat dir c"
  shows "Workflow (fst (index stat dir c)) i = List.find (\<lambda>w. w_ID w = i) (cat_Workflows c)"
proof -
  have "map (w_ID \<circ> snd) (enumerate 0 (cat_Workflows c)) = map w_ID (cat_Workflows c)"
    by (metis map_map map_snd_enumerate)
  then show ?thesis
    using index_fold_byID [of "enumerate 0 (cat_Workflows c)" stat dir c "[]" "[]" i] assms
    by (simp add: index_def split_beta Workflow_def manifest_ok_def workflow_ok_def split: option.splits)
qed

lemma find_unique:
  "distinct (map f xs) \<Longrightarrow> List.find (\<lambda>x. f x = k) xs = Some x \<longleftrightarrow> x \<in> set xs \<and> f x = k"
  by (induction xs) auto

section \<open>Properties\<close>

text \<open>
  C26. Validation is exact: \<open>index\<close> reports no problem if and only if the manifest is consistent
  with the repository, that is, ids are present and distinct, modules are declared, specs exist,
  the default timeout is positive and at most the maximum, and the inputs of a workflow have
  distinct names and variables, a supported kind, and a known schema and a file name when they are
  CSV files.
\<close>

theorem index_exact:
  "(snd (index stat dir c) = []) = manifest_ok stat dir c"
  by (rule index_problems)

text \<open>
  What \<open>Load\<close> returns: a catalog that is consistent, that serves the manifest's bytes
  verbatim, whose lookup finds a workflow exactly under its own id, and whose every workflow has a
  positive default timeout that is at most its maximum.
\<close>

theorem load_consistent:
  assumes "Load readFile unmarshal marshal decode stat path dir = Inr c"
  shows "manifest_ok stat dir c \<and> readFile path = Some (Raw c) \<and>
    (\<forall>i w. (Workflow c i = Some w) = (w \<in> set (cat_Workflows c) \<and> w_ID w = i))"
proof -
  obtain raw d where r: "readFile path = Some raw" and d: "index stat dir (d\<lparr>cat_raw := raw\<rparr>) = (c, [])"
    using assms by (auto simp: Load_def split: option.splits prod.splits if_splits)
  let ?d = "d\<lparr>cat_raw := raw\<rparr>"
  have ok: "manifest_ok stat dir ?d" using index_problems [of stat dir ?d] d by simp
  have c: "cat_Workflows c = cat_Workflows ?d" "cat_Modules c = cat_Modules ?d"
    "cat_CSVSchemas c = cat_CSVSchemas ?d" "Raw c = raw"
    using d by (auto simp: index_def Raw_def split: prod.splits)
  have "Workflow c i = List.find (\<lambda>w. w_ID w = i) (cat_Workflows c)" for i
    using index_Workflow [OF ok, of i] by (simp add: d c(1))
  moreover have "manifest_ok stat dir c"
    using ok unfolding manifest_ok_def workflow_ok_def c .
  ultimately show ?thesis
    using r by (simp add: c(4) find_unique manifest_ok_def)
qed

definition sample_input :: input where
  "sample_input =
     \<lparr>in_Name = ''ta'', in_Kind = ''csv'', in_Required = True, in_Env = ''MASTER_CSV'',
      in_Filename = ''master.csv'', in_Schema = ''ta'', in_Label = ''TA'', in_Help = [],
      in_Default = None, in_Min = None, in_Max = None, in_Template = [], in_Parser = [],
      in_TemplateFilename = [], in_TemplateHelp = [], in_Group = [], in_Caption = [], in_Note = []\<rparr>"

definition sample_workflow :: workflow where
  "sample_workflow =
     \<lparr>w_ID = ''ta-create'', w_Module = ''ta'', w_Label = ''Create'', w_Description = [],
      w_Spec = ''tests/ta.spec.js'', w_Class = ''demo'', w_DefaultTimeoutSeconds = 600,
      w_MaxTimeoutSeconds = 3600, w_Inputs = [sample_input],
      w_Results = \<lparr>res_OutputJSON = True, res_Files = []\<rparr>\<rparr>"

definition sample_catalog :: catalog where
  "sample_catalog =
     \<lparr>cat_Version = 1, cat_Modules = [\<lparr>m_Code = ''ta'', m_Label = ''TA''\<rparr>],
      cat_CSVSchemas = [(''ta'', \<lparr>sch_Headers = [''userid'', ''attName''], sch_SecretColumns = []\<rparr>)],
      cat_Workflows = [sample_workflow], cat_byID = [], cat_raw = []\<rparr>"

definition loaded_catalog :: catalog where
  "loaded_catalog = fst (index (\<lambda>_. True) ''/a'' (sample_catalog\<lparr>cat_raw := ''{}''\<rparr>))"

theorem load_consistent_witness:
  "Load (\<lambda>_. Some ''{}'') (\<lambda>_. Some (JObj [])) (\<lambda>_. Some ''{}'') (\<lambda>_. Some sample_catalog)
     (\<lambda>_. True) ''/a/workflows.json'' ''/a'' = Inr loaded_catalog \<and>
   Workflow loaded_catalog ''ta-create'' = Some sample_workflow"
proof -
  have "manifest_ok (\<lambda>_. True) ''/a'' (sample_catalog\<lparr>cat_raw := ''{}''\<rparr>)"
    by (simp add: manifest_ok_def workflow_ok_def inputs_ok_def kind_ok_def sample_catalog_def
        sample_workflow_def sample_input_def)
  then have "snd (index (\<lambda>_. True) ''/a'' (sample_catalog\<lparr>cat_raw := ''{}''\<rparr>)) = []"
    by (simp only: index_problems)
  then have l: "Load (\<lambda>_. Some ''{}'') (\<lambda>_. Some (JObj [])) (\<lambda>_. Some ''{}'') (\<lambda>_. Some sample_catalog)
     (\<lambda>_. True) ''/a/workflows.json'' ''/a'' = Inr loaded_catalog"
    by (simp add: Load_def loaded_catalog_def split_beta)
  have "sample_workflow \<in> set (cat_Workflows loaded_catalog)" "w_ID sample_workflow = ''ta-create''"
    by (simp_all add: loaded_catalog_def index_def sample_catalog_def sample_workflow_def split: prod.split)
  with load_consistent [OF l] l show ?thesis by blast
qed

end
