(* ===== verification/Layout.thy ===== *)
theory Layout
  imports Paths
begin

text \<open>
  \<open>internal/run/layout.go\<close>: the private directory tree of one run and the guard that keeps an
  artifact path inside it. The interface \<open>path_jail\<close> is what the download handlers rely on: a
  resolved path is inside the run directory; the layout's \<open>Resolve\<close> is its model.
\<close>

section \<open>The tree\<close>

record layout =
  Root :: go_string

definition Input :: "layout \<Rightarrow> go_string" where "Input l = Join [Root l, ''input'']"
definition Output :: "layout \<Rightarrow> go_string" where "Output l = Join [Root l, ''output'']"
definition Report :: "layout \<Rightarrow> go_string" where "Report l = Join [Root l, ''report'']"
definition Tmp :: "layout \<Rightarrow> go_string" where "Tmp l = Join [Root l, ''tmp'']"
definition ReportJSON :: "layout \<Rightarrow> go_string" where "ReportJSON l = Join [Root l, ''report.json'']"
definition LogFile :: "layout \<Rightarrow> go_string" where "LogFile l = Join [Root l, ''run.log'']"
definition MetaFile :: "layout \<Rightarrow> go_string" where "MetaFile l = Join [Root l, ''meta.json'']"

text \<open>
  \<open>Create\<close>: the directories are made in this order until \<open>os.MkdirAll\<close> (\<open>mkdir\<close>, the error it
  returns) fails; the result is the directories made and the error.
\<close>

fun mkdir_all :: "(go_string \<Rightarrow> go_string option) \<Rightarrow> go_string list \<Rightarrow> go_string list \<times> go_string option" where
  "mkdir_all mkdir [] = ([], None)"
| "mkdir_all mkdir (d # ds) =
     (case mkdir d of
        Some e \<Rightarrow> ([], Some (''creating '' @ d @ '': '' @ e))
      | None \<Rightarrow> (case mkdir_all mkdir ds of (made, err) \<Rightarrow> (d # made, err)))"

definition Create :: "(go_string \<Rightarrow> go_string option) \<Rightarrow> layout \<Rightarrow> go_string list \<times> go_string option" where
  "Create mkdir l = mkdir_all mkdir [Root l, Input l, Output l, Report l, Tmp l]"

section \<open>Resolve and RelTo\<close>

datatype path_error = AbsoluteNotAllowed go_string | NoWorkingDir | EscapesRun go_string
  | NotRelative | OutsideRun go_string

definition Resolve :: "go_string option \<Rightarrow> layout \<Rightarrow> go_string \<Rightarrow> path_error + go_string" where
  "Resolve cwd l rel =
     (if IsAbs rel then Inl (AbsoluteNotAllowed rel)
      else
        case Abs cwd (Root l) of
          None \<Rightarrow> Inl NoWorkingDir
        | Some root \<Rightarrow>
            let full = Clean (Join [root, rel])
            in if full \<noteq> root \<and> \<not> has_prefix full (root @ [slash])
               then Inl (EscapesRun rel) else Inr full)"

definition RelTo :: "go_string option \<Rightarrow> layout \<Rightarrow> go_string \<Rightarrow> path_error + go_string" where
  "RelTo cwd l p =
     (case Abs cwd (Root l) of
        None \<Rightarrow> Inl NoWorkingDir
      | Some root \<Rightarrow>
          (case Rel root p of
             None \<Rightarrow> Inl NotRelative
           | Some rel \<Rightarrow> if has_prefix rel ''..'' then Inl (OutsideRun p) else Inr rel))"

text \<open>\<open>within root p\<close>: the clean absolute path \<open>p\<close> names the directory or something below it.\<close>

definition within :: "go_string \<Rightarrow> go_string \<Rightarrow> bool" where
  "within root p \<longleftrightarrow>
     (\<exists>rest. list_all plain rest \<and> IsAbs p \<and> Clean p = p \<and> path_comps p = path_comps root @ rest)"

definition cwd_ok :: "go_string option \<Rightarrow> bool" where
  "cwd_ok cwd \<longleftrightarrow> (case cwd of None \<Rightarrow> True | Some d \<Rightarrow> IsAbs d)"

definition root_comps :: "go_string option \<Rightarrow> layout \<Rightarrow> go_string list" where
  "root_comps cwd l = (case Abs cwd (Root l) of None \<Rightarrow> [] | Some r \<Rightarrow> path_comps r)"

lemma Abs_root:
  assumes "cwd_ok cwd" "Abs cwd (Root l) = Some root"
  shows "list_all plain (root_comps cwd l)" "root = abs_path (root_comps cwd l)"
proof -
  obtain cs where "list_all plain cs" "root = abs_path cs"
    using Abs_abs [OF assms(2)] assms(1) by (auto simp: cwd_ok_def split: option.splits)
  then show "list_all plain (root_comps cwd l)" "root = abs_path (root_comps cwd l)"
    using assms(2) by (simp_all add: root_comps_def path_comps_abs_path)
qed

text \<open>The components that a relative path names below the root.\<close>

definition joined_comps :: "go_string list \<Rightarrow> go_string \<Rightarrow> go_string list" where
  "joined_comps rc rel = rev (fold (clean_step True) (path_comps rel) (rev rc))"

lemma Join_root:
  "list_all plain rc \<Longrightarrow> Join [abs_path rc, rel] = abs_path (joined_comps rc rel)"
  by (simp add: Join_abs_comps abs_comps_append abs_comps_abs_path joined_comps_def)

lemma joined_comps_plain: "list_all plain rc \<Longrightarrow> list_all plain (joined_comps rc rel)"
  using abs_comps_plain [of "abs_path rc @ slash # rel"]
  by (simp add: abs_comps_append abs_comps_abs_path joined_comps_def)

lemma joined_comps_append:
  "list_all plain (path_comps rel) \<Longrightarrow> joined_comps rc rel = rc @ path_comps rel"
  by (simp add: joined_comps_def fold_clean_step_plain)

lemma Resolve_iff:
  assumes "cwd_ok cwd" "Abs cwd (Root l) = Some root" "root_comps cwd l \<noteq> []"
  shows "Resolve cwd l rel = Inr full \<longleftrightarrow>
    \<not> IsAbs rel \<and> full = abs_path (joined_comps (root_comps cwd l) rel) \<and>
    (\<exists>rest. joined_comps (root_comps cwd l) rel = root_comps cwd l @ rest)"
proof -
  let ?rc = "root_comps cwd l" and ?jc = "joined_comps (root_comps cwd l) rel"
  have rc: "list_all plain ?rc" "root = abs_path ?rc" using Abs_root [OF assms(1,2)] .
  have jc: "list_all plain ?jc" by (rule joined_comps_plain [OF rc(1)])
  have "Clean (Join [root, rel]) = abs_path ?jc"
    by (simp add: rc(2) Join_root [OF rc(1)] Clean_abs_path [OF jc])
  then show ?thesis
    using abs_path_prefix_iff [OF jc rc(1) assms(3)] assms(2) rc(2)
    by (auto simp: Resolve_def Let_def)
qed

lemma Resolve_root_known: "Resolve cwd l rel = Inr full \<Longrightarrow> \<exists>root. Abs cwd (Root l) = Some root"
  by (auto simp: Resolve_def split: if_splits option.splits)

lemma Resolve_within:
  assumes "cwd_ok cwd" "root_comps cwd l \<noteq> []" "Resolve cwd l rel = Inr full"
  shows "within (abs_path (root_comps cwd l)) full"
proof -
  obtain root where root: "Abs cwd (Root l) = Some root"
    using Resolve_root_known [OF assms(3)] ..
  let ?rc = "root_comps cwd l"
  have rc: "list_all plain ?rc" by (rule Abs_root(1) [OF assms(1) root])
  obtain rest where r: "joined_comps ?rc rel = ?rc @ rest" "full = abs_path (joined_comps ?rc rel)"
    using Resolve_iff [OF assms(1) root assms(2)] assms(3) by blast
  have "list_all plain (?rc @ rest)" using joined_comps_plain [OF rc, of rel] r(1) by simp
  then show ?thesis
    using rc r by (auto simp: within_def path_comps_abs_path Clean_abs_path)
qed

lemma RelTo_Resolve:
  assumes "cwd_ok cwd" "Abs cwd (Root l) = Some root" "root_comps cwd l \<noteq> []"
    and "list_all plain (n # rest)" "\<not> has_prefix n ''..''"
  shows "RelTo cwd l (abs_path (root_comps cwd l @ n # rest)) = Inr (join_with [slash] (n # rest)) \<and>
    Resolve cwd l (join_with [slash] (n # rest)) = Inr (abs_path (root_comps cwd l @ n # rest))"
proof -
  let ?rc = "root_comps cwd l" and ?rel = "join_with [slash] (n # rest)"
  have rc: "list_all plain ?rc" "root = abs_path ?rc" using Abs_root [OF assms(1,2)] .
  have pr: "path_comps ?rel = n # rest" by (rule path_comps_join [OF assms(4)])
  obtain t where t: "?rel = n @ t" "t = [] \<or> hd t = slash"
    by (cases rest) auto
  have n: "n \<noteq> []" "slash \<notin> set n" using assms(4) by (auto simp: plain_def)
  have "\<not> has_prefix ?rel ''..''"
  proof
    assume "has_prefix ?rel ''..''"
    then obtain u where u: "n @ t = ''..'' @ u" by (auto simp: has_prefix_iff t(1))
    with n(1) obtain c n' where c: "n = CHR ''.'' # n'" "n' @ t = CHR ''.'' # u" by (cases n) auto
    with t(2) assms(5) show False
      by (cases n') (auto simp: has_prefix_def)
  qed
  moreover have "Rel root (abs_path (?rc @ n # rest)) = Some ?rel"
    unfolding rc(2) by (rule Rel_inside [OF rc(1) assms(4)]) simp
  ultimately have "RelTo cwd l (abs_path (?rc @ n # rest)) = Inr ?rel"
    using assms(2) by (simp add: RelTo_def)
  have "\<not> IsAbs ?rel" using n t(1) by (cases n) (auto simp: IsAbs_def has_prefix_def)
  then have "Resolve cwd l ?rel = Inr (abs_path (?rc @ n # rest))"
    using Resolve_iff [OF assms(1-3)] joined_comps_append [of ?rel ?rc] assms(4) pr by simp
  with \<open>RelTo cwd l _ = _\<close> show ?thesis ..
qed

section \<open>The interface of the download handlers\<close>

locale path_jail =
  fixes resolve :: "'l \<Rightarrow> go_string \<Rightarrow> 'e + go_string"
    and home :: "'l \<Rightarrow> go_string list"
  assumes resolve_inside: "resolve l rel = Inr full \<Longrightarrow>
    \<exists>rest. full = abs_path (home l @ rest) \<and> list_all plain (home l @ rest)"
begin

text \<open>Two layouts, neither of which is below the other, never resolve to the same path.\<close>

lemma jails_disjoint:
  assumes "resolve l rel = Inr p" "resolve l' rel' = Inr p'"
    and "length (home l) = length (home l')" "home l \<noteq> home l'"
  shows "p \<noteq> p'"
proof -
  obtain r r' where "p = abs_path (home l @ r)" "list_all plain (home l @ r)"
    "p' = abs_path (home l' @ r')" "list_all plain (home l' @ r')"
    using resolve_inside [OF assms(1)] resolve_inside [OF assms(2)] by blast
  with assms(3,4) show ?thesis by (simp add: abs_path_inject)
qed

end

text \<open>The layout as a jail: run directories below a fixed runs directory.\<close>

definition run_layout :: "go_string \<Rightarrow> go_string \<Rightarrow> layout" where
  "run_layout runsDir rid = \<lparr>Root = Join [runsDir, rid]\<rparr>"

lemma run_layout_Abs:
  assumes "IsAbs runsDir" "plain rid"
  shows "Abs cwd (Root (run_layout runsDir rid)) = Some (abs_path (abs_comps runsDir @ [rid]))"
    "root_comps cwd (run_layout runsDir rid) = abs_comps runsDir @ [rid]"
proof -
  have p: "list_all plain (abs_comps runsDir @ [rid])"
    using abs_comps_plain assms(2) by simp
  have j: "Join [runsDir, rid] = abs_path (abs_comps runsDir @ [rid])"
    by (rule Join_abs_plain [OF assms])
  then show a: "Abs cwd (Root (run_layout runsDir rid)) = Some (abs_path (abs_comps runsDir @ [rid]))"
    by (simp add: run_layout_def Abs_def Clean_abs_path [OF p])
  show "root_comps cwd (run_layout runsDir rid) = abs_comps runsDir @ [rid]"
    by (simp add: root_comps_def a path_comps_abs_path [OF p])
qed

definition jail_resolve :: "go_string \<times> go_string \<Rightarrow> go_string \<Rightarrow> path_error + go_string" where
  "jail_resolve d rel =
     (if IsAbs (fst d) \<and> plain (snd d) then Resolve None (run_layout (fst d) (snd d)) rel
      else Inl NoWorkingDir)"

interpretation run_jail: path_jail jail_resolve "\<lambda>d. abs_comps (fst d) @ [snd d]"
proof
  fix d :: "go_string \<times> go_string" and rel full
  assume r: "jail_resolve d rel = Inr full"
  then have d: "IsAbs (fst d)" "plain (snd d)"
    and res: "Resolve None (run_layout (fst d) (snd d)) rel = Inr full"
    by (auto simp: jail_resolve_def split: if_splits)
  let ?rc = "abs_comps (fst d) @ [snd d]"
  have rc: "root_comps None (run_layout (fst d) (snd d)) = ?rc" by (rule run_layout_Abs(2) [OF d])
  have pl: "list_all plain ?rc" using d(2) abs_comps_plain by simp
  from Resolve_iff [OF _ run_layout_Abs(1) [OF d], where cwd = None and rel = rel and full = full] res rc
  obtain rest where "joined_comps ?rc rel = ?rc @ rest" "full = abs_path (joined_comps ?rc rel)"
    by (auto simp: cwd_ok_def)
  with joined_comps_plain [OF pl, of rel]
  show "\<exists>rest. full = abs_path (?rc @ rest) \<and> list_all plain (?rc @ rest)" by auto
qed

section \<open>Properties\<close>

text \<open>
  C18. Path traversal: whatever relative path it is given, a path that \<open>Resolve\<close> returns is a
  clean absolute path that names the run directory or something below it, component by
  component, so no \<open>..\<close> is left in it and a sibling with the same name prefix is not matched.
\<close>

theorem resolve_contained:
  assumes "cwd_ok cwd" "root_comps cwd l \<noteq> []" "Resolve cwd l rel = Inr full"
  shows "within (abs_path (root_comps cwd l)) full"
  using assms by (rule Resolve_within)

theorem resolve_contained_witness:
  "within (abs_path (root_comps None \<lparr>Root = ''/runs/a''\<rparr>)) ''/runs/a/output/x''"
proof -
  have "Resolve None \<lparr>Root = ''/runs/a''\<rparr> ''output/./y/../x'' = Inr ''/runs/a/output/x''"
    by code_simp
  moreover have "root_comps None \<lparr>Root = ''/runs/a''\<rparr> \<noteq> []" by code_simp
  ultimately show ?thesis by (intro resolve_contained) (simp_all add: cwd_ok_def)
qed

text \<open>
  What is refused and what is not: \<open>Resolve\<close> succeeds exactly on a relative path whose
  lexical normal form under the run directory stays below it, and then returns that normal form;
  absolute paths and paths that climb out are errors.
\<close>

theorem resolve_exact:
  assumes "cwd_ok cwd" "Abs cwd (Root l) = Some root" "root_comps cwd l \<noteq> []"
  shows "Resolve cwd l rel =
    (if IsAbs rel then Inl (AbsoluteNotAllowed rel)
     else if \<exists>rest. joined_comps (root_comps cwd l) rel = root_comps cwd l @ rest
     then Inr (abs_path (joined_comps (root_comps cwd l) rel))
     else Inl (EscapesRun rel))"
proof (cases "Resolve cwd l rel")
  case (Inr full)
  with Resolve_iff [OF assms, of rel full] show ?thesis by auto
next
  case (Inl e)
  then have "\<not> IsAbs rel \<Longrightarrow> e = EscapesRun rel" "IsAbs rel \<Longrightarrow> e = AbsoluteNotAllowed rel"
    using assms(2) by (auto simp: Resolve_def Let_def split: if_splits)
  with Inl Resolve_iff [OF assms, of rel] show ?thesis by auto
qed

theorem resolve_exact_witness:
  "Resolve None \<lparr>Root = ''/runs/a''\<rparr> ''../b/x'' = Inl (EscapesRun ''../b/x'')"
proof -
  let ?l = "\<lparr>Root = ''/runs/a''\<rparr>"
  have r: "root_comps None ?l = [''runs'', ''a'']" by code_simp
  have a: "Abs None (Root ?l) = Some ''/runs/a''" by code_simp
  have i: "\<not> IsAbs ''../b/x''" by code_simp
  have j: "joined_comps [''runs'', ''a''] ''../b/x'' = [''runs'', ''b'', ''x'']" by code_simp
  show ?thesis
    using resolve_exact [of None ?l "''/runs/a''" "''../b/x''", unfolded r j] a i
    by (simp add: cwd_ok_def)
qed

text \<open>
  Isolation of runs: paths resolved in the directories of two runs with different ids are
  different, whatever the relative paths are.
\<close>

theorem run_directories_disjoint:
  assumes "IsAbs runsDir" "plain rid" "plain rid'" "rid \<noteq> rid'"
    and "Resolve None (run_layout runsDir rid) rel = Inr p"
    and "Resolve None (run_layout runsDir rid') rel' = Inr p'"
  shows "p \<noteq> p'"
  using run_jail.jails_disjoint [of "(runsDir, rid)" rel p "(runsDir, rid')" rel' p'] assms
  by (simp add: jail_resolve_def)

theorem run_directories_disjoint_witness:
  "''/runs/a/output/x'' \<noteq> ''/runs/ab/output/x''"
proof (rule run_directories_disjoint)
  show "IsAbs ''/runs''" "plain ''a''" "plain ''ab''" "''a'' \<noteq> ''ab''" by code_simp+
  show "Resolve None (run_layout ''/runs'' ''a'') ''output/x'' = Inr ''/runs/a/output/x''" by code_simp
  show "Resolve None (run_layout ''/runs'' ''ab'') ''output/x'' = Inr ''/runs/ab/output/x''" by code_simp
qed

text \<open>
  Round trip: a file below the run directory whose first component does not start with two
  dots has a relative form, and resolving that form gives the file back.
\<close>

theorem relto_resolve_roundtrip:
  assumes "cwd_ok cwd" "Abs cwd (Root l) = Some root" "root_comps cwd l \<noteq> []"
    and "list_all plain (n # rest)" "\<not> has_prefix n ''..''"
  shows "RelTo cwd l (abs_path (root_comps cwd l @ n # rest)) = Inr (join_with [slash] (n # rest)) \<and>
    Resolve cwd l (join_with [slash] (n # rest)) = Inr (abs_path (root_comps cwd l @ n # rest))"
  using assms by (rule RelTo_Resolve)

theorem relto_resolve_roundtrip_witness:
  "RelTo None \<lparr>Root = ''/r''\<rparr> ''/r/output/t.zip'' = Inr ''output/t.zip'' \<and>
   Resolve None \<lparr>Root = ''/r''\<rparr> ''output/t.zip'' = Inr ''/r/output/t.zip''"
proof -
  let ?l = "\<lparr>Root = ''/r''\<rparr>"
  have r: "root_comps None ?l = [''r'']" and a: "Abs None (Root ?l) = Some ''/r''" by code_simp+
  have p: "list_all plain [''output'', ''t.zip'']" and d: "\<not> has_prefix ''output'' ''..''" by code_simp+
  have j: "join_with [slash] [''output'', ''t.zip''] = ''output/t.zip''"
    and q: "abs_path ([''r''] @ [''output'', ''t.zip'']) = ''/r/output/t.zip''" by code_simp+
  show ?thesis
    using relto_resolve_roundtrip [of None ?l "''/r''" "''output''" "[''t.zip'']", unfolded r j q] a p d
    by (simp add: cwd_ok_def)
qed

text \<open>
  \<open>report/\<close> is a sibling of \<open>output/\<close>: whatever absolute root a layout has, neither directory
  is the other or below the other, which is what Playwright requires to start.
\<close>

theorem report_is_sibling_of_output:
  assumes "IsAbs (Root l)"
  shows "Report l \<noteq> Output l \<and> \<not> has_prefix (Report l) (Output l @ [slash]) \<and>
    \<not> has_prefix (Output l) (Report l @ [slash])"
proof -
  let ?rc = "abs_comps (Root l)"
  have p: "list_all plain (?rc @ [''report''])" "list_all plain (?rc @ [''output''])"
    using abs_comps_plain by (simp_all add: plain_def)
  have j: "Report l = abs_path (?rc @ [''report''])" "Output l = abs_path (?rc @ [''output''])"
    using assms by (simp_all add: Report_def Output_def Join_abs_plain plain_def)
  show ?thesis
    unfolding j using abs_path_prefix_iff [OF p] abs_path_prefix_iff [OF p(2,1)] by auto
qed

theorem report_is_sibling_of_output_witness:
  "Report \<lparr>Root = ''/a''\<rparr> \<noteq> Output \<lparr>Root = ''/a''\<rparr> \<and>
   \<not> has_prefix (Report \<lparr>Root = ''/a''\<rparr>) (Output \<lparr>Root = ''/a''\<rparr> @ [slash]) \<and>
   \<not> has_prefix (Output \<lparr>Root = ''/a''\<rparr>) (Report \<lparr>Root = ''/a''\<rparr> @ [slash])"
proof (rule report_is_sibling_of_output)
  show "IsAbs (Root \<lparr>Root = ''/a''\<rparr>)" by code_simp
qed

end
