(* ===== verification/Logbuf.thy ===== *)
theory Logbuf
  imports Prelude
begin

text \<open>
  The package \<open>internal/logbuf\<close>: \<open>StripANSI\<close> and the ring buffer \<open>Buffer\<close> with its
  fan-out to subscribers. A channel is a record on a heap \<open>chans\<close>, addressed by the number
  it got at its creation; the Go map \<open>subs\<close> is the list of the addresses it holds. A send on
  a closed channel panics, which is \<open>None\<close>. The interface \<open>tail_log\<close> is what a polling
  client relies on; the ring buffer is its model.
\<close>

section \<open>StripANSI\<close>

definition ESC :: char where "ESC = CHR 0x1B"
definition CR :: char where "CR = CHR 0x0D"

text \<open>The three character classes of the expression \<open>\x1b\[[0-9;?]*[ -/]*[@-~]\<close>.\<close>

definition csi_param :: "char \<Rightarrow> bool" where
  "csi_param c = (let n = of_char c :: nat in (48 \<le> n \<and> n \<le> 57) \<or> n = 59 \<or> n = 63)"

definition csi_inter :: "char \<Rightarrow> bool" where
  "csi_inter c = (let n = of_char c :: nat in 32 \<le> n \<and> n \<le> 47)"

definition csi_final :: "char \<Rightarrow> bool" where
  "csi_final c = (let n = of_char c :: nat in 64 \<le> n \<and> n \<le> 126)"

text \<open>
  A match of the expression at the head of the string, as what is left behind it. The
  classes are disjoint, so the greedy match is the only one and never has to backtrack.
\<close>

definition match_csi :: "go_string \<Rightarrow> go_string option" where
  "match_csi s =
     (case s of
        e # b # r \<Rightarrow>
          if e = ESC \<and> b = CHR ''['' then
            (case dropWhile csi_inter (dropWhile csi_param r) of
               f # r' \<Rightarrow> if csi_final f then Some r' else None
             | [] \<Rightarrow> None)
          else None
      | _ \<Rightarrow> None)"

lemma match_csi_shorter: "match_csi s = Some r \<Longrightarrow> length r < length s"
proof -
  assume m: "match_csi s = Some r"
  then obtain e b t f where s: "s = e # b # t"
    and d: "dropWhile csi_inter (dropWhile csi_param t) = f # r"
    by (auto simp: match_csi_def split: list.splits if_splits)
  have "length (f # r) \<le> length t"
    using length_dropWhile_le [of csi_inter "dropWhile csi_param t"]
      length_dropWhile_le [of csi_param t] d by simp
  with s show ?thesis by simp
qed

text \<open>\<open>ansiRE.ReplaceAllString(s, "")\<close>.\<close>

function strip_csi :: "go_string \<Rightarrow> go_string" where
  "strip_csi s =
     (case s of
        [] \<Rightarrow> []
      | c # cs \<Rightarrow> (case match_csi s of Some r \<Rightarrow> strip_csi r | None \<Rightarrow> c # strip_csi cs))"
  by pat_completeness auto
termination
  by (relation "measure length") (auto dest: match_csi_shorter)

declare strip_csi.simps [simp del]

definition StripANSI :: "go_string \<Rightarrow> go_string" where
  "StripANSI s = filter (\<lambda>c. c \<noteq> CR) (strip_csi s)"

lemma strip_csi_Nil [simp]: "strip_csi [] = []"
  by (simp add: strip_csi.simps)

lemma strip_csi_match: "match_csi s = Some r \<Longrightarrow> strip_csi s = strip_csi r"
  by (cases s) (simp add: match_csi_def, simp add: strip_csi.simps [of "_ # _"])

lemma strip_csi_skip: "match_csi (c # s) = None \<Longrightarrow> strip_csi (c # s) = c # strip_csi s"
  by (subst strip_csi.simps) simp

lemma match_csi_not_ESC: "c \<noteq> ESC \<Longrightarrow> match_csi (c # s) = None"
  by (simp add: match_csi_def split: list.splits)

lemma strip_csi_plain: "ESC \<notin> set u \<Longrightarrow> strip_csi (u @ s) = u @ strip_csi s"
  by (induction u) (auto simp: strip_csi_skip match_csi_not_ESC)

lemma dropWhile_all_stop:
  "\<forall>x \<in> set xs. P x \<Longrightarrow> \<not> P y \<Longrightarrow> dropWhile P (xs @ y # ys) = y # ys"
  by (induction xs) auto

lemma csi_classes_disjoint:
  "csi_inter c \<Longrightarrow> \<not> csi_param c" "csi_final c \<Longrightarrow> \<not> csi_param c" "csi_final c \<Longrightarrow> \<not> csi_inter c"
  by (auto simp: csi_param_def csi_inter_def csi_final_def Let_def)

text \<open>A whole control sequence: parameters, intermediates, one final byte.\<close>

definition csi_seq :: "go_string \<Rightarrow> go_string \<Rightarrow> char \<Rightarrow> go_string" where
  "csi_seq ps is f = [ESC, CHR ''[''] @ ps @ is @ [f]"

definition csi_ok :: "go_string \<Rightarrow> go_string \<Rightarrow> char \<Rightarrow> bool" where
  "csi_ok ps is f = (list_all csi_param ps \<and> list_all csi_inter is \<and> csi_final f)"

lemma match_csi_seq:
  assumes "csi_ok ps is f"
  shows "match_csi (csi_seq ps is f @ s) = Some s"
proof -
  have *: "list_all csi_param ps" "list_all csi_inter is" "csi_final f"
    using assms by (auto simp: csi_ok_def)
  have "dropWhile csi_param (ps @ is @ f # s) = is @ f # s"
    using * by (cases "is")
      (auto simp: dropWhile_all_stop list_all_iff dest: csi_classes_disjoint)
  moreover have "dropWhile csi_inter (is @ f # s) = f # s"
    using * by (auto simp: dropWhile_all_stop list_all_iff dest: csi_classes_disjoint)
  ultimately show ?thesis
    using * by (simp add: match_csi_def csi_seq_def)
qed

section \<open>The ring buffer\<close>

record line =
  line_Seq :: int
  line_Text :: go_string

record chan =
  chan_cap :: nat
  chan_buf :: "line list"
  chan_closed :: bool

record buffer =
  lines :: "line list"
  capacity :: nat
  nextSeq :: int
  closed :: bool
  subs :: "nat list"
  chans :: "(nat, chan) gomap"
  next_chan :: nat

definition logbuf_New :: "int \<Rightarrow> buffer" where
  "logbuf_New cap =
     \<lparr>lines = [], capacity = (if cap \<le> 0 then 5000 else nat cap), nextSeq = 0,
      closed = False, subs = [], chans = [], next_chan = 0\<rparr>"

text \<open>
  \<open>Append\<close> has two phases: the part under the lock, which stores the line and takes a
  snapshot of the subscribers, and the sends after the lock is released.
\<close>

definition append_locked :: "go_string \<Rightarrow> buffer \<Rightarrow> buffer \<times> (line \<times> nat list) option" where
  "append_locked text b =
     (if closed b then (b, None)
      else
        let ln = \<lparr>line_Seq = nextSeq b, line_Text = StripANSI text\<rparr>;
            ls = lines b;
            ls' = (if length ls = capacity b
                   then (drop 1 ls @ drop (length ls - 1) ls)[length ls - 1 := ln]
                   else ls @ [ln])
        in (b\<lparr>nextSeq := nextSeq b + 1, lines := ls'\<rparr>, Some (ln, subs b)))"

text \<open>The non-blocking send: a full channel drops the line, a closed one panics.\<close>

definition try_send :: "line \<Rightarrow> chan \<Rightarrow> chan option" where
  "try_send ln ch =
     (if chan_closed ch then None
      else if length (chan_buf ch) < chan_cap ch
      then Some (ch\<lparr>chan_buf := chan_buf ch @ [ln]\<rparr>)
      else Some ch)"

fun deliver :: "line \<Rightarrow> nat list \<Rightarrow> buffer \<Rightarrow> buffer option" where
  "deliver ln [] b = Some b"
| "deliver ln (c # cs) b =
     (case map_of (chans b) c of
        None \<Rightarrow> deliver ln cs b
      | Some ch \<Rightarrow>
          (case try_send ln ch of
             None \<Rightarrow> None
           | Some ch' \<Rightarrow> deliver ln cs (b\<lparr>chans := AList.update c ch' (chans b)\<rparr>)))"

definition Append :: "go_string \<Rightarrow> buffer \<Rightarrow> buffer option" where
  "Append text b =
     (case append_locked text b of
        (b', None) \<Rightarrow> Some b'
      | (b', Some (ln, cs)) \<Rightarrow> deliver ln cs b')"

fun since_loop :: "int \<Rightarrow> int \<Rightarrow> line list \<Rightarrow> line list \<Rightarrow> line list" where
  "since_loop from limit out [] = out"
| "since_loop from limit out (ln # ls) =
     (if line_Seq ln < from then since_loop from limit out ls
      else
        let out' = out @ [ln]
        in if limit > 0 \<and> int (length out') = limit then out'
           else since_loop from limit out' ls)"

definition Since :: "int \<Rightarrow> int \<Rightarrow> buffer \<Rightarrow> line list \<times> int" where
  "Since from limit b =
     (let out = since_loop from limit [] (lines b);
          nxt = (if out \<noteq> [] then line_Seq (last out) + 1
                 else if from > nextSeq b then nextSeq b else from)
      in (out, nxt))"

definition NextSeq :: "buffer \<Rightarrow> int" where
  "NextSeq b = nextSeq b"

text \<open>Closing a channel twice panics.\<close>

definition close_chan :: "nat \<Rightarrow> buffer \<Rightarrow> buffer option" where
  "close_chan c b =
     (case map_of (chans b) c of
        None \<Rightarrow> Some b
      | Some ch \<Rightarrow>
          if chan_closed ch then None
          else Some (b\<lparr>chans := AList.update c (ch\<lparr>chan_closed := True\<rparr>) (chans b)\<rparr>))"

fun close_all :: "nat list \<Rightarrow> buffer \<Rightarrow> buffer option" where
  "close_all [] b = Some b"
| "close_all (c # cs) b =
     Option.bind (close_chan c (b\<lparr>subs := removeAll c (subs b)\<rparr>)) (close_all cs)"

definition Subscribe :: "int \<Rightarrow> buffer \<Rightarrow> nat \<times> buffer" where
  "Subscribe bufferSize b =
     (let size = (if bufferSize \<le> 0 then 256 else nat bufferSize);
          c = next_chan b;
          ch = \<lparr>chan_cap = size, chan_buf = [], chan_closed = False\<rparr>;
          b' = b\<lparr>next_chan := Suc c\<rparr>
      in if closed b
         then (c, b'\<lparr>chans := AList.update c (ch\<lparr>chan_closed := True\<rparr>) (chans b)\<rparr>)
         else (c, b'\<lparr>chans := AList.update c ch (chans b), subs := c # subs b\<rparr>))"

text \<open>The cancel function that \<open>Subscribe\<close> returns.\<close>

definition unsubscribe :: "nat \<Rightarrow> buffer \<Rightarrow> buffer option" where
  "unsubscribe c b =
     (if c \<in> set (subs b) then close_chan c (b\<lparr>subs := removeAll c (subs b)\<rparr>) else Some b)"

definition Close :: "buffer \<Rightarrow> buffer option" where
  "Close b = (if closed b then Some b else close_all (subs b) (b\<lparr>closed := True\<rparr>))"

section \<open>Invariants\<close>

text \<open>The channels a buffer still sends to exist, are open and hold at most their bound.\<close>

definition chans_ok :: "buffer \<Rightarrow> bool" where
  "chans_ok b \<longleftrightarrow>
     distinct (subs b) \<and>
     (\<forall>c \<in> set (subs b). \<exists>ch. map_of (chans b) c = Some ch \<and> \<not> chan_closed ch) \<and>
     (\<forall>c ch. map_of (chans b) c = Some ch \<longrightarrow> c < next_chan b \<and> length (chan_buf ch) \<le> chan_cap ch) \<and>
     (closed b \<longrightarrow> subs b = [])"

text \<open>
  \<open>holds b h\<close>: the buffer stands for the lines \<open>h\<close>, numbered from zero, of which it retains
  the last \<open>capacity\<close> ones.
\<close>

definition number :: "go_string list \<Rightarrow> line list" where
  "number h = map (\<lambda>i. \<lparr>line_Seq = int i, line_Text = h ! i\<rparr>) [0..<length h]"

definition holds :: "buffer \<Rightarrow> go_string list \<Rightarrow> bool" where
  "holds b h \<longleftrightarrow>
     0 < capacity b \<and> nextSeq b = int (length h) \<and>
     lines b = drop (length h - capacity b) (number h)"

lemma length_number [simp]: "length (number h) = length h"
  by (simp add: number_def)

lemma number_nth [simp]:
  "i < length h \<Longrightarrow> number h ! i = \<lparr>line_Seq = int i, line_Text = h ! i\<rparr>"
  by (simp add: number_def)

lemma number_snoc:
  "number (h @ [t]) = number h @ [\<lparr>line_Seq = int (length h), line_Text = t\<rparr>]"
  by (rule nth_equalityI) (auto simp: nth_append less_Suc_eq)

lemma number_append: "take (length h) (number (h @ k)) = number h"
  by (rule nth_equalityI) (auto simp: nth_append)

lemma number_extend_segment:
  "i + n \<le> length h \<Longrightarrow> take n (drop i (number (h @ k))) = take n (drop i (number h))"
  by (rule nth_equalityI) (auto simp: nth_append)

lemma chans_ok_New: "chans_ok (logbuf_New cap)"
  by (simp add: chans_ok_def logbuf_New_def)

lemma holds_New: "holds (logbuf_New cap) []"
  by (simp add: holds_def logbuf_New_def number_def)

lemma copy_shift:
  assumes "length ls = n" "0 < n"
  shows "(drop (Suc 0) ls @ drop (n - Suc 0) ls)[n - Suc 0 := x] = tl ls @ [x]"
proof -
  have "ls \<noteq> []" using assms by auto
  then have "drop (n - Suc 0) ls = [last ls]"
    using assms(1) by (metis append_butlast_last_id append_eq_conv_conj length_butlast One_nat_def)
  with assms show ?thesis
    by (simp add: drop_Suc list_update_append)
qed

lemma append_locked_holds:
  assumes "holds b h" "\<not> closed b"
  shows "holds (fst (append_locked text b)) (h @ [StripANSI text])"
proof -
  let ?c = "capacity b"
  have c: "0 < ?c" and ls: "lines b = drop (length h - ?c) (number h)"
    and nx: "nextSeq b = int (length h)"
    using assms by (auto simp: holds_def)
  show ?thesis
  proof (cases "length (lines b) = ?c")
    case True
    with ls have le: "?c \<le> length h" by simp
    have "tl (lines b) = drop (Suc (length h) - ?c) (number h)"
      using le by (simp add: ls Suc_diff_le drop_Suc drop_tl)
    then show ?thesis
      using True le c nx assms(2)
      by (simp add: append_locked_def holds_def Let_def copy_shift number_snoc Suc_diff_le)
  next
    case False
    with ls have "length h < ?c" using c by (cases "length h < ?c") auto
    with False c nx ls assms(2) show ?thesis
      by (simp add: append_locked_def holds_def Let_def number_snoc)
  qed
qed

lemma append_locked_chans [simp]:
  "chans (fst (append_locked t b)) = chans b" "subs (fst (append_locked t b)) = subs b"
  "next_chan (fst (append_locked t b)) = next_chan b" "closed (fst (append_locked t b)) = closed b"
  "capacity (fst (append_locked t b)) = capacity b"
  by (auto simp: append_locked_def Let_def)

lemma append_locked_open:
  "\<not> closed b \<Longrightarrow> \<exists>ln. append_locked t b = (fst (append_locked t b), Some (ln, subs b))"
  by (auto simp: append_locked_def Let_def)

lemma append_locked_closed: "closed b \<Longrightarrow> append_locked t b = (b, None)"
  by (simp add: append_locked_def)

lemma deliver_frame:
  "deliver ln cs b = Some b' \<Longrightarrow> \<exists>m. b' = b\<lparr>chans := m\<rparr>"
proof (induction ln cs b rule: deliver.induct)
  case (1 ln b)
  then have "b' = b\<lparr>chans := chans b\<rparr>" by simp
  then show ?case ..
next
  case (2 ln c cs b)
  show ?case
  proof (cases "map_of (chans b) c")
    case None
    with 2 show ?thesis by simp
  next
    case (Some ch)
    with 2(3) obtain ch' where "try_send ln ch = Some ch'"
      "deliver ln cs (b\<lparr>chans := AList.update c ch' (chans b)\<rparr>) = Some b'"
      by (auto split: option.splits)
    with Some 2(2) show ?thesis by fastforce
  qed
qed

text \<open>A buffer's lines and its channels are independent.\<close>

lemma holds_chans [simp]: "holds (b\<lparr>chans := m\<rparr>) h = holds b h"
  by (simp add: holds_def)

lemma holds_subs [simp]: "holds (b\<lparr>subs := m\<rparr>) h = holds b h"
  by (simp add: holds_def)

lemma holds_closed [simp]: "holds (b\<lparr>closed := c\<rparr>) h = holds b h"
  by (simp add: holds_def)

lemma try_send_open:
  assumes "\<not> chan_closed ch"
  obtains ch' where "try_send ln ch = Some ch'" "\<not> chan_closed ch'"
    "length (chan_buf ch) \<le> chan_cap ch \<Longrightarrow> length (chan_buf ch') \<le> chan_cap ch'"
  using assms that by (cases "length (chan_buf ch) < chan_cap ch") (auto simp: try_send_def)

lemma chans_ok_update:
  "chans_ok b \<Longrightarrow> map_of (chans b) c = Some ch \<Longrightarrow> \<not> chan_closed ch' \<Longrightarrow>
     length (chan_buf ch') \<le> chan_cap ch' \<Longrightarrow>
     chans_ok (b\<lparr>chans := AList.update c ch' (chans b)\<rparr>)"
  by (auto simp: chans_ok_def go_maps)

text \<open>Sending to the current subscribers never panics.\<close>

lemma deliver_chans_ok:
  "chans_ok b \<Longrightarrow> set cs \<subseteq> set (subs b) \<Longrightarrow> \<exists>b'. deliver ln cs b = Some b' \<and> chans_ok b'"
proof (induction ln cs b rule: deliver.induct)
  case (2 ln c cs b)
  from 2(3,4) obtain ch where ch: "map_of (chans b) c = Some ch" "\<not> chan_closed ch"
    "length (chan_buf ch) \<le> chan_cap ch"
    by (auto simp: chans_ok_def)
  from try_send_open [OF ch(2)] obtain ch' where ch': "try_send ln ch = Some ch'"
    "\<not> chan_closed ch'" "length (chan_buf ch') \<le> chan_cap ch'"
    using ch(3) by metis
  have "chans_ok (b\<lparr>chans := AList.update c ch' (chans b)\<rparr>)"
    using 2(3) ch(1) ch'(2,3) by (rule chans_ok_update)
  with 2(2) [OF ch(1) ch'(1)] 2(4) ch(1) ch'(1) show ?case by simp
qed simp

lemma Append_open:
  assumes "chans_ok b" "holds b h" "\<not> closed b"
  shows "\<exists>b'. Append t b = Some b' \<and> chans_ok b' \<and> holds b' (h @ [StripANSI t]) \<and>
           closed b' = closed b \<and> capacity b' = capacity b"
proof -
  let ?b = "fst (append_locked t b)"
  obtain ln where a: "append_locked t b = (?b, Some (ln, subs b))"
    using append_locked_open [OF assms(3)] by blast
  have "chans_ok ?b" using assms(1) by (simp add: chans_ok_def)
  then obtain b' where b': "deliver ln (subs b) ?b = Some b'" "chans_ok b'"
    using deliver_chans_ok [of ?b "subs b" ln] by auto
  obtain m where "b' = ?b\<lparr>chans := m\<rparr>" using deliver_frame [OF b'(1)] ..
  then have "holds b' (h @ [StripANSI t])" "closed b' = closed b" "capacity b' = capacity b"
    using append_locked_holds [OF assms(2,3)] by simp_all
  moreover have "Append t b = Some b'"
    unfolding Append_def by (subst a) (simp add: b')
  ultimately show ?thesis using b' by blast
qed

lemma Append_closed: "closed b \<Longrightarrow> Append t b = Some b"
  by (simp add: Append_def append_locked_def)

section \<open>Since\<close>

definition clip :: "int \<Rightarrow> 'a list \<Rightarrow> 'a list" where
  "clip limit xs = (if limit > 0 then take (nat limit) xs else xs)"

lemma clip_shorter: "length (clip limit xs) \<le> length xs"
  by (simp add: clip_def)

lemma clip_take: "clip limit xs = take (length (clip limit xs)) xs"
  by (auto simp: clip_def min_def)

lemma since_loop_eq:
  "limit \<le> 0 \<or> int (length out) < limit \<Longrightarrow>
   since_loop from limit out ls = clip limit (out @ filter (\<lambda>l. from \<le> line_Seq l) ls)"
proof (induction "from" limit out ls rule: since_loop.induct)
  case (1 "from" limit out)
  then show ?case by (auto simp: clip_def)
next
  case (2 "from" limit out ln ls)
  show ?case
  proof (cases "line_Seq ln < from \<or> \<not> (limit > 0 \<and> int (length (out @ [ln])) = limit)")
    case True
    then show ?thesis using 2 by (auto simp: Let_def)
  next
    case False
    then have "nat limit = Suc (length out)" by auto
    with False show ?thesis by (auto simp: clip_def)
  qed
qed

lemma filter_upt_ge: "filter (\<lambda>i. a \<le> int i) [d..<n] = [max d (nat a)..<n]"
proof (induction n)
  case (Suc n)
  then show ?case by (cases "d \<le> n") (auto simp: max_def)
qed simp

lemma number_drop: "drop d (number h) = map (\<lambda>i. \<lparr>line_Seq = int i, line_Text = h ! i\<rparr>) [d..<length h]"
  by (simp add: number_def drop_map drop_upt)

lemma filter_number_drop:
  "filter (\<lambda>l. a \<le> line_Seq l) (drop d (number h)) = drop (max d (nat a)) (number h)"
  by (simp add: number_drop filter_map o_def filter_upt_ge)

lemma last_number_segment:
  "0 < n \<Longrightarrow> i + n \<le> length h \<Longrightarrow>
     line_Seq (last (take n (drop i (number h)))) = int (i + n) - 1"
proof -
  assume n: "0 < n" "i + n \<le> length h"
  then have "last (take n (drop i (number h))) = number h ! (i + n - 1)"
    by (subst last_conv_nth) (auto simp: nth_append intro: arg_cong [where f = "nth (number h)"])
  with n show ?thesis by simp
qed

text \<open>The oldest sequence number the buffer still has.\<close>

definition oldest :: "buffer \<Rightarrow> int" where
  "oldest b = nextSeq b - int (length (lines b))"

lemma oldest_holds: "holds b h \<Longrightarrow> oldest b = int (length h - capacity b)"
  by (simp add: holds_def oldest_def)

lemma Since_holds:
  assumes h: "holds b h" and "from": "0 \<le> from" "from \<le> int (length h)"
  shows "Since from limit b =
    (let i = max (length h - capacity b) (nat from); out = clip limit (drop i (number h))
     in (out, if out = [] then from else int i + int (length out)))"
proof -
  let ?i = "max (length h - capacity b) (nat from)"
  let ?out = "clip limit (drop ?i (number h))"
  have out: "since_loop from limit [] (lines b) = ?out"
    using h by (subst since_loop_eq) (auto simp: holds_def filter_number_drop)
  have nx: "nextSeq b = int (length h)" using h by (simp add: holds_def)
  have "line_Seq (last ?out) = int ?i + int (length ?out) - 1" if "?out \<noteq> []"
  proof -
    have "?out = take (length ?out) (drop ?i (number h))" by (rule clip_take)
    moreover have "0 < length ?out" using that by simp
    moreover have "?i \<le> length h" using "from" by auto
    then have "?i + length ?out \<le> length h"
      using clip_shorter [of limit "drop ?i (number h)"] unfolding length_drop length_number by linarith
    ultimately show ?thesis
      using last_number_segment [of "length ?out" ?i h] by (metis of_nat_add)
  qed
  with out nx "from" show ?thesis by (auto simp: Since_def Let_def)
qed

section \<open>What a polling client relies on\<close>

text \<open>
  A client of the log: between two polls some lines are written; each poll asks for the lines
  from the number that the previous poll returned. \<open>kept_up\<close> says that no poll comes after
  the line it asks for was evicted.
\<close>

fun write_all :: "(go_string \<Rightarrow> 'b \<Rightarrow> 'b option) \<Rightarrow> go_string list \<Rightarrow> 'b \<Rightarrow> 'b option" where
  "write_all wr [] b = Some b"
| "write_all wr (t # ts) b = Option.bind (wr t b) (write_all wr ts)"

fun poll_rounds ::
  "(go_string \<Rightarrow> 'b \<Rightarrow> 'b option) \<Rightarrow> (int \<Rightarrow> int \<Rightarrow> 'b \<Rightarrow> line list \<times> int) \<Rightarrow>
   (go_string list \<times> int) list \<Rightarrow> int \<Rightarrow> 'b \<Rightarrow> (line list \<times> int \<times> 'b) option" where
  "poll_rounds wr rd [] from b = Some ([], from, b)"
| "poll_rounds wr rd ((ts, limit) # rs) from b =
     (case write_all wr ts b of
        None \<Rightarrow> None
      | Some b1 \<Rightarrow>
          (case poll_rounds wr rd rs (snd (rd from limit b1)) b1 of
             None \<Rightarrow> None
           | Some (out, nxt, b2) \<Rightarrow> Some (fst (rd from limit b1) @ out, nxt, b2)))"

fun kept_up ::
  "(go_string \<Rightarrow> 'b \<Rightarrow> 'b option) \<Rightarrow> (int \<Rightarrow> int \<Rightarrow> 'b \<Rightarrow> line list \<times> int) \<Rightarrow> ('b \<Rightarrow> int) \<Rightarrow>
   (go_string list \<times> int) list \<Rightarrow> int \<Rightarrow> 'b \<Rightarrow> bool" where
  "kept_up wr rd old [] from b = True"
| "kept_up wr rd old ((ts, limit) # rs) from b =
     (case write_all wr ts b of
        None \<Rightarrow> True
      | Some b1 \<Rightarrow> old b1 \<le> from \<and> kept_up wr rd old rs (snd (rd from limit b1)) b1)"

definition segment :: "nat \<Rightarrow> nat \<Rightarrow> go_string list \<Rightarrow> line list" where
  "segment i j h = take (j - i) (drop i (number h))"

lemma segment_append:
  "i \<le> j \<Longrightarrow> j \<le> k \<Longrightarrow> segment i j h @ segment j k h = segment i k h"
proof -
  assume "i \<le> j" "j \<le> k"
  then have "(j - i) + (k - j) = k - i" "j = i + (j - i)" by auto
  then show ?thesis
    unfolding segment_def by (metis add.commute drop_drop take_add)
qed

lemma segment_extend: "j \<le> length h \<Longrightarrow> i \<le> j \<Longrightarrow> segment i j (h @ k) = segment i j h"
  by (simp add: segment_def number_extend_segment)

locale tail_log =
  fixes rep :: "'b \<Rightarrow> go_string list \<Rightarrow> bool"
    and wr :: "go_string \<Rightarrow> 'b \<Rightarrow> 'b option"
    and rd :: "int \<Rightarrow> int \<Rightarrow> 'b \<Rightarrow> line list \<times> int"
    and old :: "'b \<Rightarrow> int"
    and norm :: "go_string \<Rightarrow> go_string"
  assumes wr_rep: "rep b h \<Longrightarrow> \<exists>b'. wr t b = Some b' \<and> rep b' (h @ [norm t])"
    and rd_rep: "rep b h \<Longrightarrow> old b \<le> int i \<Longrightarrow> i \<le> length h \<Longrightarrow>
      \<exists>j. i \<le> j \<and> j \<le> length h \<and> rd (int i) limit b = (segment i j h, int j) \<and>
          (limit \<le> 0 \<longrightarrow> j = length h) \<and> (0 < limit \<longrightarrow> j = min (length h) (i + nat limit))"
begin

lemma write_all_rep:
  "rep b h \<Longrightarrow> \<exists>b'. write_all wr ts b = Some b' \<and> rep b' (h @ List.map norm ts)"
proof (induction ts arbitrary: b h)
  case (Cons t ts)
  obtain b1 where b1: "wr t b = Some b1" "rep b1 (h @ [norm t])"
    using wr_rep [OF Cons.prems] by blast
  from Cons.IH [OF b1(2)] b1(1) show ?case by auto
qed simp

text \<open>
  Polling loses nothing and repeats nothing: what the client has read is a contiguous segment
  that starts where it started and ends where it will go on.
\<close>

lemma poll_session:
  "rep b h \<Longrightarrow> i \<le> length h \<Longrightarrow> kept_up wr rd old rs (int i) b \<Longrightarrow>
   \<exists>j b'. poll_rounds wr rd rs (int i) b =
            Some (segment i j (h @ List.map norm (concat (List.map fst rs))), int j, b') \<and>
          i \<le> j \<and> j \<le> length h + length (concat (List.map fst rs)) \<and>
          rep b' (h @ List.map norm (concat (List.map fst rs)))"
proof (induction rs arbitrary: b h i)
  case Nil
  then show ?case by (intro exI [of _ i] exI [of _ b]) (simp add: segment_def)
next
  case (Cons r rs)
  obtain ts limit where r: "r = (ts, limit)" by (cases r)
  let ?h = "h @ List.map norm ts"
  obtain b1 where b1: "write_all wr ts b = Some b1" "rep b1 ?h"
    using write_all_rep [OF Cons.prems(1)] by blast
  have k: "old b1 \<le> int i" "kept_up wr rd old rs (snd (rd (int i) limit b1)) b1"
    using Cons.prems(3) by (simp_all add: r b1(1))
  have il: "i \<le> length ?h" using Cons.prems(2) by simp
  from rd_rep [OF b1(2) k(1) il]
  obtain j where j: "i \<le> j" "j \<le> length ?h" "rd (int i) limit b1 = (segment i j ?h, int j)"
    by blast
  let ?rest = "List.map norm (concat (List.map fst rs))"
  from Cons.IH [OF b1(2) j(2)] k(2) j(3)
  obtain n b' where n: "poll_rounds wr rd rs (int j) b1 = Some (segment j n (?h @ ?rest), int n, b')"
    "j \<le> n" "n \<le> length ?h + length (concat (List.map fst rs))" "rep b' (?h @ ?rest)"
    by auto
  have "segment i j ?h = segment i j (?h @ ?rest)"
    by (rule segment_extend [OF j(2,1), symmetric])
  then have "segment i j ?h @ segment j n (?h @ ?rest) = segment i n (?h @ ?rest)"
    by (simp only: segment_append [OF j(1) n(2)])
  with n j b1(1) show ?case
    by (intro exI [of _ n] exI [of _ b']) (simp add: r)
qed

end

definition open_buffer :: "buffer \<Rightarrow> go_string list \<Rightarrow> bool" where
  "open_buffer b h \<longleftrightarrow> holds b h \<and> chans_ok b \<and> \<not> closed b"

lemma Since_segment:
  assumes "holds b h" "oldest b \<le> int i" "i \<le> length h"
  shows "\<exists>j. i \<le> j \<and> j \<le> length h \<and> Since (int i) limit b = (segment i j h, int j) \<and>
    (limit \<le> 0 \<longrightarrow> j = length h) \<and> (0 < limit \<longrightarrow> j = min (length h) (i + nat limit))"
proof -
  have m: "max (length h - capacity b) (nat (int i)) = i"
    using assms by (simp add: oldest_holds)
  let ?j = "if 0 < limit then min (length h) (i + nat limit) else length h"
  have "clip limit (drop i (number h)) = segment i ?j h"
    using assms(3) by (auto simp: clip_def segment_def min_def)
  moreover have "length (segment i ?j h) = ?j - i"
    using assms(3) by (auto simp: segment_def)
  moreover have "segment i ?j h = [] \<Longrightarrow> ?j = i"
    using assms(3) by (auto simp: segment_def split: if_splits)
  ultimately have "Since (int i) limit b = (segment i ?j h, int ?j)"
    using Since_holds [of b h "int i" limit, OF assms(1)] assms(3) m
    by (auto simp: Let_def)
  then show ?thesis
    using assms(3) by (intro exI [of _ ?j]) auto
qed

interpretation ring: tail_log open_buffer Append Since oldest StripANSI
proof
  fix b h t
  assume "open_buffer b h"
  then show "\<exists>b'. Append t b = Some b' \<and> open_buffer b' (h @ [StripANSI t])"
    using Append_open [of b h t] by (auto simp: open_buffer_def)
next
  fix b h i limit
  assume "open_buffer b h" "oldest b \<le> int i" "i \<le> length h"
  then show "\<exists>j\<ge>i. j \<le> length h \<and> Since (int i) limit b = (segment i j h, int j) \<and>
    (limit \<le> 0 \<longrightarrow> j = length h) \<and> (0 < limit \<longrightarrow> j = min (length h) (i + nat limit))"
    using Since_segment by (auto simp: open_buffer_def)
qed

section \<open>Closing\<close>

lemma close_all_open:
  "distinct cs \<Longrightarrow> \<forall>c \<in> set cs. \<exists>ch. map_of (chans b) c = Some ch \<and> \<not> chan_closed ch \<Longrightarrow>
   \<exists>m. close_all cs b = Some (b\<lparr>chans := m, subs := filter (\<lambda>c. c \<notin> set cs) (subs b)\<rparr>) \<and>
       map_of m = (\<lambda>c. if c \<in> set cs
         then map_option (\<lambda>ch. ch\<lparr>chan_closed := True\<rparr>) (map_of (chans b) c)
         else map_of (chans b) c)"
proof (induction cs arbitrary: b)
  case Nil
  show ?case by (intro exI [of _ "chans b"]) simp
next
  case (Cons c cs)
  from Cons.prems obtain ch where ch: "map_of (chans b) c = Some ch" "\<not> chan_closed ch"
    by auto
  let ?b = "b\<lparr>subs := removeAll c (subs b),
              chans := AList.update c (ch\<lparr>chan_closed := True\<rparr>) (chans b)\<rparr>"
  have "\<forall>d \<in> set cs. \<exists>ch. map_of (chans ?b) d = Some ch \<and> \<not> chan_closed ch"
    using Cons.prems by (auto simp: go_maps)
  from Cons.IH [OF _ this] Cons.prems(1) obtain m where
    m: "close_all cs ?b = Some (?b\<lparr>chans := m, subs := filter (\<lambda>c. c \<notin> set cs) (subs ?b)\<rparr>)"
    "map_of m = (\<lambda>c. if c \<in> set cs
         then map_option (\<lambda>ch. ch\<lparr>chan_closed := True\<rparr>) (map_of (chans ?b) c)
         else map_of (chans ?b) c)"
    by auto
  have "close_chan c (b\<lparr>subs := removeAll c (subs b)\<rparr>) = Some ?b"
    using ch by (simp add: close_chan_def)
  moreover have "filter (\<lambda>d. d \<notin> set cs) (removeAll c (subs b)) = filter (\<lambda>d. d \<notin> set (c # cs)) (subs b)"
    unfolding removeAll_filter_not_eq filter_filter by (rule filter_cong) auto
  ultimately have "close_all (c # cs) b =
      Some (b\<lparr>chans := m, subs := filter (\<lambda>d. d \<notin> set (c # cs)) (subs b)\<rparr>)"
    using m(1) by simp
  with m(2) ch Cons.prems(1) show ?case
    by (intro exI [of _ m]) (simp add: go_maps fun_eq_iff)
qed

lemma Close_result:
  assumes "chans_ok b" "\<not> closed b"
  shows "\<exists>m. Close b = Some (b\<lparr>closed := True, chans := m, subs := []\<rparr>) \<and>
    (\<forall>c \<in> set (subs b). \<exists>ch. map_of m c = Some ch \<and> chan_closed ch) \<and>
    (\<forall>c ch. map_of m c = Some ch \<longrightarrow> c < next_chan b \<and> length (chan_buf ch) \<le> chan_cap ch)"
proof -
  have d: "distinct (subs b)"
    and o: "\<forall>c \<in> set (subs b). \<exists>ch. map_of (chans (b\<lparr>closed := True\<rparr>)) c = Some ch \<and> \<not> chan_closed ch"
    and l: "\<forall>c ch. map_of (chans b) c = Some ch \<longrightarrow> c < next_chan b \<and> length (chan_buf ch) \<le> chan_cap ch"
    using assms(1) by (auto simp: chans_ok_def)
  from close_all_open [OF d o] obtain m where
    ca: "close_all (subs b) (b\<lparr>closed := True\<rparr>) = Some (b\<lparr>closed := True, chans := m,
      subs := filter (\<lambda>c. c \<notin> set (subs b)) (subs (b\<lparr>closed := True\<rparr>))\<rparr>)"
    and m': "map_of m = (\<lambda>c. if c \<in> set (subs b)
         then map_option (\<lambda>ch. ch\<lparr>chan_closed := True\<rparr>) (map_of (chans (b\<lparr>closed := True\<rparr>)) c)
         else map_of (chans (b\<lparr>closed := True\<rparr>)) c)"
    by blast
  have m: "map_of m c = (if c \<in> set (subs b)
         then map_option (\<lambda>ch. ch\<lparr>chan_closed := True\<rparr>) (map_of (chans b) c)
         else map_of (chans b) c)" for c
    by (simp add: m')
  have "Close b = Some (b\<lparr>closed := True, chans := m, subs := filter (\<lambda>c. c \<notin> set (subs b)) (subs b)\<rparr>)"
    using ca assms(2) by (simp add: Close_def)
  moreover have "filter (\<lambda>c. c \<notin> set (subs b)) (subs b) = []"
    by (simp add: filter_empty_conv)
  moreover have "\<forall>c \<in> set (subs b). \<exists>ch. map_of m c = Some ch \<and> chan_closed ch"
    using o by (force simp: m)
  moreover have "\<forall>c ch. map_of m c = Some ch \<longrightarrow>
      c < next_chan b \<and> length (chan_buf ch) \<le> chan_cap ch"
    using l by (auto simp: m split: if_splits)
  ultimately show ?thesis by auto
qed

lemma Close_ok:
  assumes "chans_ok b"
  shows "\<exists>b'. Close b = Some b' \<and> chans_ok b' \<and> closed b' \<and> lines b' = lines b \<and> nextSeq b' = nextSeq b"
proof (cases "closed b")
  case True
  with assms show ?thesis by (simp add: Close_def)
next
  case False
  from Close_result [OF assms this] show ?thesis by (auto simp: chans_ok_def)
qed

lemma Subscribe_ok:
  assumes "chans_ok b"
  shows "chans_ok (snd (Subscribe n b))"
  using assms by (auto simp: chans_ok_def Subscribe_def Let_def go_maps less_Suc_eq split: if_splits)

lemma deliver_closed:
  "c \<in> set cs \<Longrightarrow> \<forall>c \<in> set cs. \<exists>ch. map_of (chans b) c = Some ch \<and> chan_closed ch \<Longrightarrow>
   deliver ln cs b = None"
  by (cases cs) (auto simp: try_send_def)

section \<open>Properties\<close>

text \<open>
  C27. Resumable polling: from an open buffer that stands for the history \<open>h\<close>, any number of
  rounds of writing lines and then calling \<open>Since\<close> with the number returned last never panics;
  as long as no round asks for an evicted line, the concatenation of everything the client
  received is the contiguous segment of the history from its first number to the number it
  holds at the end: nothing is missed, repeated or reordered.
\<close>

theorem poll_lossless:
  assumes "open_buffer b h" "i \<le> length h" "kept_up Append Since oldest rs (int i) b"
  shows "\<exists>j b'. poll_rounds Append Since rs (int i) b =
      Some (segment i j (h @ map StripANSI (concat (map fst rs))), int j, b') \<and>
    i \<le> j \<and> j \<le> length h + length (concat (map fst rs)) \<and>
    open_buffer b' (h @ map StripANSI (concat (map fst rs)))"
  using assms by (rule ring.poll_session)

theorem poll_lossless_witness:
  "\<exists>j b'. poll_rounds Append Since [([''a'', ''b''], 1), ([''c''], 0)] 0 (logbuf_New 3) =
      Some (segment 0 j ([] @ map StripANSI (concat [[''a'', ''b''], [''c'']])), int j, b') \<and>
    0 \<le> j \<and> j \<le> 0 + length (concat [[''a'', ''b''], [''c'']]) \<and>
    open_buffer b' ([] @ map StripANSI (concat [[''a'', ''b''], [''c'']]))"
proof -
  let ?rs = "[([''a'', ''b''], 1), ([''c''], 0)] :: (go_string list \<times> int) list"
  have o: "open_buffer (logbuf_New 3) []"
    by (simp add: open_buffer_def holds_New chans_ok_New, simp add: logbuf_New_def)
  have k: "kept_up Append Since oldest ?rs (int 0) (logbuf_New 3)" by code_simp
  show ?thesis using poll_lossless [OF o _ k] by simp
qed

text \<open>
  The ring: appending to an open buffer never panics, keeps the capacity bound and the
  channel invariant, and leaves exactly the last \<open>capacity\<close> lines of the extended history,
  numbered consecutively; on a closed buffer it changes nothing.
\<close>

theorem append_keeps_last_lines:
  assumes "chans_ok b" "holds b h"
  shows "\<exists>b'. Append t b = Some b' \<and> chans_ok b' \<and> length (lines b') \<le> capacity b' \<and>
    capacity b' = capacity b \<and>
    holds b' (if closed b then h else h @ [StripANSI t])"
proof (cases "closed b")
  case True
  with assms show ?thesis by (auto simp: Append_closed holds_def)
next
  case False
  from Append_open [OF assms False, of t] False show ?thesis by (auto simp: holds_def)
qed

theorem append_keeps_last_lines_witness:
  "\<exists>b'. Append ''x'' (logbuf_New 1) = Some b' \<and> chans_ok b' \<and> length (lines b') \<le> capacity b' \<and>
    capacity b' = capacity (logbuf_New 1) \<and>
    holds b' (if closed (logbuf_New 1) then [] else [] @ [StripANSI ''x''])"
  by (rule append_keeps_last_lines [OF chans_ok_New holds_New])

text \<open>
  A client that has fallen behind: asking for a number whose line was evicted gives the
  retained lines from the oldest one on (at most \<open>limit\<close> of them when it is positive), and the
  number to go on from, so the gap shows as a jump in the numbers and nothing after it is lost.
\<close>

theorem since_after_eviction:
  assumes "holds b h" "0 \<le> from" "from < oldest b"
  shows "Since from limit b =
    (clip limit (lines b), oldest b + int (length (clip limit (lines b))))"
proof -
  have o: "oldest b = int (length h - capacity b)" by (rule oldest_holds [OF assms(1)])
  then have m: "max (length h - capacity b) (nat from) = length h - capacity b"
    and f: "from \<le> int (length h)"
    using assms(3) by auto
  have ls: "lines b = drop (length h - capacity b) (number h)" and c: "0 < capacity b"
    using assms(1) by (auto simp: holds_def)
  have "lines b \<noteq> []" using ls c o assms(2,3) by auto
  then have "clip limit (lines b) \<noteq> []" by (simp add: clip_def)
  then show ?thesis
    using Since_holds [OF assms(1,2) f, of limit] by (simp add: m ls o Let_def)
qed

theorem since_after_eviction_witness:
  "Since 0 0 \<lparr>lines = drop 1 (number [''a'', ''b'']), capacity = 1, nextSeq = 2, closed = False,
      subs = [], chans = [], next_chan = 0\<rparr> = (drop 1 (number [''a'', ''b'']), 2)"
  using since_after_eviction [of "\<lparr>lines = drop 1 (number [''a'', ''b'']), capacity = 1, nextSeq = 2,
      closed = False, subs = [], chans = [], next_chan = 0\<rparr>" "[''a'', ''b'']" 0 0]
  by (simp add: holds_def oldest_def clip_def)

text \<open>
  \<open>StripANSI\<close> removes a control sequence wherever it stands behind text without an escape
  byte, and keeps the rest of the line apart from carriage returns.
\<close>

theorem strip_ansi_removes_sequence:
  assumes "ESC \<notin> set u" "csi_ok ps is f"
  shows "StripANSI (u @ csi_seq ps is f @ v) = filter (\<lambda>c. c \<noteq> CR) u @ StripANSI v"
proof -
  have "strip_csi (csi_seq ps is f @ v) = strip_csi v"
    by (rule strip_csi_match [OF match_csi_seq [OF assms(2)]])
  with assms(1) show ?thesis by (simp add: StripANSI_def strip_csi_plain)
qed

theorem strip_ansi_removes_sequence_witness:
  "StripANSI (''ok'' @ csi_seq ''2'' [] CHR ''K'' @ ''!'') = filter (\<lambda>c. c \<noteq> CR) ''ok'' @ StripANSI ''!''"
  by (rule strip_ansi_removes_sequence)
    (simp_all add: ESC_def csi_ok_def csi_param_def csi_inter_def csi_final_def)

text \<open>
  Removing one sequence can join the bytes around it into another one, which stays: the
  result of \<open>StripANSI\<close> may still contain a control sequence, so it is not true that every one
  is stripped.
\<close>

theorem strip_ansi_leaves_sequence:
  "StripANSI ([ESC] @ csi_seq [] [] (CHR ''m'') @ ''[m'') = csi_seq [] [] (CHR ''m'') \<and>
   match_csi (csi_seq [] [] (CHR ''m'')) = Some []"
proof -
  have ok: "csi_ok [] [] (CHR ''m'')" by (simp add: csi_ok_def csi_final_def)
  let ?m = "csi_seq [] [] (CHR ''m'')"
  have "match_csi (ESC # ?m @ ''[m'') = None" by (simp add: match_csi_def csi_seq_def ESC_def)
  then have "strip_csi ([ESC] @ ?m @ ''[m'') = ESC # strip_csi (?m @ ''[m'')"
    by (simp add: strip_csi_skip)
  also have "strip_csi (?m @ ''[m'') = strip_csi ''[m''"
    by (rule strip_csi_match [OF match_csi_seq [OF ok]])
  also have "strip_csi ''[m'' = ''[m''"
    using strip_csi_plain [of "''[m''" "[]"] by (simp add: ESC_def)
  finally have "StripANSI ([ESC] @ ?m @ ''[m'') = ?m"
    by (simp add: StripANSI_def csi_seq_def ESC_def CR_def)
  then show ?thesis using match_csi_seq [OF ok, of "[]"] by simp
qed

text \<open>
  The sends of \<open>Append\<close> run after its lock is released, so a \<open>Close\<close> in between closes the
  channels of its snapshot and the send panics: for every open buffer with a subscriber, the
  interleaving of the two phases of \<open>Append\<close> with \<open>Close\<close> ends in a send on a closed channel.
\<close>

theorem append_close_race:
  assumes "chans_ok b" "\<not> closed b" "subs b \<noteq> []"
    and "append_locked t b = (b1, Some (ln, cs))" "Close b1 = Some b2"
  shows "deliver ln cs b2 = None"
proof -
  have b1: "b1 = fst (append_locked t b)" and cs: "cs = subs b"
    using assms(2,4) append_locked_open [of b t] by auto
  then have "chans_ok b1" "\<not> closed b1" "subs b1 = subs b"
    using assms(1,2) by (auto simp: chans_ok_def)
  with Close_result [of b1] assms(5)
  have "\<forall>c \<in> set cs. \<exists>ch. map_of (chans b2) c = Some ch \<and> chan_closed ch"
    by (auto simp: cs)
  moreover obtain c where "c \<in> set cs" using assms(3) cs by (cases "subs b") auto
  ultimately show ?thesis by (simp add: deliver_closed)
qed

theorem append_close_race_witness:
  "\<exists>b1 ln cs b2. append_locked ''x'' (snd (Subscribe 1 (logbuf_New 1))) = (b1, Some (ln, cs)) \<and>
     Close b1 = Some b2 \<and> deliver ln cs b2 = None"
proof -
  let ?b = "snd (Subscribe 1 (logbuf_New 1))"
  have ok: "chans_ok ?b" by (rule Subscribe_ok [OF chans_ok_New])
  have o: "\<not> closed ?b" "subs ?b \<noteq> []"
    by (simp_all add: Subscribe_def logbuf_New_def Let_def)
  obtain ln where a: "append_locked ''x'' ?b = (fst (append_locked ''x'' ?b), Some (ln, subs ?b))"
    using append_locked_open [OF o(1)] by blast
  have "chans_ok (fst (append_locked ''x'' ?b))" using ok by (simp add: chans_ok_def)
  then obtain b2 where c: "Close (fst (append_locked ''x'' ?b)) = Some b2"
    using Close_ok by blast
  from append_close_race [OF ok o a c] a c show ?thesis by blast
qed

end
