(* ===== verification/Strconv.thy ===== *)
theory Strconv
  imports Prelude "HOL-Library.Word"
begin

text \<open>
  Numbers as text: the functions of \<open>strconv\<close>, \<open>encoding/hex\<close> and of the verbs \<open>%d\<close> that the
  program uses, the zero-padded fields of a time layout, and 64-bit signed integers with their
  wrap-around. Go's \<open>int\<close> is 64 bits wide on the platforms the server runs on.
\<close>

section \<open>64-bit integers\<close>

definition in_int64 :: "int \<Rightarrow> bool" where
  "in_int64 n \<longleftrightarrow> - (2 ^ 63) \<le> n \<and> n < 2 ^ 63"

definition wrap64 :: "int \<Rightarrow> int" where
  "wrap64 n = (n + 2 ^ 63) mod 2 ^ 64 - 2 ^ 63"

lemma wrap64_in: "in_int64 n \<Longrightarrow> wrap64 n = n"
  by (simp add: wrap64_def in_int64_def)

lemma wrap64_range: "in_int64 (wrap64 n)"
  by (simp add: wrap64_def in_int64_def)

section \<open>Decimal digits\<close>

definition digit :: "nat \<Rightarrow> char" where
  "digit n = char_of (48 + n mod 10)"

definition is_digit :: "char \<Rightarrow> bool" where
  "is_digit c = (let n = of_char c :: nat in 48 \<le> n \<and> n \<le> 57)"

definition digit_val :: "char \<Rightarrow> nat" where
  "digit_val c = of_char c - 48"

fun dec :: "nat \<Rightarrow> go_string" where
  "dec n = (if n < 10 then [digit n] else dec (n div 10) @ [digit n])"

declare dec.simps [simp del]

definition itoa :: "int \<Rightarrow> go_string" where
  "itoa n = (if n < 0 then CHR ''-'' # dec (nat (- n)) else dec (nat n))"

fun digits_val :: "nat \<Rightarrow> go_string \<Rightarrow> nat option" where
  "digits_val acc [] = Some acc"
| "digits_val acc (c # cs) = (if is_digit c then digits_val (10 * acc + digit_val c) cs else None)"

text \<open>\<open>strconv.ParseInt(s, 10, 64)\<close> and \<open>strconv.Atoi\<close>; \<open>None\<close> is the error.\<close>

definition parse_int64 :: "go_string \<Rightarrow> int option" where
  "parse_int64 s =
     (let neg = (take 1 s = ''-'');
          ds = (if take 1 s = ''-'' \<or> take 1 s = ''+'' then drop 1 s else s)
      in if ds = [] then None
         else case digits_val 0 ds of
             None \<Rightarrow> None
           | Some n \<Rightarrow> let v = (if neg then - int n else int n) in if in_int64 v then Some v else None)"

lemma of_char_digit: "(of_char (digit n) :: nat) = 48 + n mod 10"
proof -
  have "(48 + n mod 10) mod 256 = 48 + n mod 10" by simp
  then show ?thesis by (simp add: digit_def)
qed

lemma digit_facts [simp]: "is_digit (digit n)" "digit_val (digit n) = n mod 10"
  by (simp_all add: is_digit_def digit_val_def of_char_digit Let_def)

lemma digit_not_sign [simp]: "digit n \<noteq> CHR ''-''" "digit n \<noteq> CHR ''+''"
  by (auto dest: arg_cong [where f = "of_char :: char \<Rightarrow> nat"] simp: of_char_digit)

lemma digit_eq_iff: "digit m = digit n \<longleftrightarrow> m mod 10 = n mod 10"
  using digit_facts(2) by (metis digit_def)

lemma digits_val_append:
  "digits_val acc (xs @ ys) = Option.bind (digits_val acc xs) (\<lambda>a. digits_val a ys)"
  by (induction acc xs rule: digits_val.induct) auto

lemma digits_val_dec: "\<exists>k. \<forall>acc. digits_val acc (dec n) = Some (acc * 10 ^ k + n)"
proof (induction n rule: dec.induct)
  case (1 n)
  show ?case
  proof (cases "n < 10")
    case True
    then show ?thesis by (intro exI [of _ 1]) (simp add: dec.simps [of n])
  next
    case False
    with 1 obtain k where "\<forall>acc. digits_val acc (dec (n div 10)) = Some (acc * 10 ^ k + n div 10)"
      by auto
    with False show ?thesis
      by (intro exI [of _ "Suc k"]) (simp add: dec.simps [of n] digits_val_append algebra_simps)
  qed
qed

lemma digits_val_dec0: "digits_val 0 (dec n) = Some n"
  using digits_val_dec [of n] by auto

lemma dec_not_Nil [simp]: "dec n \<noteq> []"
  by (simp add: dec.simps [of n])

lemma dec_digits: "c \<in> set (dec n) \<Longrightarrow> is_digit c"
  by (induction n rule: dec.induct) (subst (asm) (2) dec.simps, auto split: if_splits)

lemma dec_no_sign: "take 1 (dec n) \<noteq> ''-''" "take 1 (dec n) \<noteq> ''+''"
proof -
  obtain c cs where c: "dec n = c # cs" by (cases "dec n") auto
  then have "is_digit c" by (auto intro: dec_digits [of c n])
  then have "c \<noteq> CHR ''-''" "c \<noteq> CHR ''+''" by (auto simp: is_digit_def)
  then show "take 1 (dec n) \<noteq> ''-''" "take 1 (dec n) \<noteq> ''+''" by (simp_all add: c)
qed

lemma parse_itoa:
  assumes "in_int64 n"
  shows "parse_int64 (itoa n) = Some n"
proof (cases "n < 0")
  case True
  then show ?thesis
    using assms by (simp add: itoa_def parse_int64_def digits_val_dec0)
next
  case False
  then show ?thesis
    using assms dec_no_sign [of "nat n"]
    by (simp add: itoa_def parse_int64_def digits_val_dec0 Let_def)
qed

lemma parse_int64_range: "parse_int64 s = Some n \<Longrightarrow> in_int64 n"
  by (auto simp: parse_int64_def Let_def split: if_splits option.splits)

lemma itoa_inject: "in_int64 m \<Longrightarrow> in_int64 n \<Longrightarrow> itoa m = itoa n \<longleftrightarrow> m = n"
  using parse_itoa by (metis option.inject)

section \<open>Fixed-width fields\<close>

definition pad2 :: "nat \<Rightarrow> go_string" where
  "pad2 n = [digit (n div 10), digit n]"

definition pad4 :: "nat \<Rightarrow> go_string" where
  "pad4 n = [digit (n div 1000), digit (n div 100), digit (n div 10), digit n]"

lemma length_pad [simp]: "length (pad2 n) = 2" "length (pad4 n) = 4"
  by (simp_all add: pad2_def pad4_def)

lemma digit_less: "m mod 10 < n mod 10 \<Longrightarrow> digit m < digit n"
  by (simp add: less_char_def of_char_digit)

lemma pad2_less:
  assumes "m < n" "n < 100"
  shows "pad2 m < pad2 n"
proof (cases "m div 10 = n div 10")
  case True
  have "m = 10 * (m div 10) + m mod 10" "n = 10 * (n div 10) + n mod 10" by simp_all
  with True assms(1) have "m mod 10 < n mod 10" by linarith
  with True show ?thesis by (simp add: pad2_def digit_less)
next
  case False
  have "m div 10 \<le> n div 10" using assms(1) by (simp add: div_le_mono)
  with False have "m div 10 < n div 10" by simp
  moreover have "n div 10 < 10" using assms(2) by simp
  ultimately show ?thesis by (simp add: pad2_def digit_less)
qed

lemma pad4_pad2: "n < 10000 \<Longrightarrow> pad4 n = pad2 (n div 100) @ pad2 (n mod 100)"
proof -
  assume "n < 10000"
  have "n mod 100 = 10 * (n div 10 mod 10) + n mod 10"
    using mod_mult2_eq [of n 10 10] by simp
  then have "n mod 100 div 10 = n div 10 mod 10" "n mod 100 mod 10 = n mod 10" by simp_all
  then show ?thesis
    by (simp add: pad4_def pad2_def digit_eq_iff div_mult2_eq [symmetric])
qed

section \<open>Hexadecimal\<close>

definition hex_digit :: "nat \<Rightarrow> char" where
  "hex_digit n = (if n < 10 then char_of (48 + n) else char_of (87 + n))"

definition hex_byte :: "8 word \<Rightarrow> go_string" where
  "hex_byte b = [hex_digit (unat b div 16), hex_digit (unat b mod 16)]"

definition EncodeToString :: "8 word list \<Rightarrow> go_string" where
  "EncodeToString bs = concat (map hex_byte bs)"

lemma of_char_hex_digit: "n < 16 \<Longrightarrow> (of_char (hex_digit n) :: nat) = (if n < 10 then 48 + n else 87 + n)"
  by (simp add: hex_digit_def)

lemma hex_digit_inject:
  assumes mn: "m < 16" "n < 16"
  shows "hex_digit m = hex_digit n \<longleftrightarrow> m = n"
proof
  assume "hex_digit m = hex_digit n"
  then have "(of_char (hex_digit m) :: nat) = of_char (hex_digit n)" by simp
  then show "m = n" using mn by (simp only: of_char_hex_digit split: if_splits)
qed simp

lemma word_byte_bound: "unat (b :: 8 word) < 256"
proof -
  have "unat b < 2 ^ LENGTH(8)" by (rule unsigned_less)
  then show ?thesis by simp
qed

lemma hex_byte_inject: "hex_byte a = hex_byte b \<longleftrightarrow> a = b"
proof
  assume "hex_byte a = hex_byte b"
  moreover have "unat a div 16 < 16" "unat b div 16 < 16"
    using word_byte_bound [of a] word_byte_bound [of b] by auto
  ultimately have "unat a div 16 = unat b div 16" "unat a mod 16 = unat b mod 16"
    by (auto simp: hex_byte_def hex_digit_inject)
  then have "unat a = unat b" by (metis div_mult_mod_eq)
  then show "a = b" by (rule word_unat_eq_iff [THEN iffD2])
qed simp

lemma length_hex_byte [simp]: "length (hex_byte b) = 2"
  by (simp add: hex_byte_def)

lemma length_EncodeToString [simp]: "length (EncodeToString bs) = 2 * length bs"
  by (induction bs) (simp_all add: EncodeToString_def)

lemma EncodeToString_inject:
  "length as = length bs \<Longrightarrow> EncodeToString as = EncodeToString bs \<longleftrightarrow> as = bs"
  by (induction as bs rule: list_induct2) (auto simp: EncodeToString_def hex_byte_inject)

end
