(* ===== verification/Run.thy ===== *)
theory Run
  imports Strconv Paths
begin

text \<open>
  \<open>internal/run/run.go\<close>: the states of a run, the record of one execution, its duration and its
  id. Times are instants in nanoseconds; \<open>nil\<close> pointers are \<open>None\<close>. A state is a string, as
  in the source: \<open>List\<close> is called with strings from a query and \<open>meta.json\<close> may hold any.
\<close>

section \<open>States\<close>

type_synonym state = go_string

definition StateQueued :: state where "StateQueued = ''queued''"
definition StateRunning :: state where "StateRunning = ''running''"
definition StateSucceeded :: state where "StateSucceeded = ''succeeded''"
definition StateFailed :: state where "StateFailed = ''failed''"
definition StateCancelled :: state where "StateCancelled = ''cancelled''"
definition StateTimedOut :: state where "StateTimedOut = ''timed_out''"
definition StateErrored :: state where "StateErrored = ''errored''"

lemmas state_defs = StateQueued_def StateRunning_def StateSucceeded_def StateFailed_def
  StateCancelled_def StateTimedOut_def StateErrored_def

definition Terminal :: "state \<Rightarrow> bool" where
  "Terminal s \<longleftrightarrow>
     s = StateSucceeded \<or> s = StateFailed \<or> s = StateCancelled \<or> s = StateTimedOut \<or> s = StateErrored"

lemma state_neq [simp]:
  "StateQueued \<noteq> StateRunning" "StateQueued \<noteq> StateCancelled" "StateQueued \<noteq> StateErrored"
  "StateRunning \<noteq> StateQueued" "StateRunning \<noteq> StateCancelled" "StateRunning \<noteq> StateErrored"
  "StateCancelled \<noteq> StateQueued" "StateCancelled \<noteq> StateRunning" "StateErrored \<noteq> StateQueued"
  "StateErrored \<noteq> StateRunning" "StateCancelled \<noteq> StateErrored" "StateErrored \<noteq> StateCancelled"
  "StateSucceeded \<noteq> StateCancelled" "StateSucceeded \<noteq> StateRunning" "StateSucceeded \<noteq> StateQueued"
  "StateQueued \<noteq> []" "StateRunning \<noteq> []"
  by (simp_all add: state_defs)

lemma Terminal_simps [simp]:
  "Terminal StateSucceeded" "Terminal StateFailed" "Terminal StateCancelled"
  "Terminal StateTimedOut" "Terminal StateErrored" "\<not> Terminal StateQueued" "\<not> Terminal StateRunning"
  by (simp_all add: Terminal_def state_defs)

section \<open>Records\<close>

definition ArtifactOutputJSON :: go_string where "ArtifactOutputJSON = ''output-json''"
definition ArtifactPolicyCSV :: go_string where "ArtifactPolicyCSV = ''policy-csv''"
definition ArtifactTrace :: go_string where "ArtifactTrace = ''trace''"
definition ArtifactInputs :: go_string where "ArtifactInputs = ''inputs''"
definition ArtifactScreenshot :: go_string where "ArtifactScreenshot = ''screenshot''"
definition ArtifactVideo :: go_string where "ArtifactVideo = ''video''"
definition ArtifactOther :: go_string where "ArtifactOther = ''other''"

lemmas artifact_kind_defs = ArtifactOutputJSON_def ArtifactPolicyCSV_def ArtifactTrace_def
  ArtifactInputs_def ArtifactScreenshot_def ArtifactVideo_def ArtifactOther_def

record artifact =
  art_ID :: go_string
  art_Kind :: go_string
  art_Name :: go_string
  art_TestTitle :: go_string
  art_Size :: int
  art_Sensitive :: bool
  art_Rel :: go_string

record test_result =
  tr_Title :: go_string
  tr_Status :: go_string
  tr_Duration :: int
  tr_Error :: go_string

record summary =
  sum_Total :: int
  sum_Passed :: int
  sum_Failed :: int
  sum_Skipped :: int
  sum_Flaky :: int
  sum_Duration :: int
  sum_Tests :: "test_result list"

record run =
  r_ID :: go_string
  r_WorkflowID :: go_string
  r_Env :: go_string
  r_SubmittedBy :: go_string
  r_State :: state
  r_Error :: go_string
  r_QueuedAt :: int
  r_StartedAt :: "int option"
  r_EndedAt :: "int option"
  r_TimeoutSeconds :: int
  r_ExitCode :: "int option"
  r_Params :: "(go_string, go_string) gomap"
  r_Summary :: "summary option"
  r_Artifacts :: "artifact list"
  r_PID :: int
  r_QueuePosition :: int

text \<open>
  What \<open>json.Unmarshal\<close> gives back of a run that \<open>json.MarshalIndent\<close> wrote: the field \<open>Rel\<close>
  of an artifact has the tag \<open>json:"-"\<close> and is lost; every other field survives.
\<close>

definition persisted :: "run \<Rightarrow> run" where
  "persisted r = r\<lparr>r_Artifacts := map (\<lambda>a. a\<lparr>art_Rel := []\<rparr>) (r_Artifacts r)\<rparr>"

text \<open>The zero value of \<open>Run\<close>.\<close>

definition zero_run :: run where
  "zero_run =
     \<lparr>r_ID = [], r_WorkflowID = [], r_Env = [], r_SubmittedBy = [], r_State = [], r_Error = [],
      r_QueuedAt = 0, r_StartedAt = None, r_EndedAt = None, r_TimeoutSeconds = 0, r_ExitCode = None,
      r_Params = [], r_Summary = None, r_Artifacts = [], r_PID = 0, r_QueuePosition = 0\<rparr>"

definition Duration :: "int \<Rightarrow> run \<Rightarrow> int" where
  "Duration now r =
     (case r_StartedAt r of
        None \<Rightarrow> 0
      | Some started \<Rightarrow> (case r_EndedAt r of None \<Rightarrow> now | Some ended \<Rightarrow> ended) - started)"

lemma persisted_simps [simp]:
  "r_ID (persisted r) = r_ID r" "r_State (persisted r) = r_State r" "r_PID (persisted r) = r_PID r"
  "r_EndedAt (persisted r) = r_EndedAt r" "r_Error (persisted r) = r_Error r"
  by (simp_all add: persisted_def)

section \<open>Run ids\<close>

text \<open>The fields of an instant in UTC, as \<open>time.Format\<close> reads them.\<close>

record civil =
  year :: nat
  month :: nat
  day :: nat
  hour :: nat
  minute :: nat
  second :: nat

definition civil_ok :: "civil \<Rightarrow> bool" where
  "civil_ok c \<longleftrightarrow> year c < 10000 \<and> month c < 100 \<and> day c < 100 \<and> hour c < 100 \<and> minute c < 100 \<and> second c < 100"

definition stamp :: "civil \<Rightarrow> go_string" where
  "stamp c = pad4 (year c) @ pad2 (month c) @ pad2 (day c) @ ''T'' @
     pad2 (hour c) @ pad2 (minute c) @ pad2 (second c) @ ''Z''"

text \<open>\<open>NewID\<close>: the random bytes are an argument, \<open>None\<close> when \<open>rand.Read\<close> fails.\<close>

definition NewID :: "civil \<Rightarrow> 8 word list option \<Rightarrow> go_string option" where
  "NewID now rnd = (case rnd of None \<Rightarrow> None | Some b \<Rightarrow> Some (stamp now @ ''-'' @ EncodeToString b))"

definition civil_key :: "civil \<Rightarrow> nat list" where
  "civil_key c = [year c, month c, day c, hour c, minute c, second c]"

lemma length_stamp [simp]: "length (stamp c) = 16"
  by (simp add: stamp_def)

lemma append_less_same: "(xs @ ys :: go_string) < xs @ zs \<longleftrightarrow> ys < zs"
  by (induction xs) auto

lemma append_less_first: "length xs = length ys \<Longrightarrow> xs < ys \<Longrightarrow> (xs @ us :: go_string) < ys @ vs"
  by (induction xs ys rule: list_induct2) auto

lemma pad4_less:
  assumes "m < n" "n < 10000"
  shows "pad4 m < pad4 n"
proof (cases "m div 100 = n div 100")
  case True
  have "m = 100 * (m div 100) + m mod 100" "n = 100 * (n div 100) + n mod 100" by simp_all
  with True assms(1) have "m mod 100 < n mod 100" by linarith
  then show ?thesis using assms True by (simp add: pad4_pad2 append_less_same pad2_less)
next
  case False
  have "m div 100 \<le> n div 100" using assms(1) by (simp add: div_le_mono)
  with False have "m div 100 < n div 100" by simp
  moreover have "n div 100 < 100" using assms(2) by simp
  ultimately show ?thesis
    using assms by (simp add: pad4_pad2 append_less_first pad2_less)
qed

lemma stamp_less:
  assumes "civil_ok c" "civil_ok d" "civil_key c < civil_key d"
  shows "stamp c @ us < stamp d @ vs"
proof -
  have p: "a < b \<and> b < 100 \<Longrightarrow> pad2 a < pad2 b" for a b using pad2_less by blast
  have q: "a < b \<and> b < 10000 \<Longrightarrow> pad4 a < pad4 b" for a b using pad4_less by blast
  show ?thesis
    using assms
    by (auto simp: stamp_def civil_key_def civil_ok_def append_less_same append_less_first p q)
qed

lemma plain_char: "c \<in> set (pad2 n) \<union> set (pad4 n) \<Longrightarrow> c \<noteq> slash \<and> c \<noteq> CHR ''.''"
  by (auto simp: pad2_def pad4_def dest: arg_cong [where f = "of_char :: char \<Rightarrow> nat"]
      simp: of_char_digit)

lemma hex_char: "c \<in> set (hex_byte b) \<Longrightarrow> c \<noteq> slash"
  using word_byte_bound [of b]
  by (auto simp: hex_byte_def of_char_hex_digit split: if_splits
      dest!: arg_cong [where f = "of_char :: char \<Rightarrow> nat"])

lemma NewID_plain:
  assumes "NewID now rnd = Some i"
  shows "plain i"
proof -
  obtain b where i: "i = stamp now @ ''-'' @ EncodeToString b"
    using assms by (auto simp: NewID_def split: option.splits)
  have "length i \<ge> 16" by (simp add: i)
  then have "i \<noteq> []" "i \<noteq> ''.''" "i \<noteq> ''..''" by auto
  moreover have "slash \<notin> set i"
    by (auto simp: i stamp_def EncodeToString_def dest: hex_char)
      (use plain_char in blast)+
  ultimately show ?thesis by (simp add: plain_def)
qed

section \<open>Properties\<close>

text \<open>
  Run ids sort chronologically: of two ids made at different UTC seconds of the years 0 to
  9999, the earlier one is the smaller string, whatever the random bytes are.
\<close>

theorem newid_chronological:
  assumes "civil_ok c" "civil_ok d" "civil_key c < civil_key d"
    and "NewID c rnd = Some i" "NewID d rnd' = Some j"
  shows "i < j"
proof -
  obtain us vs where "i = stamp c @ us" "j = stamp d @ vs"
    using assms(4,5) by (auto simp: NewID_def split: option.splits)
  then show ?thesis using stamp_less [OF assms(1-3)] by simp
qed

theorem newid_chronological_witness:
  "''20260811T180553Z-ff'' < ''20260811T180600Z-00''"
proof (rule newid_chronological)
  let ?c = "\<lparr>year = 2026, month = 8, day = 11, hour = 18, minute = 5, second = 53\<rparr>"
  let ?d = "\<lparr>year = 2026, month = 8, day = 11, hour = 18, minute = 6, second = 0\<rparr>"
  show "civil_ok ?c" "civil_ok ?d" "civil_key ?c < civil_key ?d"
    by (simp_all add: civil_ok_def civil_key_def)
  show "NewID ?c (Some [255]) = Some ''20260811T180553Z-ff''"
    "NewID ?d (Some [0]) = Some ''20260811T180600Z-00''" by code_simp+
qed

end
