(* ===== verification/Machines.thy ===== *)
theory Machines
  imports Prelude
begin

text \<open>
  Transition systems, as the step functions of the development give them: an invariant that every step keeps, and a simulation by an
  abstract machine, which stutters where a step is not seen. The interfaces are interpreted where the step functions are.
\<close>

definition moves :: "('e \<Rightarrow> 's \<Rightarrow> 's option) \<Rightarrow> 's \<Rightarrow> 's \<Rightarrow> bool" where
  "moves step s s' \<longleftrightarrow> (\<exists>e. step e s = Some s')"

lemma movesI: "step e s = Some s' \<Longrightarrow> moves step s s'"
  unfolding moves_def by blast

locale kept =
  fixes step :: "'e \<Rightarrow> 's \<Rightarrow> 's option"
    and inv :: "'s \<Rightarrow> bool"
  assumes keeps: "inv s \<Longrightarrow> step e s = Some s' \<Longrightarrow> inv s'"
begin

lemma reach_kept: "(moves step)\<^sup>*\<^sup>* s s' \<Longrightarrow> inv s \<Longrightarrow> inv s'"
  by (induction rule: rtranclp_induct) (auto simp: moves_def intro: keeps)

text \<open>What every step keeps under the invariant holds of every later state.\<close>

lemma reach_also:
  assumes "(moves step)\<^sup>*\<^sup>* s s'" "inv s" "P s"
    and "\<And>s e s'. inv s \<Longrightarrow> P s \<Longrightarrow> step e s = Some s' \<Longrightarrow> P s'"
  shows "P s'"
proof -
  have "inv s' \<and> P s'"
    using assms(1-3) by (induction rule: rtranclp_induct) (auto simp: moves_def intro: keeps assms(4))
  then show ?thesis ..
qed

end

locale simulated = kept +
  fixes view :: "'s \<Rightarrow> 'a"
    and astep :: "'a \<Rightarrow> 'a \<Rightarrow> bool"
  assumes sim: "inv s \<Longrightarrow> step e s = Some s' \<Longrightarrow> view s' = view s \<or> astep (view s) (view s')"
begin

lemma reach_sim:
  assumes "(moves step)\<^sup>*\<^sup>* s s'" "inv s"
  shows "astep\<^sup>*\<^sup>* (view s) (view s')"
  using assms(1)
proof (rule reach_also)
  fix t e t'
  assume "inv t" "astep\<^sup>*\<^sup>* (view s) (view t)" "step e t = Some t'"
  with sim [of t e t'] show "astep\<^sup>*\<^sup>* (view s) (view t')" by auto
qed (use assms(2) in auto)

text \<open>A property of the abstract machine that its steps keep is kept by the concrete one.\<close>

lemma reach_stable:
  assumes "(moves step)\<^sup>*\<^sup>* s s'" "inv s" "Q (view s)" "\<And>a b. Q a \<Longrightarrow> astep a b \<Longrightarrow> Q b"
  shows "Q (view s')"
  using reach_sim [OF assms(1,2)] assms(3) by (induction rule: rtranclp_induct) (auto intro: assms(4))

end

end
