(* ===== verification/Exec.thy ===== *)
theory Exec
  imports Catalog Layout Logbuf Run Machines
begin

text \<open>
  \<open>internal/run/exec.go\<close>: one Playwright process from its environment to its outcome. The
  goroutines of \<open>Execute\<close> (the caller, the reader of the output, the watcher of the context) and
  the child are interleaved as a sequence of events; \<open>exec_step\<close> is the effect of one event, or
  \<open>None\<close> when it cannot happen. Errors of the operating system are their texts.
\<close>

section \<open>Types\<close>

record spec =
  sp_Workflow :: workflow
  sp_Layout :: layout
  sp_Env :: "(go_string, go_string) gomap"
  sp_TimeoutSeconds :: int

record runtime =
  rt_AutomationDir :: go_string
  rt_PlaywrightCLI :: go_string
  rt_NodeBin :: go_string
  rt_ReceiptsDir :: go_string

record outcome =
  oc_ExitCode :: int
  oc_State :: state
  oc_Err :: "go_string option"

section \<open>The environment of the child\<close>

text \<open>A \<open>time.Duration\<close> is a 64-bit number of nanoseconds, and so its arithmetic wraps.\<close>

definition second_ns :: int where "second_ns = 1000000000"

definition playwrightGrace :: int where "playwrightGrace = 120 * second_ns"

definition wall_clock :: "int \<Rightarrow> int" where
  "wall_clock seconds = wrap64 (seconds * second_ns)"

definition pw_timeout :: "int \<Rightarrow> int" where
  "pw_timeout seconds =
     (let t = wrap64 (wall_clock seconds - playwrightGrace)
      in if t < 30 * second_ns then 30 * second_ns else t)"

definition Milliseconds :: "int \<Rightarrow> int" where
  "Milliseconds d = sgn d * (\<bar>d\<bar> div 1000000)"

definition passthrough :: "go_string list" where
  "passthrough =
     [''PATH'', ''SystemRoot'', ''windir'', ''TEMP'', ''TMP'', ''HOME'', ''USERPROFILE'',
      ''LANG'', ''LC_ALL'', ''TZ'', ''PLAYWRIGHT_BROWSERS_PATH'', ''NODE_OPTIONS'']"

definition put_all ::
  "(go_string \<times> go_string) list \<Rightarrow> (go_string, go_string) gomap \<Rightarrow> (go_string, go_string) gomap" where
  "put_all kvs m = fold (\<lambda>kv. AList.update (fst kv) (snd kv)) kvs m"

definition run_settings :: "runtime \<Rightarrow> spec \<Rightarrow> (go_string \<times> go_string) list" where
  "run_settings rt sp =
     (let ms = itoa (Milliseconds (pw_timeout (sp_TimeoutSeconds sp))) in
      [(''PS_RECEIPTS_DIR'', rt_ReceiptsDir rt),
       (''PS_RUN_TMP_DIR'', Tmp (sp_Layout sp)),
       (''PW_HTML_REPORT_DIR'', Report (sp_Layout sp)),
       (''PW_RESULT_JSON'', ReportJSON (sp_Layout sp)),
       (''PS_RUN_TIMEOUT_MS'', ms),
       (''PW_TIMEOUT'', ms),
       (''PW_HEADLESS'', ''true''),
       (''PW_TRACE'', ''off''),
       (''TRACK_INPUTS'', ''false'')])"

text \<open>The map that \<open>buildEnv\<close> fills, and the entries it makes of it in the map's order.\<close>

definition env_map ::
  "(go_string \<Rightarrow> go_string option) \<Rightarrow> runtime \<Rightarrow> spec \<Rightarrow> (go_string, go_string) gomap" where
  "env_map lookupEnv rt sp =
     put_all (sp_Env sp)
       (put_all (run_settings rt sp)
         (put_all (List.map_filter (\<lambda>k. map_option (Pair k) (lookupEnv k)) passthrough) []))"

definition buildEnv :: "(go_string \<Rightarrow> go_string option) \<Rightarrow> runtime \<Rightarrow> spec \<Rightarrow> go_string list" where
  "buildEnv lookupEnv rt sp = map (\<lambda>kv. fst kv @ ''='' @ snd kv) (env_map lookupEnv rt sp)"

record command =
  cmd_Path :: go_string
  cmd_Args :: "go_string list"
  cmd_Dir :: go_string
  cmd_Env :: "go_string list"

definition child_command :: "(go_string \<Rightarrow> go_string option) \<Rightarrow> runtime \<Rightarrow> spec \<Rightarrow> command" where
  "child_command lookupEnv rt sp =
     \<lparr>cmd_Path = rt_NodeBin rt,
      cmd_Args = [rt_PlaywrightCLI rt, ''test'', w_Spec (sp_Workflow sp), ''--output='' @ Output (sp_Layout sp)],
      cmd_Dir = rt_AutomationDir rt,
      cmd_Env = buildEnv lookupEnv rt sp\<rparr>"

section \<open>Execute\<close>

datatype stop_reason = DeadlineExceeded | ContextCanceled

datatype wait_result = WaitOk | WaitExit int | WaitFailed go_string

datatype watcher = Watching | Killing | WatcherGone

datatype caller = InWait | Waited wait_result | Returned outcome

text \<open>
  \<open>x_pipe\<close> holds the lines the child has written and the reader has not taken; \<open>x_written\<close> all
  the lines it has written and \<open>x_said\<close> all the lines appended to the buffer are the history.
\<close>

record exec_state =
  x_child :: "wait_result option"
  x_ctx :: "stop_reason option"
  x_pipe :: "go_string list"
  x_pipe_closed :: bool
  x_reading :: bool
  x_watcher :: watcher
  x_killed :: "state option"
  x_done :: bool
  x_caller :: caller
  x_buf :: buffer
  x_file :: "go_string list"
  x_written :: "go_string list"
  x_said :: "go_string list"

datatype exec_event = ChildWrites go_string | ChildExits wait_result | ContextDone stop_reason
  | ReaderTakes | ReaderEnds | WatcherFires | WatcherKilled "go_string option" | WatcherQuits
  | CallerWaits | CallerReturns

definition stop_state :: "stop_reason \<Rightarrow> state" where
  "stop_state r = (case r of DeadlineExceeded \<Rightarrow> StateTimedOut | ContextCanceled \<Rightarrow> StateCancelled)"

text \<open>From the result of \<open>cmd.Wait\<close> and what the channel \<open>killed\<close> holds to the outcome.\<close>

definition classify :: "wait_result \<Rightarrow> state option \<Rightarrow> outcome" where
  "classify w killed =
     (case w of
        WaitFailed e \<Rightarrow> \<lparr>oc_ExitCode = -1, oc_State = StateErrored, oc_Err = Some e\<rparr>
      | _ \<Rightarrow>
          let exitCode = (case w of WaitExit c \<Rightarrow> c | _ \<Rightarrow> 0) in
          case killed of
            Some st \<Rightarrow> \<lparr>oc_ExitCode = exitCode, oc_State = st, oc_Err = None\<rparr>
          | None \<Rightarrow>
              if exitCode = 0 then \<lparr>oc_ExitCode = 0, oc_State = StateSucceeded, oc_Err = None\<rparr>
              else \<lparr>oc_ExitCode = exitCode, oc_State = StateFailed, oc_Err = None\<rparr>)"

text \<open>
  The scanner's lines: a trailing carriage return is dropped, and a line that does not fit the
  buffer of 4 MiB ends the scan.
\<close>

definition scan_limit :: nat where "scan_limit = 4 * 1024 * 1024"

definition drop_cr :: "go_string \<Rightarrow> go_string" where
  "drop_cr s = (if s \<noteq> [] \<and> last s = CR then butlast s else s)"

definition say :: "go_string \<Rightarrow> exec_state \<Rightarrow> exec_state option" where
  "say text x = map_option (\<lambda>b. x\<lparr>x_buf := b, x_said := x_said x @ [text]\<rparr>) (Append text (x_buf x))"

fun exec_step :: "exec_event \<Rightarrow> exec_state \<Rightarrow> exec_state option" where
  "exec_step (ChildWrites l) x =
     (if x_child x = None then Some (x\<lparr>x_pipe := x_pipe x @ [l], x_written := x_written x @ [l]\<rparr>) else None)"
| "exec_step (ChildExits w) x =
     (if x_child x = None then Some (x\<lparr>x_child := Some w\<rparr>) else None)"
| "exec_step (ContextDone r) x =
     (if x_ctx x = None then Some (x\<lparr>x_ctx := Some r\<rparr>) else None)"
| "exec_step ReaderTakes x =
     (if \<not> x_reading x then None
      else
        case x_pipe x of
          [] \<Rightarrow> None
        | l # ls \<Rightarrow>
            if length l \<ge> scan_limit then Some (x\<lparr>x_reading := False\<rparr>)
            else map_option
                (\<lambda>x'. x'\<lparr>x_pipe := ls, x_file := x_file x @ [StripANSI (drop_cr l)]\<rparr>)
                (say (drop_cr l) x))"
| "exec_step ReaderEnds x =
     (if x_reading x \<and> (x_pipe_closed x \<or> x_pipe x = [] \<and> x_child x \<noteq> None)
      then Some (x\<lparr>x_reading := False\<rparr>) else None)"
| "exec_step WatcherFires x =
     (case x_ctx x of
        None \<Rightarrow> None
      | Some r \<Rightarrow>
          if x_watcher x = Watching
          then Some (x\<lparr>x_watcher := Killing, x_killed := Some (stop_state r)\<rparr>) else None)"
| "exec_step (WatcherKilled err) x =
     (if x_watcher x \<noteq> Killing then None
      else
        case err of
          None \<Rightarrow> Some (x\<lparr>x_watcher := WatcherGone\<rparr>)
        | Some e \<Rightarrow>
            map_option (\<lambda>x'. x'\<lparr>x_watcher := WatcherGone\<rparr>)
              (say (''[server] failed to kill process tree: '' @ e) x))"
| "exec_step WatcherQuits x =
     (if x_watcher x = Watching \<and> x_done x then Some (x\<lparr>x_watcher := WatcherGone\<rparr>) else None)"
| "exec_step CallerWaits x =
     (case (x_caller x, x_child x) of
        (InWait, Some w) \<Rightarrow> Some (x\<lparr>x_caller := Waited w, x_pipe_closed := True, x_done := True\<rparr>)
      | _ \<Rightarrow> None)"
| "exec_step CallerReturns x =
     (case x_caller x of
        Waited w \<Rightarrow>
          if x_reading x then None else Some (x\<lparr>x_caller := Returned (classify w (x_killed x))\<rparr>)
      | _ \<Rightarrow> None)"

text \<open>
  What comes before the goroutines: the log file, the pipe, the announcement and the start. The
  result is the outcome of an early return, or the pid and the first state.
\<close>

definition announcement :: "runtime \<Rightarrow> spec \<Rightarrow> go_string" where
  "announcement rt sp =
     ''$ '' @ rt_NodeBin rt @ '' '' @ path_Base (rt_PlaywrightCLI rt) @ '' test '' @ w_Spec (sp_Workflow sp)"

definition exec_start :: "buffer \<Rightarrow> go_string \<Rightarrow> exec_state" where
  "exec_start b text =
     \<lparr>x_child = None, x_ctx = None, x_pipe = [], x_pipe_closed = False, x_reading = True,
      x_watcher = Watching, x_killed = None, x_done = False, x_caller = InWait, x_buf = b,
      x_file = [], x_written = [], x_said = [text]\<rparr>"

definition Execute ::
  "go_string option \<Rightarrow> go_string option \<Rightarrow> go_string + int \<Rightarrow> runtime \<Rightarrow> spec \<Rightarrow> buffer \<Rightarrow>
   (outcome \<times> buffer + int \<times> exec_state) option" where
  "Execute create_err pipe_err start rt sp buf =
     (case create_err of
        Some e \<Rightarrow> Some (Inl (\<lparr>oc_ExitCode = -1, oc_State = StateErrored,
            oc_Err = Some (''creating '' @ LogFile (sp_Layout sp) @ '': '' @ e)\<rparr>, buf))
      | None \<Rightarrow>
          (case pipe_err of
             Some e \<Rightarrow> Some (Inl (\<lparr>oc_ExitCode = -1, oc_State = StateErrored, oc_Err = Some e\<rparr>, buf))
           | None \<Rightarrow>
               (case Append (announcement rt sp) buf of
                  None \<Rightarrow> None
                | Some b \<Rightarrow>
                    (case start of
                       Inl e \<Rightarrow> Some (Inl (\<lparr>oc_ExitCode = -1, oc_State = StateErrored,
                           oc_Err = Some (''starting playwright: '' @ e)\<rparr>, b))
                     | Inr pid \<Rightarrow> Some (Inr (pid, exec_start b (announcement rt sp)))))))"

inductive exec_reach :: "exec_state \<Rightarrow> exec_state \<Rightarrow> bool" for x0 where
  exec_init: "exec_reach x0 x0"
| exec_next: "exec_reach x0 x \<Longrightarrow> exec_step e x = Some x' \<Longrightarrow> exec_reach x0 x'"

fun exec_run :: "exec_event list \<Rightarrow> exec_state \<Rightarrow> exec_state option" where
  "exec_run [] x = Some x"
| "exec_run (e # es) x = Option.bind (exec_step e x) (exec_run es)"

section \<open>Lemmas on the environment\<close>

lemma put_all_append: "put_all (xs @ ys) m = put_all ys (put_all xs m)"
  by (simp add: put_all_def)

lemma gomap_ok_put_all: "gomap_ok m \<Longrightarrow> gomap_ok (put_all kvs m)"
proof (induction kvs arbitrary: m)
  case (Cons kv kvs)
  have "gomap_ok (AList.update (fst kv) (snd kv) m)" using Cons.prems by (simp add: go_maps)
  from Cons.IH [OF this] show ?case by (simp add: put_all_def)
qed (simp add: put_all_def)

lemma map_of_put_all:
  "distinct (map fst kvs) \<Longrightarrow>
   map_of (put_all kvs m) k = (case map_of kvs k of None \<Rightarrow> map_of m k | Some v \<Rightarrow> Some v)"
proof (induction kvs arbitrary: m)
  case (Cons kv kvs)
  have d: "distinct (map fst kvs)" "fst kv \<notin> set (map fst kvs)" using Cons.prems by simp_all
  have "put_all (kv # kvs) m = put_all kvs (AList.update (fst kv) (snd kv) m)" by (simp add: put_all_def)
  then have 1: "map_of (put_all (kv # kvs) m) k =
      (case map_of kvs k of None \<Rightarrow> map_of (AList.update (fst kv) (snd kv) m) k | Some v \<Rightarrow> Some v)"
    using Cons.IH [OF d(1)] by simp
  show ?case
  proof (cases "k = fst kv")
    case True
    with d(2) have "map_of kvs k = None" by (simp add: map_of_eq_None_iff)
    with True show ?thesis unfolding 1 by (cases kv) (simp add: go_maps)
  next
    case False
    then show ?thesis unfolding 1 by (cases kv) (auto simp: go_maps split: option.splits)
  qed
qed (simp add: put_all_def)

lemma run_settings_distinct: "distinct (map fst (run_settings rt sp))"
  by (simp add: run_settings_def Let_def)

lemma map_of_pass:
  "map_of (List.map_filter (\<lambda>k. map_option (Pair k) (f k)) ks) k = (if k \<in> set ks then f k else None)"
  by (induction ks) (auto simp: map_filter_simps split: option.splits)

lemma pass_distinct:
  "distinct ks \<Longrightarrow> distinct (map fst (List.map_filter (\<lambda>k. map_option (Pair k) (f k)) ks))"
proof (induction ks)
  case (Cons k ks)
  have "set (map fst (List.map_filter (\<lambda>k. map_option (Pair k) (f k)) ks)) \<subseteq> set ks"
    by (auto simp: map_filter_def)
  with Cons show ?case by (auto simp: map_filter_simps split: option.splits)
qed (simp add: map_filter_simps)

text \<open>The value of every variable of the child, in the order of precedence.\<close>

definition child_var ::
  "(go_string \<Rightarrow> go_string option) \<Rightarrow> runtime \<Rightarrow> spec \<Rightarrow> go_string \<Rightarrow> go_string option" where
  "child_var lookupEnv rt sp k =
     (case map_of (sp_Env sp) k of
        Some v \<Rightarrow> Some v
      | None \<Rightarrow>
          (case map_of (run_settings rt sp) k of
             Some v \<Rightarrow> Some v
           | None \<Rightarrow> if k \<in> set passthrough then lookupEnv k else None))"

lemma env_map_lookup:
  assumes "gomap_ok (sp_Env sp)"
  shows "map_of (env_map lookupEnv rt sp) k = child_var lookupEnv rt sp k"
proof -
  have "distinct passthrough" by (simp add: passthrough_def)
  from pass_distinct [OF this] show ?thesis
    unfolding env_map_def map_of_put_all [OF assms] map_of_put_all [OF run_settings_distinct]
      map_of_put_all [OF pass_distinct [OF \<open>distinct passthrough\<close>]] map_of_pass child_var_def
    by (auto split: option.splits)
qed

lemma gomap_ok_env_map: "gomap_ok (env_map lookupEnv rt sp)"
  unfolding env_map_def by (intro gomap_ok_put_all) simp

lemma entries_of: "(\<lambda>kv. fst kv @ sep @ snd kv) ` {(k, v). P k v} = {k @ sep @ v | k v. P k v}"
proof (intro set_eqI iffI)
  fix t
  assume "t \<in> {k @ sep @ v | k v. P k v}"
  then obtain k v where "t = k @ sep @ v" "P k v" by blast
  then show "t \<in> (\<lambda>kv. fst kv @ sep @ snd kv) ` {(k, v). P k v}"
    by (intro image_eqI [of _ _ "(k, v)"]) simp_all
next
  fix t
  assume "t \<in> (\<lambda>kv. fst kv @ sep @ snd kv) ` {(k, v). P k v}"
  then obtain k v where "t = k @ sep @ v" "P k v" by auto
  then show "t \<in> {k @ sep @ v | k v. P k v}" by blast
qed

section \<open>Lemmas on the interleavings\<close>

lemma say_open:
  assumes "open_buffer (x_buf x) (map StripANSI (x_said x))"
  shows "\<exists>b. say t x = Some (x\<lparr>x_buf := b, x_said := x_said x @ [t]\<rparr>) \<and>
    open_buffer b (map StripANSI (x_said x @ [t]))"
  using ring.wr_rep [OF assms, of t] by (auto simp: say_def)

lemma say_frame: "say t x = Some x' \<Longrightarrow> \<exists>b. x' = x\<lparr>x_buf := b, x_said := x_said x @ [t]\<rparr> \<and> Append t (x_buf x) = Some b"
  by (auto simp: say_def)

definition kill_note :: "go_string \<Rightarrow> go_string" where
  "kill_note e = ''[server] failed to kill process tree: '' @ e"

text \<open>The control part: who has fired, what is recorded, what a result means.\<close>

definition control_ok :: "exec_state \<Rightarrow> bool" where
  "control_ok x \<longleftrightarrow>
     (case x_killed x of
        None \<Rightarrow> x_watcher x \<noteq> Killing
      | Some st \<Rightarrow> x_watcher x \<noteq> Watching \<and> (\<exists>r. x_ctx x = Some r \<and> st = stop_state r)) \<and>
     (case x_caller x of
        InWait \<Rightarrow> True
      | Waited w \<Rightarrow> x_child x = Some w \<and> x_pipe_closed x
      | Returned out \<Rightarrow> \<not> x_reading x \<and>
          (\<exists>w k. x_child x = Some w \<and> out = classify w k \<and> (k = None \<or> k = x_killed x)))"

text \<open>The three shapes of a step that reads or speaks, and the rest.\<close>

lemma reader_takes:
  assumes "exec_step ReaderTakes x = Some x'"
  obtains l ls where "x_pipe x = l # ls" "scan_limit \<le> length l" "x' = x\<lparr>x_reading := False\<rparr>" "x_reading x"
  | l ls b where "x_pipe x = l # ls" "length l < scan_limit" "Append (drop_cr l) (x_buf x) = Some b" "x_reading x"
      "x' = x\<lparr>x_buf := b, x_said := x_said x @ [drop_cr l], x_pipe := ls,
              x_file := x_file x @ [StripANSI (drop_cr l)]\<rparr>"
proof -
  obtain l ls where p: "x_pipe x = l # ls" "x_reading x" using assms by (auto split: list.splits if_splits)
  show thesis
  proof (cases "scan_limit \<le> length l")
    case True
    with assms p that(1) show thesis by simp
  next
    case False
    then obtain y where y: "say (drop_cr l) x = Some y"
      "x' = y\<lparr>x_pipe := ls, x_file := x_file x @ [StripANSI (drop_cr l)]\<rparr>" using assms p by auto
    then obtain b where "Append (drop_cr l) (x_buf x) = Some b"
      "y = x\<lparr>x_buf := b, x_said := x_said x @ [drop_cr l]\<rparr>" using say_frame by blast
    with y p False that(2) show thesis by simp
  qed
qed

lemma watcher_killed:
  assumes "exec_step (WatcherKilled err) x = Some x'"
  obtains "x_watcher x = Killing" "err = None" "x' = x\<lparr>x_watcher := WatcherGone\<rparr>"
  | e b where "x_watcher x = Killing" "err = Some e" "Append (kill_note e) (x_buf x) = Some b"
      "x' = x\<lparr>x_buf := b, x_said := x_said x @ [kill_note e], x_watcher := WatcherGone\<rparr>"
proof -
  have w: "x_watcher x = Killing" using assms by (auto split: if_splits)
  show thesis
  proof (cases err)
    case None
    with assms w that(1) show thesis by simp
  next
    case (Some e)
    then obtain y where y: "say (kill_note e) x = Some y" "x' = y\<lparr>x_watcher := WatcherGone\<rparr>"
      using assms w by (auto simp: kill_note_def)
    then show thesis using that(2) [OF w Some] say_frame by force
  qed
qed

text \<open>Every other step leaves the buffer, the file and what was said as they are.\<close>

lemma quiet_step:
  assumes "exec_step e x = Some x'" "e \<noteq> ReaderTakes" "\<And>err. e \<noteq> WatcherKilled err"
  shows "x_buf x' = x_buf x \<and> x_said x' = x_said x \<and> x_file x' = x_file x \<and>
    (x_watcher x \<noteq> WatcherGone \<or> x_watcher x' = WatcherGone) \<and>
    (\<exists>new. x_written x' = x_written x @ new \<and> x_pipe x' = x_pipe x @ new)"
  using assms by (cases e) (auto split: if_splits option.splits caller.splits)

lemma control_step:
  assumes "control_ok x" "exec_step e x = Some x'"
  shows "control_ok x'"
proof (cases e)
  case ReaderTakes
  with assms(2) have "exec_step ReaderTakes x = Some x'" by simp
  then show ?thesis
    by (rule reader_takes) (use assms(1) in \<open>auto simp: control_ok_def split: option.splits caller.splits\<close>)
next
  case (WatcherKilled err)
  with assms(2) have "exec_step (WatcherKilled err) x = Some x'" by simp
  then show ?thesis
    by (rule watcher_killed) (use assms(1) in \<open>auto simp: control_ok_def split: option.splits caller.splits\<close>)
qed (use assms in \<open>auto simp: control_ok_def split: if_splits option.splits caller.splits\<close>)

text \<open>The data part: what is read, what is in the file and what is in the buffer.\<close>

definition lines_read :: "exec_state \<Rightarrow> go_string list" where
  "lines_read x = map drop_cr (take (length (x_file x)) (x_written x))"

text \<open>
  What was said: the announcement, then the lines, with at most one note of the watcher somewhere
  among them, and none before the watcher is gone.
\<close>

definition said_ok :: "go_string \<Rightarrow> go_string list \<Rightarrow> bool \<Rightarrow> go_string list \<Rightarrow> bool" where
  "said_ok a ls gone said \<longleftrightarrow>
     (\<exists>i ks. said = a # take i ls @ map kill_note ks @ drop i ls \<and> length ks \<le> 1 \<and> (\<not> gone \<longrightarrow> ks = []))"

lemma said_ok_read:
  assumes "said_ok a ls gone said"
  shows "said_ok a (ls @ [l]) gone (said @ [l])"
proof -
  obtain i ks where n: "said = a # take i ls @ map kill_note ks @ drop i ls" "length ks \<le> 1" "\<not> gone \<longrightarrow> ks = []"
    using assms by (auto simp: said_ok_def)
  then have "said @ [l] = a # take (min i (length ls)) (ls @ [l]) @ map kill_note ks @ drop (min i (length ls)) (ls @ [l])"
    by (cases "i \<le> length ls") (simp_all add: min_def)
  with n(2,3) show ?thesis unfolding said_ok_def by blast
qed

lemma said_ok_note: "said_ok a ls False said \<Longrightarrow> said_ok a ls True (said @ [kill_note t])"
  by (auto simp: said_ok_def intro!: exI [of _ "length ls"] exI [of _ "[t]"])

lemma said_ok_gone: "said_ok a ls gone said \<Longrightarrow> (gone \<longrightarrow> gone') \<Longrightarrow> said_ok a ls gone' said"
  by (auto simp: said_ok_def)

definition data_ok :: "go_string \<Rightarrow> exec_state \<Rightarrow> bool" where
  "data_ok a x \<longleftrightarrow>
     x_pipe x = drop (length (x_file x)) (x_written x) \<and>
     x_file x = map StripANSI (lines_read x) \<and>
     said_ok a (lines_read x) (x_watcher x = WatcherGone) (x_said x)"

definition buffer_ok :: "exec_state \<Rightarrow> bool" where
  "buffer_ok x \<longleftrightarrow> open_buffer (x_buf x) (map StripANSI (x_said x))"

lemma buffer_step:
  assumes "buffer_ok x" "exec_step e x = Some x'"
  shows "buffer_ok x'"
proof -
  have S: "open_buffer b (map StripANSI (x_said x @ [t]))" if "Append t (x_buf x) = Some b" for t b
    using ring.wr_rep [of "x_buf x" "map StripANSI (x_said x)" t] assms(1) that by (auto simp: buffer_ok_def)
  consider "e = ReaderTakes" | err where "e = WatcherKilled err"
    | "e \<noteq> ReaderTakes" "\<And>err. e \<noteq> WatcherKilled err" by blast
  then show ?thesis
  proof cases
    case 1
    with assms(2) have "exec_step ReaderTakes x = Some x'" by simp
    then show ?thesis
      by (rule reader_takes) (use assms(1) S in \<open>simp_all add: buffer_ok_def\<close>)
  next
    case 2
    with assms(2) have "exec_step (WatcherKilled err) x = Some x'" by simp
    then show ?thesis
      by (rule watcher_killed) (use assms(1) S in \<open>simp_all add: buffer_ok_def\<close>)
  next
    case 3
    with quiet_step [OF assms(2)] assms(1) show ?thesis by (simp add: buffer_ok_def)
  qed
qed

lemma take_drop_step: "drop n xs = y # ys \<Longrightarrow> take (Suc n) xs = take n xs @ [y] \<and> drop (Suc n) xs = ys"
  by (metis Cons_nth_drop_Suc drop_all hd_drop_conv_nth leI list.distinct(1) list.sel(1) list.sel(3) take_Suc_conv_app_nth)

lemma data_reader:
  assumes "data_ok a x" "exec_step ReaderTakes x = Some x'"
  shows "data_ok a x'"
  using assms(2)
proof (cases rule: reader_takes)
  case 1
  then show ?thesis using assms(1) by (simp add: data_ok_def lines_read_def)
next
  case (2 l ls b)
  then have "take (Suc (length (x_file x))) (x_written x) = take (length (x_file x)) (x_written x) @ [l]"
    "drop (Suc (length (x_file x))) (x_written x) = ls"
    using take_drop_step [of "length (x_file x)" "x_written x" l ls] assms(1) by (simp_all add: data_ok_def)
  then show ?thesis using assms(1) said_ok_read 2 by (simp add: data_ok_def lines_read_def)
qed

lemma data_watcher:
  assumes "data_ok a x" "exec_step (WatcherKilled err) x = Some x'"
  shows "data_ok a x'"
  using assms(2)
proof (cases rule: watcher_killed)
  case 1
  then show ?thesis using assms(1) by (auto simp: data_ok_def lines_read_def intro: said_ok_gone)
next
  case (2 t b)
  then show ?thesis using assms(1) said_ok_note by (simp add: data_ok_def lines_read_def)
qed

lemma data_step:
  assumes "data_ok a x" "exec_step e x = Some x'"
  shows "data_ok a x'"
proof -
  consider "e = ReaderTakes" | err where "e = WatcherKilled err"
    | (quiet) "e \<noteq> ReaderTakes" "\<And>err. e \<noteq> WatcherKilled err" by blast
  then show ?thesis
  proof cases
    case quiet
    obtain new where q: "x_said x' = x_said x" "x_file x' = x_file x"
      "x_watcher x \<noteq> WatcherGone \<or> x_watcher x' = WatcherGone"
      "x_written x' = x_written x @ new" "x_pipe x' = x_pipe x @ new"
      using quiet_step [OF assms(2) quiet] by blast
    have f: "x_file x = map StripANSI (lines_read x)" and p: "x_pipe x = drop (length (x_file x)) (x_written x)"
      and n: "said_ok a (lines_read x) (x_watcher x = WatcherGone) (x_said x)"
      using assms(1) unfolding data_ok_def by blast+
    have "length (x_file x) \<le> length (x_written x)"
      using arg_cong [OF f, of length] by (simp add: lines_read_def)
    then have "lines_read x' = lines_read x" "x_pipe x' = drop (length (x_file x')) (x_written x')"
      using p by (simp_all add: lines_read_def q)
    then show ?thesis unfolding data_ok_def using f q(1-3) said_ok_gone [OF n] by simp
  qed (use assms in \<open>blast intro: data_reader data_watcher\<close>)+
qed

text \<open>All three hold at the start and so in every reachable state.\<close>

lemma exec_start_ok:
  assumes "open_buffer b [StripANSI a]"
  shows "control_ok (exec_start b a)" "data_ok a (exec_start b a)" "buffer_ok (exec_start b a)"
  using assms by (simp_all add: control_ok_def data_ok_def said_ok_def buffer_ok_def lines_read_def exec_start_def)

interpretation execution: kept exec_step "\<lambda>x. control_ok x \<and> data_ok a x \<and> buffer_ok x" for a
  by unfold_locales (use control_step data_step buffer_step in blast)

lemma exec_reach_ok:
  assumes "exec_reach x0 x" "control_ok x0" "data_ok a x0" "buffer_ok x0"
  shows "control_ok x \<and> data_ok a x \<and> buffer_ok x"
proof -
  have "(moves exec_step)\<^sup>*\<^sup>* x0 x"
    using assms(1) by (induction rule: exec_reach.induct) (auto intro: rtranclp.rtrancl_into_rtrancl movesI)
  from execution.reach_kept [OF this, of a] assms(2-) show ?thesis by blast
qed

lemma exec_run_reach: "exec_run es x = Some x' \<Longrightarrow> exec_reach x0 x \<Longrightarrow> exec_reach x0 x'"
  by (induction es arbitrary: x) (auto split: bind_splits intro: exec_next)

section \<open>Properties\<close>

lemma buildEnv_set:
  assumes "gomap_ok (sp_Env sp)"
  shows "set (buildEnv lookupEnv rt sp) = {k @ ''='' @ v | k v. child_var lookupEnv rt sp k = Some v}"
proof -
  have "(k, v) \<in> set (env_map lookupEnv rt sp) \<longleftrightarrow> child_var lookupEnv rt sp k = Some v" for k v
    using gomap_ok_env_map [of lookupEnv rt sp] env_map_lookup [OF assms] by (metis map_of_eq_Some_iff)
  then have env_map_set: "set (env_map lookupEnv rt sp) = {(k, v). child_var lookupEnv rt sp k = Some v}"
    by auto
  show ?thesis unfolding buildEnv_def set_map env_map_set entries_of by simp
qed

text \<open>
  The environment of a run is exactly: the request's own variables, then the nine settings of
  the server for this run, then the allowlisted variables of the server, in this order of
  precedence, each variable once.
\<close>

theorem env_exact:
  assumes "gomap_ok (sp_Env sp)"
  shows "set (buildEnv lookupEnv rt sp) = {k @ ''='' @ v | k v. child_var lookupEnv rt sp k = Some v} \<and>
    distinct (map fst (env_map lookupEnv rt sp))"
  using buildEnv_set [OF assms] gomap_ok_env_map by blast

definition sample_runtime :: runtime where
  "sample_runtime =
     \<lparr>rt_AutomationDir = ''/a'', rt_PlaywrightCLI = ''/a/cli.js'', rt_NodeBin = ''node'', rt_ReceiptsDir = ''/a/rec''\<rparr>"

definition sample_spec :: spec where
  "sample_spec =
     \<lparr>sp_Workflow = sample_workflow, sp_Layout = \<lparr>Root = ''/r/x''\<rparr>,
      sp_Env = [(''ENV'', ''TST''), (''PW_TRACE'', ''on'')], sp_TimeoutSeconds = 600\<rparr>"

theorem env_exact_witness:
  "''PW_TRACE=on'' \<in> set (buildEnv (\<lambda>k. if k = ''TA_USER_ID'' then Some ''x'' else None) sample_runtime sample_spec)"
proof -
  let ?l = "\<lambda>k. if k = ''TA_USER_ID'' then Some ''x'' else None"
  have "child_var ?l sample_runtime sample_spec ''PW_TRACE'' = Some ''on''"
    by (simp add: child_var_def sample_spec_def)
  moreover have "''PW_TRACE=on'' = ''PW_TRACE'' @ ''='' @ ''on''" by simp
  moreover have "gomap_ok (sp_Env sample_spec)" by (simp add: sample_spec_def)
  from env_exact [OF this, of ?l sample_runtime]
  have "set (buildEnv ?l sample_runtime sample_spec) =
      {k @ ''='' @ v | k v. child_var ?l sample_runtime sample_spec k = Some v}" by blast
  ultimately show ?thesis by blast
qed

text \<open>
  C30. Isolation from the server's own environment: two server environments that agree on the twelve
  allowlisted variables give a run the same environment, so a stray \<open>TA_USER_ID\<close> or \<open>ENV\<close>
  exported on the server reaches no run.
\<close>

theorem env_isolation:
  assumes "\<forall>k \<in> set passthrough. lookupEnv k = lookupEnv' k"
  shows "child_command lookupEnv rt sp = child_command lookupEnv' rt sp"
proof -
  have "List.map_filter (\<lambda>k. map_option (Pair k) (lookupEnv k)) ks =
      List.map_filter (\<lambda>k. map_option (Pair k) (lookupEnv' k)) ks" if "set ks \<subseteq> set passthrough" for ks
    using that assms by (induction ks) (auto simp: map_filter_simps split: option.splits)
  then show ?thesis by (simp add: child_command_def buildEnv_def env_map_def)
qed

theorem env_isolation_witness:
  "child_command (\<lambda>k. if k = ''TA_USER_ID'' then Some ''x'' else None) sample_runtime sample_spec =
   child_command (\<lambda>_. None) sample_runtime sample_spec"
  by (rule env_isolation) (simp add: passthrough_def)

text \<open>
  The timeout given to Playwright: as long as the wall clock fits a \<open>time.Duration\<close>, it is two
  minutes less than the wall clock but at least thirty seconds, it reads back as that many
  milliseconds, and it is before the wall clock exactly when the run has more than thirty seconds.
\<close>

theorem pw_timeout_exact:
  assumes "0 \<le> seconds" "seconds \<le> 9223372036"
  shows "pw_timeout seconds = max (30 * second_ns) (seconds * second_ns - 120 * second_ns) \<and>
    parse_int64 (itoa (Milliseconds (pw_timeout seconds))) = Some (max 30000 (seconds * 1000 - 120000)) \<and>
    (pw_timeout seconds < wall_clock seconds) = (30 < seconds)"
proof -
  have w: "wall_clock seconds = seconds * second_ns"
    using assms by (simp add: wall_clock_def second_ns_def wrap64_in in_int64_def)
  have "wrap64 (seconds * second_ns - playwrightGrace) = seconds * second_ns - 120 * second_ns"
    using assms by (simp add: playwrightGrace_def second_ns_def wrap64_in in_int64_def)
  then have p: "pw_timeout seconds = max (30 * second_ns) (seconds * second_ns - 120 * second_ns)"
    by (simp add: pw_timeout_def w Let_def max_def)
  have "pw_timeout seconds = max 30000 (seconds * 1000 - 120000) * 1000000"
    by (auto simp: p second_ns_def max_def)
  then have "Milliseconds (pw_timeout seconds) = max 30000 (seconds * 1000 - 120000)"
    by (simp add: Milliseconds_def abs_mult)
  moreover have "in_int64 (max 30000 (seconds * 1000 - 120000))"
    using assms by (simp add: in_int64_def)
  moreover have "(pw_timeout seconds < wall_clock seconds) = (30 < seconds)"
    by (auto simp: p w second_ns_def)
  ultimately show ?thesis using p by (simp add: parse_itoa)
qed

theorem pw_timeout_exact_witness:
  "pw_timeout 600 = 480 * second_ns \<and> \<not> pw_timeout 20 < wall_clock 20"
  using pw_timeout_exact [of 600] pw_timeout_exact [of 20] by (simp add: second_ns_def)

text \<open>The start of \<open>Execute\<close> on a fresh buffer satisfies the invariants.\<close>

lemma Execute_start_ok:
  assumes "Execute ce pe st rt sp buf = Some (Inr (pid, x0))" "open_buffer buf []"
  shows "control_ok x0 \<and> data_ok (announcement rt sp) x0 \<and> buffer_ok x0"
proof -
  obtain b where b: "Append (announcement rt sp) buf = Some b" "x0 = exec_start b (announcement rt sp)"
    using assms(1) by (auto simp: Execute_def split: option.splits sum.splits)
  have "open_buffer b [StripANSI (announcement rt sp)]"
    using ring.wr_rep [OF assms(2), of "announcement rt sp"] b(1) by auto
  then show ?thesis using exec_start_ok b(2) by blast
qed

lemma New_open: "open_buffer (logbuf_New c) []"
  by (simp add: open_buffer_def holds_def chans_ok_def logbuf_New_def number_def)

lemma sample_Execute:
  "\<exists>x0. Execute None None (Inr 7) sample_runtime sample_spec (logbuf_New 9) = Some (Inr (7, x0)) \<and>
     (\<exists>b. x0 = exec_start b (announcement sample_runtime sample_spec))"
  using ring.wr_rep [OF New_open, of "announcement sample_runtime sample_spec" 9]
  by (auto simp: Execute_def)

text \<open>
  C17. What an outcome means, in every interleaving: \<open>timed_out\<close> is reported only when the deadline
  of the run passed, \<open>cancelled\<close> only when its context was cancelled, \<open>succeeded\<close> only when the
  child exited with 0, \<open>failed\<close> only when it exited with another code, \<open>errored\<close> only with an error
  of \<open>Wait\<close>; the state is always terminal, and a run whose context was never done reports exactly
  how the child exited.
\<close>

theorem outcome_sound:
  assumes "Execute ce pe st rt sp buf = Some (Inr (pid, x0))" "open_buffer buf []"
    and "exec_reach x0 x" "x_caller x = Returned out"
  shows "\<exists>w. x_child x = Some w \<and> Terminal (oc_State out) \<and>
    (oc_State out = StateTimedOut \<longrightarrow> x_ctx x = Some DeadlineExceeded) \<and>
    (oc_State out = StateCancelled \<longrightarrow> x_ctx x = Some ContextCanceled) \<and>
    (oc_State out = StateSucceeded \<longrightarrow> oc_ExitCode out = 0 \<and> w \<in> {WaitOk, WaitExit 0}) \<and>
    (oc_State out = StateFailed \<longrightarrow> oc_ExitCode out \<noteq> 0 \<and> w = WaitExit (oc_ExitCode out)) \<and>
    (oc_State out = StateErrored \<longrightarrow> (\<exists>e. w = WaitFailed e \<and> oc_Err out = Some e)) \<and>
    (x_ctx x = None \<longrightarrow> out = classify w None)"
proof -
  have "control_ok x"
    using exec_reach_ok [OF assms(3)] Execute_start_ok [OF assms(1,2)] by blast
  then obtain w k where wk: "x_child x = Some w" "out = classify w k"
    "k = None \<or> (\<exists>r. x_ctx x = Some r \<and> k = Some (stop_state r))"
    using assms(4) by (auto simp: control_ok_def split: option.splits)
  have neq: "StateTimedOut \<noteq> StateCancelled" "StateTimedOut \<noteq> StateSucceeded" "StateTimedOut \<noteq> StateFailed"
    "StateTimedOut \<noteq> StateErrored" "StateCancelled \<noteq> StateSucceeded" "StateCancelled \<noteq> StateFailed"
    "StateCancelled \<noteq> StateErrored" "StateSucceeded \<noteq> StateFailed" "StateSucceeded \<noteq> StateErrored"
    "StateFailed \<noteq> StateErrored" by (simp_all add: state_defs)
  consider "k = None" | "x_ctx x = Some DeadlineExceeded" "k = Some StateTimedOut"
    | "x_ctx x = Some ContextCanceled" "k = Some StateCancelled"
    using wk(3) by (metis stop_reason.exhaust stop_reason.simps(3,4) stop_state_def)
  then show ?thesis
    by cases (cases w; simp add: wk(1,2) classify_def neq neq [symmetric])+
qed

theorem outcome_sound_witness:
  "\<exists>(x :: exec_state) w. x_caller x = Returned \<lparr>oc_ExitCode = -1, oc_State = StateTimedOut, oc_Err = None\<rparr> \<and>
     x_child x = Some w \<and> x_ctx x = Some DeadlineExceeded"
proof -
  obtain x0 b where x0: "Execute None None (Inr 7) sample_runtime sample_spec (logbuf_New 9) = Some (Inr (7, x0))"
    "x0 = exec_start b (announcement sample_runtime sample_spec)"
    using sample_Execute by blast
  obtain x where x: "exec_run [ContextDone DeadlineExceeded, WatcherFires, ChildExits (WaitExit (-1)),
      CallerWaits, ReaderEnds, CallerReturns] x0 = Some x"
    "x_caller x = Returned \<lparr>oc_ExitCode = -1, oc_State = StateTimedOut, oc_Err = None\<rparr>"
    by (simp add: x0(2) exec_start_def classify_def stop_state_def)
  from outcome_sound [OF x0(1) New_open exec_run_reach [OF x(1) exec_init] x(2)]
  obtain w where "x_child x = Some w" "x_ctx x = Some DeadlineExceeded" by auto
  with x(2) show ?thesis by blast
qed



definition internal :: "exec_event \<Rightarrow> bool" where
  "internal e = (case e of ChildWrites _ \<Rightarrow> False | ChildExits _ \<Rightarrow> False | ContextDone _ \<Rightarrow> False | _ \<Rightarrow> True)"

definition exec_left :: "exec_state \<Rightarrow> nat" where
  "exec_left x =
     (if x_reading x then 1 else 0) + length (x_pipe x) +
     (case x_watcher x of Watching \<Rightarrow> 2 | Killing \<Rightarrow> 1 | WatcherGone \<Rightarrow> 0) +
     (case x_caller x of InWait \<Rightarrow> 2 | Waited _ \<Rightarrow> 1 | Returned _ \<Rightarrow> 0)"

lemma internal_decreases:
  assumes "internal e" "exec_step e x = Some x'"
  shows "exec_left x' < exec_left x"
proof -
  consider "e = ReaderTakes" | err where "e = WatcherKilled err"
    | "e \<noteq> ReaderTakes" "\<And>err. e \<noteq> WatcherKilled err" by blast
  then show ?thesis
  proof cases
    case 1
    with assms(2) have "exec_step ReaderTakes x = Some x'" by simp
    then show ?thesis by (rule reader_takes) (simp_all add: exec_left_def)
  next
    case 2
    with assms(2) have "exec_step (WatcherKilled err) x = Some x'" by simp
    then show ?thesis by (rule watcher_killed) (simp_all add: exec_left_def)
  next
    case 3
    with assms show ?thesis
      by (cases e) (auto simp: internal_def exec_left_def split: if_splits option.splits caller.splits)
  qed
qed

text \<open>
  C31. \<open>Execute\<close> returns: every step of one of its own goroutines leaves less to do, and once the
  child has exited one of them can go on until the caller has returned, whatever the watcher does.
\<close>

theorem execute_returns:
  assumes "Execute ce pe st rt sp buf = Some (Inr (pid, x0))" "open_buffer buf []"
    and "exec_reach x0 x" "x_child x \<noteq> None"
  shows "(\<forall>e x'. internal e \<and> exec_step e x = Some x' \<longrightarrow> exec_left x' < exec_left x) \<and>
    ((\<exists>out. x_caller x = Returned out) \<or>
     (\<exists>e x'. e \<in> {CallerWaits, ReaderEnds, CallerReturns} \<and> exec_step e x = Some x'))"
proof (intro conjI allI impI)
  fix e x'
  assume "internal e \<and> exec_step e x = Some x'"
  then show "exec_left x' < exec_left x" by (blast intro: internal_decreases)
next
  have "control_ok x"
    using exec_reach_ok [OF assms(3)] Execute_start_ok [OF assms(1,2)] by blast
  then show "(\<exists>out. x_caller x = Returned out) \<or>
      (\<exists>e x'. e \<in> {CallerWaits, ReaderEnds, CallerReturns} \<and> exec_step e x = Some x')"
    using assms(4) by (cases "x_caller x"; cases "x_reading x") (auto simp: control_ok_def)
qed

theorem execute_returns_witness:
  "\<exists>x e x'. x_child x = Some WaitOk \<and> e \<in> {CallerWaits, ReaderEnds, CallerReturns} \<and> exec_step e x = Some x'"
proof -
  obtain x0 b where x0: "Execute None None (Inr 7) sample_runtime sample_spec (logbuf_New 9) = Some (Inr (7, x0))"
    "x0 = exec_start b (announcement sample_runtime sample_spec)"
    using sample_Execute by blast
  obtain x where x: "exec_run [ChildExits WaitOk] x0 = Some x" "x_child x = Some WaitOk" "x_caller x = InWait"
    by (simp add: x0(2) exec_start_def)
  from execute_returns [OF x0(1) New_open exec_run_reach [OF x(1) exec_init]] x(2,3)
  show ?thesis by fastforce
qed

text \<open>
  Output can be lost: \<open>cmd.Wait\<close> closes the pipe when the child exits, whether or not the reader
  has taken everything, so a run can succeed with the child's last line in neither log.
\<close>

theorem output_lost:
  "\<exists>x. exec_reach (exec_start b a) x \<and>
     x_caller x = Returned \<lparr>oc_ExitCode = 0, oc_State = StateSucceeded, oc_Err = None\<rparr> \<and>
     x_written x = [l] \<and> x_file x = [] \<and> x_said x = [a]"
proof -
  obtain x where x: "exec_run [ChildWrites l, ChildExits WaitOk, CallerWaits, ReaderEnds, CallerReturns]
      (exec_start b a) = Some x"
    "x_caller x = Returned \<lparr>oc_ExitCode = 0, oc_State = StateSucceeded, oc_Err = None\<rparr>"
    "x_written x = [l]" "x_file x = []" "x_said x = [a]"
    by (simp add: exec_start_def classify_def)
  from exec_run_reach [OF x(1) exec_init] x show ?thesis by blast
qed

end
