(* ===== verification/Sha1.thy ===== *)
theory Sha1
  imports Strconv
begin

text \<open>
  \<open>crypto/sha1\<close>: the digest from which the program makes the opaque ids of artifacts. The
  message schedule is kept newest word first.
\<close>

unbundle bit_operations_syntax

type_synonym w32 = "32 word"

definition rotl :: "nat \<Rightarrow> w32 \<Rightarrow> w32" where
  "rotl n x = push_bit n x OR drop_bit (32 - n) x"

definition sha_bytes :: "go_string \<Rightarrow> nat list" where
  "sha_bytes s =
     (let n = length s;
          zeros = (119 - n mod 64) mod 64;
          bits = 8 * n
      in map of_char s @ [128] @ replicate zeros 0 @
         map (\<lambda>i. bits div 256 ^ (7 - i) mod 256) [0..<8])"

fun be_words :: "nat list \<Rightarrow> w32 list" where
  "be_words (a # b # c # d # r) = of_nat (((a * 256 + b) * 256 + c) * 256 + d) # be_words r"
| "be_words _ = []"

fun blocks16 :: "nat \<Rightarrow> w32 list \<Rightarrow> w32 list list" where
  "blocks16 0 ws = []"
| "blocks16 (Suc n) ws = take 16 ws # blocks16 n (drop 16 ws)"

fun schedule :: "nat \<Rightarrow> w32 list \<Rightarrow> w32 list" where
  "schedule 0 ws = ws"
| "schedule (Suc n) ws = schedule n (rotl 1 (ws ! 2 XOR ws ! 7 XOR ws ! 13 XOR ws ! 15) # ws)"

type_synonym sha_state = "w32 \<times> w32 \<times> w32 \<times> w32 \<times> w32"

definition sha_round :: "nat \<times> w32 \<Rightarrow> sha_state \<Rightarrow> sha_state" where
  "sha_round tw st =
     (case tw of (t, w) \<Rightarrow> case st of (a, b, c, d, e) \<Rightarrow>
        let f = (if t < 20 then (b AND c) OR (NOT b AND d)
                 else if t < 40 then b XOR c XOR d
                 else if t < 60 then (b AND c) OR (b AND d) OR (c AND d)
                 else b XOR c XOR d);
            k = (if t < 20 then 0x5A827999 else if t < 40 then 0x6ED9EBA1
                 else if t < 60 then 0x8F1BBCDC else 0xCA62C1D6)
        in (rotl 5 a + f + e + k + w, a, rotl 30 b, c, d))"

definition sha_block :: "w32 list \<Rightarrow> sha_state \<Rightarrow> sha_state" where
  "sha_block blk st =
     (let ws = rev (schedule 64 (rev blk)) in
      case fold sha_round (zip [0..<80] ws) st of (a', b', c', d', e') \<Rightarrow>
        case st of (a, b, c, d, e) \<Rightarrow> (a + a', b + b', c + c', d + d', e + e'))"

definition word_bytes :: "w32 \<Rightarrow> 8 word list" where
  "word_bytes w = map (\<lambda>i. of_nat (unat w div 256 ^ (3 - i) mod 256)) [0..<4]"

definition sha1_Sum :: "go_string \<Rightarrow> 8 word list" where
  "sha1_Sum s =
     (let bs = sha_bytes s in
      case fold sha_block (blocks16 (length bs div 64) (be_words bs))
          (0x67452301, 0xEFCDAB89, 0x98BADCFE, 0x10325476, 0xC3D2E1F0) of
        (a, b, c, d, e) \<Rightarrow> concat (map word_bytes [a, b, c, d, e]))"

lemma length_sha1 [simp]: "length (sha1_Sum s) = 20"
  by (simp add: sha1_Sum_def word_bytes_def Let_def split_beta)

end
