(* ===== verification/Results.thy ===== *)
theory Results
  imports Run Layout Sha1 Complex_Main "HOL-Library.Multiset"
begin

text \<open>
  \<open>internal/run/results.go\<close>: the summary read from Playwright's JSON report and the list of
  artifacts found under the run's output directory. The decoded report, or \<open>None\<close> when the file
  cannot be read or decoded, and the entries that \<open>filepath.WalkDir\<close> visits are arguments.
  A float64 is a rational number; \<open>int64(math.Round(x))\<close> is taken in the range of int64.
\<close>

section \<open>The report\<close>

record pw_result =
  res_Status :: go_string
  res_Duration :: rat
  res_Message :: go_string

record pw_test =
  test_Status :: go_string
  test_Results :: "pw_result list"

record pw_spec =
  spec_Title :: go_string
  spec_Ok :: bool
  spec_Tests :: "pw_test list"

datatype pw_suite = Suite (suite_Title: go_string) (suite_Specs: "pw_spec list") (suite_Suites: "pw_suite list")

record pw_stats =
  st_Expected :: int
  st_Unexpected :: int
  st_Skipped :: int
  st_Flaky :: int
  st_Duration :: rat

record pw_report =
  rep_Stats :: pw_stats
  rep_Suites :: "pw_suite list"

text \<open>\<open>math.Round\<close>: half away from zero.\<close>

definition go_round :: "rat \<Rightarrow> int" where
  "go_round x = (if 0 \<le> x then \<lfloor>x + 1 / 2\<rfloor> else - \<lfloor>- x + 1 / 2\<rfloor>)"

text \<open>The separator of titles, a space, U+203A in UTF-8 and a space.\<close>

definition sep :: go_string where
  "sep = [CHR '' '', CHR 0xE2, CHR 0x80, CHR 0xBA, CHR '' '']"

definition join_title :: "go_string \<Rightarrow> go_string \<Rightarrow> go_string" where
  "join_title prefix title = trim_prefix (prefix @ sep @ title) sep"

definition add_result :: "pw_result \<Rightarrow> test_result \<Rightarrow> test_result" where
  "add_result r tr =
     (let tr1 = tr\<lparr>tr_Duration := wrap64 (tr_Duration tr + go_round (res_Duration r))\<rparr>;
          tr2 = (if res_Message r \<noteq> [] \<and> tr_Error tr1 = [] then tr1\<lparr>tr_Error := res_Message r\<rparr> else tr1)
      in if res_Status r \<noteq> [] then tr2\<lparr>tr_Status := res_Status r\<rparr> else tr2)"

definition add_test :: "pw_test \<Rightarrow> test_result \<Rightarrow> test_result" where
  "add_test t tr = fold add_result (test_Results t) (tr\<lparr>tr_Status := test_Status t\<rparr>)"

definition spec_result :: "go_string \<Rightarrow> pw_spec \<Rightarrow> test_result" where
  "spec_result title sp =
     fold add_test (spec_Tests sp)
       \<lparr>tr_Title = join_title title (spec_Title sp), tr_Status = [], tr_Duration = 0, tr_Error = []\<rparr>"

fun walk :: "pw_suite \<Rightarrow> go_string \<Rightarrow> test_result list" where
  "walk (Suite t specs subs) prefix =
     (let title = join_title prefix t
      in map (spec_result title) specs @ concat (map (\<lambda>c. walk c title) subs))"

definition readSummary :: "pw_report option \<Rightarrow> summary option" where
  "readSummary report =
     (case report of
        None \<Rightarrow> None
      | Some rep \<Rightarrow>
          let tests = concat (map (\<lambda>s. walk s []) (rep_Suites rep)); st = rep_Stats rep
          in Some \<lparr>sum_Total = int (length tests), sum_Passed = st_Expected st,
                   sum_Failed = st_Unexpected st, sum_Skipped = st_Skipped st,
                   sum_Flaky = st_Flaky st, sum_Duration = go_round (st_Duration st),
                   sum_Tests = tests\<rparr>)"

section \<open>Artifacts\<close>

definition isInternal :: "go_string \<Rightarrow> bool" where
  "isInternal name \<longleftrightarrow> name = ''.last-run.json'' \<or> has_prefix name ''.playwright''"

definition artifactID :: "go_string \<Rightarrow> go_string" where
  "artifactID rel = EncodeToString (take 8 (sha1_Sum rel))"

definition newArtifact :: "go_string \<Rightarrow> int \<Rightarrow> artifact" where
  "newArtifact rel sz =
     (let name = path_Base rel;
          (kind, sensitive) =
            (if name = ''output.json'' then (ArtifactOutputJSON, False)
             else if name = ''policyViolations.csv'' then (ArtifactPolicyCSV, False)
             else if name = ''inputs.json'' then (ArtifactInputs, False)
             else if name = ''report.json'' then (ArtifactOther, False)
             else if has_prefix name ''trace'' \<and> has_suffix name ''.zip'' then (ArtifactTrace, True)
             else if has_suffix name ''.png'' \<or> has_suffix name ''.jpg'' then (ArtifactScreenshot, False)
             else if has_suffix name ''.webm'' then (ArtifactVideo, False)
             else (ArtifactOther, False));
          dir = path_Dir rel;
          testTitle = (if dir \<noteq> ''.'' \<and> dir \<noteq> ''output'' then path_Base dir else [])
      in \<lparr>art_ID = artifactID rel, art_Kind = kind, art_Name = name, art_TestTitle = testTitle,
          art_Size = sz, art_Sensitive = sensitive, art_Rel = rel\<rparr>)"

text \<open>An entry of the walk; \<open>we_Info\<close> is the size, \<open>None\<close> when \<open>d.Info\<close> fails.\<close>

record walk_entry =
  we_Path :: go_string
  we_Err :: bool
  we_IsDir :: bool
  we_Name :: go_string
  we_Info :: "int option"

definition visit :: "go_string option \<Rightarrow> layout \<Rightarrow> walk_entry \<Rightarrow> artifact list" where
  "visit cwd lay d =
     (if we_Err d \<or> we_IsDir d then []
      else
        case we_Info d of
          None \<Rightarrow> []
        | Some sz \<Rightarrow>
            if isInternal (we_Name d) then []
            else (case RelTo cwd lay (we_Path d) of Inl e \<Rightarrow> [] | Inr rel \<Rightarrow> [newArtifact rel sz]))"

text \<open>\<open>report\<close> is the size that \<open>os.Stat\<close> of \<open>report.json\<close> gives, \<open>None\<close> on an error.\<close>

definition scanArtifacts ::
  "go_string option \<Rightarrow> layout \<Rightarrow> walk_entry list \<Rightarrow> int option \<Rightarrow> artifact list" where
  "scanArtifacts cwd lay entries report =
     (let out = concat (map (visit cwd lay) entries);
          out' = (case report of
                    None \<Rightarrow> out
                  | Some sz \<Rightarrow>
                      (case RelTo cwd lay (ReportJSON lay) of
                         Inl e \<Rightarrow> out
                       | Inr rel \<Rightarrow> out @ [newArtifact rel sz]))
      in sort_key art_Rel out')"

record collected =
  col_report :: "pw_report option"
  col_entries :: "walk_entry list"
  col_report_size :: "int option"

definition Collect :: "go_string option \<Rightarrow> layout \<Rightarrow> collected \<Rightarrow> summary option \<times> artifact list" where
  "Collect cwd lay c =
     (readSummary (col_report c), scanArtifacts cwd lay (col_entries c) (col_report_size c))"

section \<open>Lemmas\<close>

lemma newArtifact_simps [simp]:
  "art_Rel (newArtifact rel sz) = rel" "art_ID (newArtifact rel sz) = artifactID rel"
  "art_Name (newArtifact rel sz) = path_Base rel" "art_Size (newArtifact rel sz) = sz"
  by (simp_all add: newArtifact_def Let_def split_beta)

lemma length_artifactID [simp]: "length (artifactID rel) = 16"
  by (simp add: artifactID_def)

lemma add_result_title [simp]: "tr_Title (add_result r tr) = tr_Title tr"
  by (simp add: add_result_def Let_def)

lemma fold_add_result_title [simp]: "tr_Title (fold add_result rs tr) = tr_Title tr"
  by (induction rs arbitrary: tr) simp_all

lemma fold_add_test_title [simp]: "tr_Title (fold add_test ts tr) = tr_Title tr"
  by (induction ts arbitrary: tr) (simp_all add: add_test_def)

lemma spec_result_title [simp]: "tr_Title (spec_result t sp) = join_title t (spec_Title sp)"
  by (simp add: spec_result_def)

text \<open>The specs of a suite with the titles on the way to them, in the order of the walk.\<close>

fun spec_paths :: "go_string list \<Rightarrow> pw_suite \<Rightarrow> (go_string list \<times> pw_spec) list" where
  "spec_paths ts (Suite t specs subs) =
     map (\<lambda>sp. (ts @ [t, spec_Title sp], sp)) specs @ concat (map (spec_paths (ts @ [t])) subs)"

text \<open>Empty titles at the top are skipped, as the prefix is then empty.\<close>

definition full_title :: "go_string list \<Rightarrow> go_string" where
  "full_title ts = join_with sep (dropWhile (\<lambda>t. t = []) ts)"

text \<open>No title begins with the separator's first four bytes.\<close>

definition sep4 :: go_string where
  "sep4 = [CHR '' '', CHR 0xE2, CHR 0x80, CHR 0xBA]"

definition titles_ok :: "go_string list \<Rightarrow> bool" where
  "titles_ok ts \<longleftrightarrow> (\<forall>t \<in> set ts. \<not> has_prefix t sep4)"

lemma no_sep4_append:
  assumes "a \<noteq> []" "\<not> has_prefix a sep4"
  shows "\<not> has_prefix (a @ sep @ b) sep4"
proof (cases "4 \<le> length a")
  case True
  with assms(2) show ?thesis by (simp add: has_prefix_def sep4_def)
next
  case False
  moreover have "length a \<noteq> 0" using assms(1) by simp
  ultimately have "length a = 1 \<or> length a = 2 \<or> length a = 3" by arith
  then show ?thesis
    by (auto simp: length_Suc_conv numeral_eq_Suc has_prefix_def sep4_def sep_def)
qed

lemma has_prefix_sep: "has_prefix s sep \<Longrightarrow> has_prefix s sep4"
  by (auto simp: has_prefix_iff sep_def sep4_def)

lemma join_title_eq:
  "\<not> has_prefix p sep4 \<Longrightarrow> join_title p t = (if p = [] then t else p @ sep @ t)"
proof (cases "p = []")
  assume "\<not> has_prefix p sep4"
  moreover assume "p \<noteq> []"
  ultimately have "\<not> has_prefix (p @ sep @ t) sep"
    using no_sep4_append [of p t] has_prefix_sep by blast
  with \<open>p \<noteq> []\<close> show ?thesis by (simp add: join_title_def)
qed (simp add: join_title_def)

lemma titles_ok_snoc: "titles_ok (ts @ [t]) \<longleftrightarrow> titles_ok ts \<and> \<not> has_prefix t sep4"
  by (auto simp: titles_ok_def)

lemma full_title_snoc:
  "full_title (ts @ [t]) = (if full_title ts = [] then t else full_title ts @ sep @ t)"
proof -
  have j: "us \<noteq> [] \<Longrightarrow> hd us \<noteq> [] \<Longrightarrow> join_with sep us \<noteq> []" for us :: "go_string list"
    by (cases us; cases "tl us") auto
  have a: "us \<noteq> [] \<Longrightarrow> join_with sep (us @ [t]) = join_with sep us @ sep @ t" for us
  proof (induction us)
    case (Cons u us)
    then show ?case by (cases "us = []") (simp_all add: join_with_Cons)
  qed simp
  show ?thesis
  proof (cases "\<forall>u \<in> set ts. u = []")
    case True
    then have "dropWhile (\<lambda>t. t = []) ts = []" by (simp add: dropWhile_eq_Nil_conv)
    then have "full_title ts = []" unfolding full_title_def by (simp only: join_with.simps)
    moreover have "full_title (ts @ [t]) = t"
      using True by (cases "t = []") (simp_all add: full_title_def dropWhile_append2)
    ultimately show ?thesis by simp
  next
    case False
    then have "dropWhile (\<lambda>t. t = []) ts \<noteq> []" by (simp add: dropWhile_eq_Nil_conv)
    moreover from this have "hd (dropWhile (\<lambda>t. t = []) ts) \<noteq> []" by (rule hd_dropWhile)
    ultimately show ?thesis
      using False a [of "dropWhile (\<lambda>t. t = []) ts"] j [of "dropWhile (\<lambda>t. t = []) ts"]
      by (auto simp: full_title_def dropWhile_append1)
  qed
qed

lemma full_title_ok: "titles_ok ts \<Longrightarrow> \<not> has_prefix (full_title ts) sep4"
proof (induction ts rule: rev_induct)
  case Nil
  show ?case by (simp add: full_title_def has_prefix_def sep4_def)
next
  case (snoc t ts)
  then show ?case using no_sep4_append [of "full_title ts" t] by (auto simp: full_title_snoc titles_ok_snoc)
qed

lemma join_title_full:
  "titles_ok ts \<Longrightarrow> join_title (full_title ts) t = full_title (ts @ [t])"
  by (simp add: join_title_eq full_title_ok full_title_snoc)

fun suites_ok :: "pw_suite \<Rightarrow> bool" where
  "suites_ok (Suite t specs subs) = (\<not> has_prefix t sep4 \<and> list_all suites_ok subs)"

lemma walk_titles:
  "suites_ok s \<Longrightarrow> titles_ok ts \<Longrightarrow>
   map tr_Title (walk s (full_title ts)) = map (\<lambda>p. full_title (fst p)) (spec_paths ts s)"
proof (induction s arbitrary: ts)
  case (Suite t specs subs)
  have ok: "titles_ok (ts @ [t])" using Suite.prems by (simp add: titles_ok_snoc)
  have "map tr_Title (walk c (full_title (ts @ [t]))) =
      map (\<lambda>p. full_title (fst p)) (spec_paths (ts @ [t]) c)" if "c \<in> set subs" for c
    using Suite.IH [OF that _ ok] Suite.prems(1) that by (simp add: list_all_iff)
  then have "map tr_Title (concat (map (\<lambda>c. walk c (full_title (ts @ [t]))) subs)) =
      map (\<lambda>p. full_title (fst p)) (concat (map (spec_paths (ts @ [t])) subs))"
    by (induction subs) auto
  then show ?case
    using ok by (simp add: Let_def join_title_full Suite.prems(2))
qed

lemma length_walk: "length (walk s p) = length (spec_paths ts s)"
proof (induction s arbitrary: p ts)
  case (Suite t specs subs)
  then show ?case by (induction subs) (auto simp: Let_def)
qed

text \<open>What the fold over the results of the tests of a spec computes.\<close>

definition spec_runs :: "pw_spec \<Rightarrow> pw_result list" where
  "spec_runs sp = concat (map test_Results (spec_Tests sp))"

definition first_error :: "pw_result list \<Rightarrow> go_string" where
  "first_error rs = (case filter (\<lambda>e. e \<noteq> []) (map res_Message rs) of [] \<Rightarrow> [] | e # _ \<Rightarrow> e)"

lemma add_result_error:
  "tr_Error (add_result r tr) = (if tr_Error tr = [] then res_Message r else tr_Error tr)"
  by (simp add: add_result_def Let_def)

lemma fold_add_result_error:
  "tr_Error (fold add_result rs tr) = (if tr_Error tr = [] then first_error rs else tr_Error tr)"
proof (induction rs arbitrary: tr)
  case Nil
  show ?case by (simp add: first_error_def)
next
  case (Cons r rs)
  show ?case by (simp add: Cons.IH add_result_error first_error_def)
qed

lemma first_error_append:
  "first_error (rs @ ss) = (if first_error rs = [] then first_error ss else first_error rs)"
  by (induction rs) (auto simp: first_error_def)

lemma spec_result_error: "tr_Error (spec_result t sp) = first_error (spec_runs sp)"
proof -
  have "tr_Error (fold add_test ts tr) =
      (if tr_Error tr = [] then first_error (concat (map test_Results ts)) else tr_Error tr)" for ts tr
    by (induction ts arbitrary: tr)
      (auto simp: add_test_def fold_add_result_error first_error_append, simp add: first_error_def)
  then show ?thesis by (simp add: spec_result_def spec_runs_def)
qed

lemma wrap64_add: "wrap64 (wrap64 a + b) = wrap64 (a + b)"
proof -
  have "(wrap64 a + b + 2 ^ 63) mod 2 ^ 64 = ((a + 2 ^ 63) mod 2 ^ 64 + b) mod 2 ^ 64"
    by (simp add: wrap64_def)
  also have "\<dots> = (a + b + 2 ^ 63) mod 2 ^ 64"
    by (simp only: mod_add_left_eq) (simp add: algebra_simps)
  finally show ?thesis by (simp only: wrap64_def)
qed

lemma fold_add_result_duration:
  "in_int64 (tr_Duration tr) \<Longrightarrow>
   tr_Duration (fold add_result rs tr) =
     wrap64 (tr_Duration tr + sum_list (map (\<lambda>r. go_round (res_Duration r)) rs))"
proof (induction rs arbitrary: tr)
  case Nil
  then show ?case by (simp add: wrap64_in)
next
  case (Cons r rs)
  have d: "tr_Duration (add_result r tr) = wrap64 (tr_Duration tr + go_round (res_Duration r))"
    by (simp add: add_result_def Let_def)
  show ?case
    using Cons.IH [of "add_result r tr"]
    by (simp add: d wrap64_range wrap64_add add.assoc)
qed

lemma fold_add_test_duration:
  "in_int64 (tr_Duration tr) \<Longrightarrow>
   tr_Duration (fold add_test ts tr) =
     wrap64 (tr_Duration tr + sum_list (map (\<lambda>r. go_round (res_Duration r)) (concat (map test_Results ts))))"
proof (induction ts arbitrary: tr)
  case Nil
  then show ?case by (simp add: wrap64_in)
next
  case (Cons t ts)
  have d: "tr_Duration (add_test t tr) =
      wrap64 (tr_Duration tr + sum_list (map (\<lambda>r. go_round (res_Duration r)) (test_Results t)))"
    using fold_add_result_duration [of "tr\<lparr>tr_Status := test_Status t\<rparr>"] Cons.prems
    by (simp add: add_test_def)
  show ?case
    using Cons.IH [of "add_test t tr"]
    by (simp add: d wrap64_range wrap64_add add.assoc)
qed

text \<open>The status a list of results leaves: the last one that is not empty.\<close>

definition last_status :: "go_string \<Rightarrow> pw_result list \<Rightarrow> go_string" where
  "last_status start rs = last (start # filter (\<lambda>x. x \<noteq> []) (map res_Status rs))"

lemma fold_add_result_status:
  "tr_Status (fold add_result rs tr) = last_status (tr_Status tr) rs"
  by (induction rs arbitrary: tr) (auto simp: last_status_def add_result_def Let_def)

section \<open>Properties\<close>

text \<open>
  The summary: for a report whose suite titles do not start with the separator, there is one
  test result per spec of the tree, in the order of the walk, titled with the non-empty path of
  titles that leads to it, \<open>Total\<close> is their number, and the counters are those of the report.
\<close>

theorem summary_covers_specs:
  assumes "readSummary (Some rep) = Some s" "list_all suites_ok (rep_Suites rep)"
  shows "map tr_Title (sum_Tests s) =
      map (\<lambda>p. full_title (fst p)) (concat (map (spec_paths []) (rep_Suites rep))) \<and>
    sum_Total s = int (length (concat (map (spec_paths []) (rep_Suites rep)))) \<and>
    (sum_Passed s, sum_Failed s, sum_Skipped s, sum_Flaky s) =
      (st_Expected (rep_Stats rep), st_Unexpected (rep_Stats rep), st_Skipped (rep_Stats rep),
       st_Flaky (rep_Stats rep))"
proof -
  have f: "full_title [] = []" by (simp add: full_title_def)
  have "map tr_Title (concat (map (\<lambda>s. walk s []) ss)) =
      map (\<lambda>p. full_title (fst p)) (concat (map (spec_paths []) ss))" if "list_all suites_ok ss" for ss
    using that walk_titles [where ts = "[]"] by (induction ss) (auto simp: titles_ok_def f)
  from this [OF assms(2)] have t: "map tr_Title (sum_Tests s) =
      map (\<lambda>p. full_title (fst p)) (concat (map (spec_paths []) (rep_Suites rep)))"
    using assms(1) by (auto simp: readSummary_def Let_def)
  have "length (sum_Tests s) = length (concat (map (spec_paths []) (rep_Suites rep)))"
    using arg_cong [OF t, of length] by simp
  moreover have "sum_Total s = int (length (sum_Tests s)) \<and>
    (sum_Passed s, sum_Failed s, sum_Skipped s, sum_Flaky s) =
      (st_Expected (rep_Stats rep), st_Unexpected (rep_Stats rep), st_Skipped (rep_Stats rep),
       st_Flaky (rep_Stats rep))"
    using assms(1) by (auto simp: readSummary_def Let_def)
  ultimately show ?thesis using t by simp
qed

definition sample_report :: pw_report where
  "sample_report =
     \<lparr>rep_Stats = \<lparr>st_Expected = 0, st_Unexpected = 1, st_Skipped = 0, st_Flaky = 0, st_Duration = 5 / 2\<rparr>,
      rep_Suites = [Suite ''a.spec.js'' []
        [Suite ''group'' [\<lparr>spec_Title = ''works'', spec_Ok = False, spec_Tests =
          [\<lparr>test_Status = ''unexpected'', test_Results =
             [\<lparr>res_Status = ''failed'', res_Duration = 3 / 2, res_Message = ''boom''\<rparr>,
              \<lparr>res_Status = [], res_Duration = 1 / 2, res_Message = ''later''\<rparr>]\<rparr>]\<rparr>] []]]\<rparr>"

theorem summary_covers_specs_witness:
  "\<exists>s. readSummary (Some sample_report) = Some s \<and> sum_Total s = 1 \<and>
     map tr_Title (sum_Tests s) = [''a.spec.js'' @ sep @ ''group'' @ sep @ ''works'']"
proof -
  obtain s where s: "readSummary (Some sample_report) = Some s"
    by (simp add: readSummary_def Let_def)
  have "list_all suites_ok (rep_Suites sample_report)"
    by (simp add: sample_report_def has_prefix_def sep4_def)
  from summary_covers_specs [OF s this] s show ?thesis
    by (auto simp: sample_report_def full_title_def)
qed

text \<open>
  One test result: its error is the first non-empty message of all its attempts, its duration
  the sum of their rounded durations (as an int64), and its status the last non-empty status of
  the attempts of its last test, or the status of that test when all of them are empty.
\<close>

theorem spec_result_exact:
  "tr_Error (spec_result t sp) = first_error (spec_runs sp) \<and>
   tr_Duration (spec_result t sp) =
     wrap64 (sum_list (map (\<lambda>r. go_round (res_Duration r)) (spec_runs sp))) \<and>
   tr_Status (spec_result t sp) =
     (if spec_Tests sp = [] then []
      else last_status (test_Status (last (spec_Tests sp))) (test_Results (last (spec_Tests sp))))"
proof -
  have "in_int64 0" by (simp add: in_int64_def)
  then have "tr_Duration (spec_result t sp) =
      wrap64 (sum_list (map (\<lambda>r. go_round (res_Duration r)) (spec_runs sp)))"
    by (simp add: spec_result_def fold_add_test_duration spec_runs_def)
  moreover have "tr_Status (spec_result t sp) =
     (if spec_Tests sp = [] then []
      else last_status (test_Status (last (spec_Tests sp))) (test_Results (last (spec_Tests sp))))"
    by (cases "spec_Tests sp" rule: rev_cases)
      (simp_all add: spec_result_def add_test_def fold_add_result_status)
  ultimately show ?thesis by (simp add: spec_result_error)
qed

text \<open>
  Credentials: an artifact is marked sensitive exactly when its base name starts with
  \<open>trace\<close> and ends with \<open>.zip\<close>, whatever directory it is in, and then its kind is \<open>trace\<close>;
  no artifact of another kind is sensitive.
\<close>

theorem trace_iff_sensitive:
  "(art_Sensitive (newArtifact rel sz) \<longleftrightarrow>
      has_prefix (path_Base rel) ''trace'' \<and> has_suffix (path_Base rel) ''.zip'') \<and>
   (art_Kind (newArtifact rel sz) = ArtifactTrace \<longleftrightarrow> art_Sensitive (newArtifact rel sz))"
proof -
  have "\<not> has_prefix ''output.json'' ''trace''" "\<not> has_prefix ''policyViolations.csv'' ''trace''"
    "\<not> has_prefix ''inputs.json'' ''trace''" "\<not> has_prefix ''report.json'' ''trace''"
    by (simp_all add: has_prefix_def)
  then show ?thesis
    by (auto simp: newArtifact_def Let_def artifact_kind_defs)
qed

section \<open>The scan\<close>

definition visible :: "walk_entry \<Rightarrow> bool" where
  "visible d \<longleftrightarrow> \<not> we_Err d \<and> \<not> we_IsDir d \<and> we_Info d \<noteq> None \<and> \<not> isInternal (we_Name d)"

lemma visit_visible:
  "visit cwd lay d =
     (if visible d then (case RelTo cwd lay (we_Path d) of Inl e \<Rightarrow> [] | Inr rel \<Rightarrow> [newArtifact rel (the (we_Info d))])
      else [])"
  by (auto simp: visit_def visible_def split: option.splits sum.splits)






text \<open>
  A relative runs directory loses every artifact: the walk then visits relative paths, which
  \<open>filepath.Rel\<close> cannot express against the absolute form of the root, so each one is skipped and
  the list of artifacts is empty, whatever files the run produced.
\<close>

theorem relative_root_no_artifacts:
  assumes "cwd_ok cwd" "\<not> IsAbs (Root lay)" "\<forall>d \<in> set entries. \<not> IsAbs (we_Path d)"
  shows "scanArtifacts cwd lay entries report = []"
proof -
  have none: "\<exists>e. RelTo cwd lay p = Inl e" if "\<not> IsAbs p" for p
  proof (cases "Abs cwd (Root lay)")
    case (Some rt)
    then obtain cs where "list_all plain cs" "rt = abs_path cs"
      using Abs_abs [OF Some] assms(1) by (auto simp: cwd_ok_def split: option.splits)
    then show ?thesis using Some Rel_relative [OF that] by (simp add: RelTo_def)
  qed (simp add: RelTo_def)
  have "visit cwd lay d = []" if "d \<in> set entries" for d
    using none [of "we_Path d"] assms(3) that by (auto simp: visit_visible)
  then have "map (visit cwd lay) entries = map (\<lambda>_. []) entries" by simp
  moreover obtain e where "RelTo cwd lay (ReportJSON lay) = Inl e"
    using none [of "ReportJSON lay"] Join_relative [OF assms(2), of "''report.json''"]
    by (auto simp: ReportJSON_def plain_def)
  ultimately have "concat (map (visit cwd lay) entries) = []"
    "RelTo cwd lay (ReportJSON lay) = Inl e" by simp_all
  then show ?thesis
    unfolding scanArtifacts_def Let_def by (simp only: sum.case) (simp split: option.split)
qed

theorem relative_root_no_artifacts_witness:
  "scanArtifacts (Some ''/srv'') \<lparr>Root = ''runs/a''\<rparr>
     [\<lparr>we_Path = ''runs/a/output/t/trace.zip'', we_Err = False, we_IsDir = False,
       we_Name = ''trace.zip'', we_Info = Some 5\<rparr>] (Some 7) = []"
proof (rule relative_root_no_artifacts)
  show "cwd_ok (Some ''/srv'')" "\<not> IsAbs (Root \<lparr>Root = ''runs/a''\<rparr>)" by code_simp+
  show "\<forall>d \<in> set [\<lparr>we_Path = ''runs/a/output/t/trace.zip'', we_Err = False, we_IsDir = False,
       we_Name = ''trace.zip'', we_Info = Some 5\<rparr>]. \<not> IsAbs (we_Path d)" by code_simp
qed

end
