(* ===== verification/Kill.thy ===== *)
theory Kill
  imports Prelude
begin

text \<open>
  \<open>internal/run/kill_unix.go\<close>: \<open>KillTree\<close>, and its counterpart of \<open>kill_windows.go\<close>. What \<open>syscall.Kill\<close> answers is the environment:
  the answer to \<open>SIGTERM\<close>, one reading of the clock and one answer for every probe of the loop,
  and the answer to \<open>SIGKILL\<close>. The result is the list of signals sent to the group and the error.
\<close>

datatype kill_answer = KillOk | NoSuchProcess | KillFailed go_string

datatype signal = SIGTERM | Probe | SIGKILL

datatype kill_error = InvalidPid int | TermFailed int go_string | KillFailedErr int go_string

text \<open>
  The loop \<open>for time.Now().Before(deadline)\<close>: each observation is the clock at the test of the
  condition and the answer to the probe. \<open>Some True\<close>: the group is gone; \<open>Some False\<close>: the
  deadline has passed; \<open>None\<close>: the observations end before the loop does.
\<close>

fun probe_loop :: "int \<Rightarrow> (int \<times> kill_answer) list \<Rightarrow> signal list \<times> bool option" where
  "probe_loop deadline [] = ([], None)"
| "probe_loop deadline ((now, ans) # obs) =
     (if \<not> now < deadline then ([], Some False)
      else if ans = NoSuchProcess then ([Probe], Some True)
      else (case probe_loop deadline obs of (sent, r) \<Rightarrow> (Probe # sent, r)))"

definition kill_grace :: int where "kill_grace = 10 * 1000000000"
definition probe_pause :: int where "probe_pause = 200 * 1000000"

definition KillTree ::
  "int \<Rightarrow> kill_answer \<Rightarrow> int \<Rightarrow> (int \<times> kill_answer) list \<Rightarrow> kill_answer \<Rightarrow>
   (signal list \<times> kill_error option) option" where
  "KillTree pid term_ans start obs kill_ans =
     (if pid \<le> 0 then Some ([], Some (InvalidPid pid))
      else
        case term_ans of
          NoSuchProcess \<Rightarrow> Some ([SIGTERM], None)
        | KillFailed e \<Rightarrow> Some ([SIGTERM], Some (TermFailed pid e))
        | KillOk \<Rightarrow>
            (case probe_loop (start + kill_grace) obs of
               (sent, None) \<Rightarrow> None
             | (sent, Some True) \<Rightarrow> Some (SIGTERM # sent, None)
             | (sent, Some False) \<Rightarrow>
                 Some (SIGTERM # sent @ [SIGKILL],
                   case kill_ans of KillFailed e \<Rightarrow> Some (KillFailedErr pid e) | _ \<Rightarrow> None)))"

text \<open>
  On Windows \<open>taskkill /F /T\<close> does the work; it succeeds, ends with an exit code and its output, or
  cannot be run. Exit code 128 says that there is no such process.
\<close>

datatype taskkill_result = TaskkillOk | TaskkillExited int go_string | TaskkillNotRun go_string

datatype windows_kill_error = InvalidWindowsPid int | TaskkillFailed int taskkill_result

definition KillTree_windows :: "int \<Rightarrow> taskkill_result \<Rightarrow> windows_kill_error option" where
  "KillTree_windows pid res =
     (if pid \<le> 0 then Some (InvalidWindowsPid pid)
      else
        case res of
          TaskkillOk \<Rightarrow> None
        | TaskkillExited code out \<Rightarrow> if code = 128 then None else Some (TaskkillFailed pid res)
        | TaskkillNotRun e \<Rightarrow> Some (TaskkillFailed pid res))"

lemma KillTree_windows_None:
  "KillTree_windows pid res = None \<longleftrightarrow> 0 < pid \<and> (res = TaskkillOk \<or> (\<exists>out. res = TaskkillExited 128 out))"
  by (auto simp: KillTree_windows_def split: taskkill_result.splits if_splits)

text \<open>Every iteration sleeps, so the clock advances by at least the pause between two tests.\<close>

fun paced :: "int \<Rightarrow> (int \<times> kill_answer) list \<Rightarrow> bool" where
  "paced t [] = True"
| "paced t ((now, ans) # obs) = (t \<le> now \<and> paced (now + probe_pause) obs)"

lemma probe_loop_enough:
  "paced t obs \<Longrightarrow> deadline \<le> t + int n * probe_pause \<Longrightarrow> n < length obs \<Longrightarrow>
   snd (probe_loop deadline obs) \<noteq> None"
proof (induction obs arbitrary: t n)
  case (Cons o1 obs)
  obtain now ans where o1: "o1 = (now, ans)" by (cases o1)
  show ?case
  proof (cases "now < deadline")
    case True
    with Cons.prems(1,2) o1 obtain m where m: "n = Suc m" by (cases n) auto
    have "paced (now + probe_pause) obs" "t \<le> now" using Cons.prems(1) o1 by auto
    moreover have "deadline \<le> now + probe_pause + int m * probe_pause"
      using Cons.prems(2) \<open>t \<le> now\<close> m by (simp add: algebra_simps)
    ultimately have "snd (probe_loop deadline obs) \<noteq> None"
      using Cons.IH Cons.prems(3) m by simp
    then show ?thesis using o1 by (auto split: prod.splits)
  qed (simp add: o1)
qed simp

lemma probe_loop_sent: "set (fst (probe_loop d obs)) \<subseteq> {Probe}"
  by (induction d obs rule: probe_loop.induct) (auto split: prod.splits)

lemma probe_loop_alive:
  "probe_loop d obs = (sent, Some False) \<Longrightarrow>
   \<exists>now ans. (now, ans) \<in> set obs \<and> d \<le> now \<and> (\<forall>p \<in> set (take (length sent) obs). snd p \<noteq> NoSuchProcess)"
proof (induction d obs arbitrary: sent rule: probe_loop.induct)
  case (2 deadline now ans obs)
  show ?case
  proof (cases "now < deadline \<and> ans \<noteq> NoSuchProcess")
    case True
    then obtain sent' where s: "probe_loop deadline obs = (sent', Some False)" "sent = Probe # sent'"
      using "2.prems" by (auto split: prod.splits if_splits)
    from True "2.IH" [OF _ _ s(1)] show ?thesis by (auto simp: s(2))
  next
    case False
    with "2.prems" show ?thesis by (auto split: if_splits)
  qed
qed simp

text \<open>
  \<open>KillTree\<close> returns: whatever the group does, 51 observations of a clock that advances by
  the 200 ms pause of every iteration are enough for the loop to end.
\<close>

theorem kill_tree_returns:
  assumes "paced start obs" "50 < length obs"
  shows "KillTree pid term_ans start obs kill_ans \<noteq> None"
proof -
  have "snd (probe_loop (start + kill_grace) obs) \<noteq> None"
    by (rule probe_loop_enough [OF assms(1), of _ 50])
      (use assms(2) in \<open>simp_all add: kill_grace_def probe_pause_def\<close>)
  then obtain sent r where "probe_loop (start + kill_grace) obs = (sent, Some r)"
    by (cases "probe_loop (start + kill_grace) obs") auto
  then show ?thesis
    by (cases r) (auto simp: KillTree_def split: kill_answer.splits)
qed

theorem kill_tree_returns_witness:
  "KillTree 7 KillOk 0 (map (\<lambda>i. (int i * probe_pause, KillOk)) [0..<51]) KillOk \<noteq> None"
proof (rule kill_tree_returns)
  show "paced 0 (map (\<lambda>i. (int i * probe_pause, KillOk)) [0..<51])" by code_simp
qed simp

text \<open>
  C39. Escalation: nothing is signalled for a pid that is not positive; \<open>SIGKILL\<close> is sent at most
  once, last, and only when a test of the clock found ten seconds gone since \<open>SIGTERM\<close> and no
  probe had reported the group gone.
\<close>

theorem kill_tree_escalation:
  assumes "KillTree pid term_ans start obs kill_ans = Some (sent, err)"
  shows "(pid \<le> 0 \<longrightarrow> sent = [] \<and> err = Some (InvalidPid pid)) \<and>
    (SIGKILL \<in> set sent \<longrightarrow>
       term_ans = KillOk \<and> last sent = SIGKILL \<and> SIGKILL \<notin> set (butlast sent) \<and>
       (\<exists>now ans. (now, ans) \<in> set obs \<and> start + kill_grace \<le> now) \<and>
       (\<forall>p \<in> set (take (length sent - 2) obs). snd p \<noteq> NoSuchProcess))"
proof -
  obtain ps r where pl: "probe_loop (start + kill_grace) obs = (ps, r)"
    by (cases "probe_loop (start + kill_grace) obs") auto
  have P: "SIGKILL \<notin> set ps" "SIGTERM \<notin> set ps"
    using probe_loop_sent [of "start + kill_grace" obs] pl by auto
  show ?thesis
  proof (cases "0 < pid \<and> term_ans = KillOk \<and> r = Some False")
    case True
    with assms pl have s: "sent = SIGTERM # ps @ [SIGKILL]" by (auto simp: KillTree_def)
    from True pl probe_loop_alive [of "start + kill_grace" obs ps] P
    show ?thesis by (auto simp: s butlast_append)
  next
    case False
    then show ?thesis
      using assms pl P
      by (cases r) (auto simp: KillTree_def split: if_splits kill_answer.splits bool.splits)
  qed
qed

theorem kill_tree_escalation_witness:
  "\<exists>sent. KillTree 7 KillOk 0 [(kill_grace, KillOk)] KillOk = Some (sent, None) \<and>
     last sent = SIGKILL \<and> SIGKILL \<notin> set (butlast sent)"
proof -
  have k: "KillTree 7 KillOk 0 [(kill_grace, KillOk)] KillOk = Some ([SIGTERM, SIGKILL], None)" by code_simp
  from kill_tree_escalation [OF k] k show ?thesis by simp
qed

end
