(* ===== verification/Store.thy ===== *)
theory Store
  imports Run Kill Layout "HOL-Library.Multiset"
begin

text \<open>
  \<open>internal/run/store.go\<close>: the runs in memory and their mirror \<open>meta.json\<close>. The order in which
  the association list \<open>runs\<close> holds the runs is the iteration order of the Go map. The disk is a
  map from the names in the runs directory to what is there; the temporary files of \<open>persist\<close>
  are a list. What the file system and \<open>KillTree\<close> answer are arguments.
\<close>

section \<open>State\<close>

datatype meta_file = NoMeta | BadMeta | Meta run

record dir_entry =
  is_dir :: bool
  meta :: meta_file

record store =
  runs :: "(go_string, run) gomap"
  disk :: "(go_string, dir_entry) gomap"
  temps :: "go_string list"

definition NewStore :: store where
  "NewStore = \<lparr>runs = [], disk = [], temps = []\<rparr>"

datatype store_error = NoRun go_string | EncodingMeta | MetaTemp | WritingMeta | ClosingMeta
  | ReplacingMeta | ScanningRunsDir

section \<open>persist\<close>

text \<open>The outcomes of the calls of one \<open>persist\<close>; \<open>rename_ok\<close> is one per attempt.\<close>

record persist_env =
  marshal_ok :: bool
  temp_name :: "go_string option"
  write_ok :: bool
  close_ok :: bool
  rename_ok :: "bool list"

fun rename_attempts :: "nat \<Rightarrow> bool list \<Rightarrow> bool" where
  "rename_attempts 0 oks = False"
| "rename_attempts (Suc n) [] = False"
| "rename_attempts (Suc n) (ok # oks) = (if ok then True else rename_attempts n oks)"

definition with_meta :: "run \<Rightarrow> store \<Rightarrow> store" where
  "with_meta r s = s\<lparr>disk := AList.update (r_ID r) \<lparr>is_dir = True, meta = Meta (persisted r)\<rparr> (disk s)\<rparr>"

text \<open>
  The temporary file exists from its creation; the deferred \<open>os.Remove\<close> deletes it on every
  return, which is a no-op when the rename has moved it.
\<close>

definition persist :: "persist_env \<Rightarrow> run \<Rightarrow> store \<Rightarrow> store \<times> store_error option" where
  "persist e r s =
     (if \<not> marshal_ok e then (s, Some EncodingMeta)
      else
        case temp_name e of
          None \<Rightarrow> (s, Some MetaTemp)
        | Some tmp \<Rightarrow>
            let s1 = s\<lparr>temps := tmp # temps s\<rparr>;
                removed = (\<lambda>s'. s'\<lparr>temps := remove1 tmp (temps s')\<rparr>)
            in if \<not> write_ok e then (removed s1, Some WritingMeta)
               else if \<not> close_ok e then (removed s1, Some ClosingMeta)
               else if rename_attempts 5 (rename_ok e)
               then (removed (with_meta r s1), None)
               else (removed s1, Some ReplacingMeta))"

section \<open>Operations\<close>

definition Add :: "persist_env \<Rightarrow> run \<Rightarrow> store \<Rightarrow> store \<times> store_error option" where
  "Add e r s = persist e r (s\<lparr>runs := AList.update (r_ID r) r (runs s)\<rparr>)"

definition Get :: "store \<Rightarrow> go_string \<Rightarrow> run option" where
  "Get s i = map_of (runs s) i"

text \<open>The part of \<open>Update\<close> under the lock, and the whole of it.\<close>

definition update_mem :: "go_string \<Rightarrow> (run \<Rightarrow> run) \<Rightarrow> store \<Rightarrow> store" where
  "update_mem i mutate s =
     (case map_of (runs s) i of
        None \<Rightarrow> s
      | Some r \<Rightarrow> s\<lparr>runs := AList.update i (mutate r) (runs s)\<rparr>)"

definition Update ::
  "persist_env \<Rightarrow> go_string \<Rightarrow> (run \<Rightarrow> run) \<Rightarrow> store \<Rightarrow> store \<times> run option \<times> store_error option" where
  "Update e i mutate s =
     (case map_of (runs s) i of
        None \<Rightarrow> (s, None, Some (NoRun i))
      | Some r \<Rightarrow>
          let s1 = update_mem i mutate s; cp = mutate r
          in case persist e cp s1 of (s2, err) \<Rightarrow> (s2, Some cp, err))"

definition wanted :: "state \<Rightarrow> go_string \<Rightarrow> run \<Rightarrow> bool" where
  "wanted state workflowID r \<longleftrightarrow>
     \<not> (state \<noteq> [] \<and> r_State r \<noteq> state) \<and> \<not> (workflowID \<noteq> [] \<and> r_WorkflowID r \<noteq> workflowID)"

text \<open>
  \<open>sort.Slice\<close> is not stable; as the iteration order is arbitrary, sorting it stably gives
  every order that an unstable sort of some iteration order gives.
\<close>

definition List :: "state \<Rightarrow> go_string \<Rightarrow> int \<Rightarrow> store \<Rightarrow> run list" where
  "List state workflowID limit s =
     (let out = sort_key (\<lambda>r. - r_QueuedAt r) (filter (wanted state workflowID) (map snd (runs s)))
      in if limit > 0 \<and> int (length out) > limit then take (nat limit) out else out)"

definition Counts :: "store \<Rightarrow> nat \<times> nat" where
  "Counts s =
     (length (filter (\<lambda>p. r_State (snd p) = StateRunning) (runs s)),
      length (filter (\<lambda>p. r_State (snd p) = StateQueued) (runs s)))"

section \<open>Recover\<close>

text \<open>
  One entry of the listing of the runs directory; \<open>meta.json\<close> is read when the entry is
  reached. \<open>pe\<close> gives the outcomes of persisting a run and \<open>now\<close> the
  clock; the pids whose tree is killed are collected. The assignment of the state comes before
  the message that names it, as in the source.
\<close>

definition recover_entry ::
  "(go_string \<Rightarrow> persist_env) \<Rightarrow> int \<Rightarrow> go_string \<times> dir_entry \<Rightarrow>
   store \<times> int list \<times> nat \<times> nat \<Rightarrow> store \<times> int list \<times> nat \<times> nat" where
  "recover_entry pe now e st =
     (case st of (s, killed, recovered, orphaned) \<Rightarrow>
        if \<not> is_dir (snd e) then st
        else
          case (case map_of (disk s) (fst e) of None \<Rightarrow> NoMeta | Some d \<Rightarrow> meta d) of
            NoMeta \<Rightarrow> st
          | BadMeta \<Rightarrow> st
          | Meta r0 \<Rightarrow>
              let r = (if r_ID r0 = [] then r0\<lparr>r_ID := fst e\<rparr> else r0) in
              if \<not> Terminal (r_State r) then
                let killed' = (if r_PID r > 0 then killed @ [r_PID r] else killed);
                    r1 = r\<lparr>r_State := StateErrored\<rparr>;
                    r2 = r1\<lparr>r_Error := ''server restarted while this run was '' @ r_State r1\<rparr>;
                    r3 = (if r_EndedAt r2 = None then r2\<lparr>r_EndedAt := Some now\<rparr> else r2);
                    s1 = s\<lparr>runs := AList.update (r_ID r3) r3 (runs s)\<rparr>
                in (fst (persist (pe (r_ID r3)) r3 s1), killed', recovered, Suc orphaned)
              else (s\<lparr>runs := AList.update (r_ID r) r (runs s)\<rparr>, killed, Suc recovered, orphaned))"

datatype readdir_result = ReadDirOk | ReadDirNotExist | ReadDirFailed

definition Recover ::
  "readdir_result \<Rightarrow> (go_string \<Rightarrow> persist_env) \<Rightarrow> int \<Rightarrow> store \<Rightarrow>
   (store \<times> int list \<times> nat \<times> nat) \<times> store_error option" where
  "Recover rd pe now s =
     (case rd of
        ReadDirNotExist \<Rightarrow> ((s, [], 0, 0), None)
      | ReadDirFailed \<Rightarrow> ((s, [], 0, 0), Some ScanningRunsDir)
      | ReadDirOk \<Rightarrow> (fold (recover_entry pe now) (sort_key fst (disk s)) (s, [], 0, 0), None))"

section \<open>Lemmas\<close>

definition store_ok :: "store \<Rightarrow> bool" where
  "store_ok s \<longleftrightarrow> gomap_ok (runs s) \<and> gomap_ok (disk s) \<and> (\<forall>i r. Get s i = Some r \<longrightarrow> r_ID r = i)"

lemma persist_runs [simp]: "runs (fst (persist e r s)) = runs s"
  by (simp add: persist_def with_meta_def Let_def split: option.splits)

lemma persist_temps [simp]: "temps (fst (persist e r s)) = temps s"
  by (simp add: persist_def with_meta_def Let_def split: option.splits)

lemma persist_disk:
  "disk (fst (persist e r s)) =
     (if snd (persist e r s) = None
      then AList.update (r_ID r) \<lparr>is_dir = True, meta = Meta (persisted r)\<rparr> (disk s) else disk s)"
  by (simp add: persist_def with_meta_def Let_def split: option.splits)

lemma Get_Add [simp]: "Get (fst (Add e r s)) i = (if i = r_ID r then Some r else Get s i)"
  by (simp add: Get_def Add_def go_maps)

lemma Get_update_mem:
  "Get (update_mem i f s) j = (if j = i then map_option f (Get s i) else Get s j)"
  by (simp add: Get_def update_mem_def go_maps split: option.splits)

lemma Get_persist [simp]: "Get (fst (persist e r s)) i = Get s i"
  by (simp add: Get_def)

lemma Update_missing: "Get s i = None \<Longrightarrow> Update e i f s = (s, None, Some (NoRun i))"
  by (simp add: Update_def Get_def)

lemma Update_found:
  "Get s i = Some r \<Longrightarrow>
   Update e i f s = (fst (persist e (f r) (update_mem i f s)), Some (f r), snd (persist e (f r) (update_mem i f s)))"
  by (simp add: Update_def Get_def Let_def split_beta)

lemma Get_Update [simp]:
  "Get (fst (Update e i f s)) j = (if j = i then map_option f (Get s i) else Get s j)"
  by (cases "Get s i") (auto simp: Update_missing Update_found Get_update_mem)

lemma update_mem_keys [simp]: "map fst (runs (update_mem i f s)) = map fst (runs s)"
proof (cases "map_of (runs s) i")
  case (Some r)
  then have "i \<in> set (map fst (runs s))" by (metis domI dom_map_of_conv_image_fst image_set)
  with Some show ?thesis by (simp add: update_mem_def update_keys)
qed (simp add: update_mem_def)

lemma update_mem_disk [simp]: "disk (update_mem i f s) = disk s" "temps (update_mem i f s) = temps s"
  by (simp_all add: update_mem_def split: option.splits)

lemma store_ok_update_mem:
  assumes "store_ok s" "\<And>r. r_ID (f r) = r_ID r"
  shows "store_ok (update_mem i f s)"
  using assms by (auto simp: store_ok_def Get_update_mem split: if_splits)

lemma store_ok_persist: "store_ok s \<Longrightarrow> store_ok (fst (persist e r s))"
  by (auto simp: store_ok_def persist_disk go_maps)

lemma store_ok_put:
  "store_ok s \<Longrightarrow> r_ID r = i \<Longrightarrow> store_ok (s\<lparr>runs := AList.update i r (runs s)\<rparr>)"
  by (auto simp: store_ok_def Get_def go_maps)

lemma store_ok_Add: "store_ok s \<Longrightarrow> store_ok (fst (Add e r s))"
  by (simp add: Add_def store_ok_persist store_ok_put)

lemma store_ok_Update:
  "store_ok s \<Longrightarrow> (\<And>r. r_ID (f r) = r_ID r) \<Longrightarrow> store_ok (fst (Update e i f s))"
  by (cases "Get s i") (simp_all add: Update_missing Update_found store_ok_persist store_ok_update_mem)

section \<open>The interface of the queue\<close>

definition in_state :: "state \<Rightarrow> run option \<Rightarrow> bool" where
  "in_state st ro \<longleftrightarrow> (case ro of None \<Rightarrow> False | Some r \<Rightarrow> r_State r = st)"

lemma in_state_simps [simp]: "\<not> in_state st None" "in_state st (Some r) \<longleftrightarrow> r_State r = st"
  by (simp_all add: in_state_def)

text \<open>
  What the queue needs of the table of runs: a lookup, an update in place, and that an update
  of one run is seen by lookups of that run only and creates nothing.
\<close>

locale run_table =
  fixes get :: "'s \<Rightarrow> go_string \<Rightarrow> run option"
    and upd :: "go_string \<Rightarrow> (run \<Rightarrow> run) \<Rightarrow> 's \<Rightarrow> 's"
    and ids :: "'s \<Rightarrow> go_string list"
  assumes get_upd: "get (upd i f s) j = (if j = i then map_option f (get s i) else get s j)"
    and ids_upd: "ids (upd i f s) = ids s"
    and ids_get: "i \<in> set (ids s) \<longleftrightarrow> get s i \<noteq> None"
begin

text \<open>An update that does not enter a state cannot enlarge the set of runs in it.\<close>

lemma in_state_shrinks:
  assumes "\<And>r. get s i = Some r \<Longrightarrow> r_State (f r) = st \<Longrightarrow> r_State r = st"
  shows "in_state st (get (upd i f s) j) \<Longrightarrow> in_state st (get s j)"
  using assms by (cases "get s i") (auto simp: get_upd split: if_splits)

text \<open>An update that may enter a state adds at most the updated run.\<close>

lemma in_state_grows: "in_state st (get (upd i f s) j) \<Longrightarrow> j = i \<or> in_state st (get s j)"
  by (auto simp: get_upd split: if_splits)

lemma upd_keeps:
  assumes "\<And>j r. get s j = Some r \<Longrightarrow> P j r" "\<And>r. get s i = Some r \<Longrightarrow> P i (f r)"
  shows "get (upd i f s) j = Some r \<Longrightarrow> P j r"
  using assms by (auto simp: get_upd split: if_splits)

end

interpretation table: run_table Get update_mem "\<lambda>s. map fst (runs s)"
proof
  fix s i
  show "(i \<in> set (map fst (runs s))) = (Get s i \<noteq> None)"
    by (simp add: Get_def map_of_eq_None_iff)
qed (simp_all add: Get_update_mem)

section \<open>Recovery\<close>

lemma recover_entry_terminal:
  assumes "\<forall>i r. Get s i = Some r \<longrightarrow> Terminal (r_State r)"
  shows "\<forall>i r. Get (fst (recover_entry pe now e (s, k, n, m))) i = Some r \<longrightarrow> Terminal (r_State r)"
  using assms
  by (auto simp: recover_entry_def Let_def Get_def go_maps split: meta_file.splits if_splits)

lemma recover_fold_terminal:
  "\<forall>i r. Get (fst st) i = Some r \<longrightarrow> Terminal (r_State r) \<Longrightarrow>
   \<forall>i r. Get (fst (fold (recover_entry pe now) es st)) i = Some r \<longrightarrow> Terminal (r_State r)"
proof (induction es arbitrary: st)
  case (Cons e es)
  obtain s k n m where st: "st = (s, k, n, m)" by (cases st)
  have "\<forall>i r. Get (fst (recover_entry pe now e st)) i = Some r \<longrightarrow> Terminal (r_State r)"
    using recover_entry_terminal [of s pe now e k n m] Cons.prems by (simp add: st)
  from Cons.IH [OF this] show ?case by simp
qed simp

lemma recover_fold_ok:
  "gomap_ok (runs (fst st)) \<Longrightarrow> gomap_ok (runs (fst (fold (recover_entry pe now) es st)))"
proof (induction es arbitrary: st)
  case (Cons e es)
  have "gomap_ok (runs (fst (recover_entry pe now e st)))"
    using Cons.prems
    by (cases st) (auto simp: recover_entry_def Let_def go_maps split: meta_file.splits)
  from Cons.IH [OF this] show ?case by simp
qed simp

text \<open>The record a directory entry leads to, and the pids of those that were still live.\<close>

definition adopted :: "int \<Rightarrow> run \<Rightarrow> run" where
  "adopted now r =
     (if Terminal (r_State r) then r
      else r\<lparr>r_State := StateErrored,
             r_Error := ''server restarted while this run was errored'',
             r_EndedAt := (case r_EndedAt r of None \<Rightarrow> Some now | Some t \<Rightarrow> Some t)\<rparr>)"

fun entry_run :: "go_string \<times> dir_entry \<Rightarrow> run option" where
  "entry_run (name, e) = (if is_dir e then (case meta e of Meta r \<Rightarrow> Some r | _ \<Rightarrow> None) else None)"

declare entry_run.simps [simp del]

definition orphan_pids :: "run list \<Rightarrow> int list" where
  "orphan_pids rs = map r_PID (filter (\<lambda>r. \<not> Terminal (r_State r) \<and> r_PID r > 0) rs)"

definition disk_ok :: "(go_string \<times> dir_entry) list \<Rightarrow> bool" where
  "disk_ok es \<longleftrightarrow> distinct (map fst es) \<and>
     (\<forall>e r. e \<in> set es \<and> entry_run e = Some r \<longrightarrow> r_ID r = fst e \<and> r_ID r \<noteq> [])"

lemma recover_entry_run:
  assumes "entry_run e = Some r" "r_ID r \<noteq> []" "map_of (disk s) (fst e) = Some (snd e)"
  shows "Get (fst (recover_entry pe now e (s, k, n, m))) i =
      (if i = r_ID r then Some (adopted now r) else Get s i)"
    and "fst (snd (recover_entry pe now e (s, k, n, m))) = k @ orphan_pids [r]"
    and "j \<noteq> r_ID r \<Longrightarrow>
      map_of (disk (fst (recover_entry pe now e (s, k, n, m)))) j = map_of (disk s) j"
proof -
  obtain name d where e: "e = (name, d)" by (cases e)
  have d: "is_dir d" "meta d = Meta r" "map_of (disk s) name = Some d"
    using assms(1,3) by (auto simp: e entry_run.simps split: if_splits meta_file.splits)
  have "StateErrored = ''errored''" by (simp add: StateErrored_def)
  then show "Get (fst (recover_entry pe now e (s, k, n, m))) i =
      (if i = r_ID r then Some (adopted now r) else Get s i)"
    using assms(2) d
    by (cases "r_EndedAt r") (auto simp: e recover_entry_def adopted_def Let_def Get_def go_maps)
  show "fst (snd (recover_entry pe now e (s, k, n, m))) = k @ orphan_pids [r]"
    using assms(2) d by (simp add: e recover_entry_def orphan_pids_def Let_def)
  show "map_of (disk (fst (recover_entry pe now e (s, k, n, m)))) j = map_of (disk s) j"
    if "j \<noteq> r_ID r"
    using assms(2) d that by (simp add: e recover_entry_def Let_def persist_disk go_maps)
qed

lemma recover_entry_other:
  "entry_run e = None \<Longrightarrow> map_of (disk s) (fst e) = Some (snd e) \<Longrightarrow>
   recover_entry pe now e (s, k, n, m) = (s, k, n, m)"
  by (cases e) (auto simp: recover_entry_def entry_run.simps split: meta_file.splits if_splits)

lemma orphan_pids_Cons: "orphan_pids (r # rs) = orphan_pids [r] @ orphan_pids rs"
  by (simp add: orphan_pids_def)

lemma recover_fold:
  "disk_ok es \<Longrightarrow> \<forall>e \<in> set es. map_of (disk s) (fst e) = Some (snd e) \<Longrightarrow>
   (\<forall>i. Get (fst (fold (recover_entry pe now) es (s, k, n, m))) i =
     (case map_of es i of
        None \<Rightarrow> Get s i
      | Some d \<Rightarrow> (case entry_run (i, d) of None \<Rightarrow> Get s i | Some r \<Rightarrow> Some (adopted now r)))) \<and>
   fst (snd (fold (recover_entry pe now) es (s, k, n, m))) = k @ orphan_pids (List.map_filter entry_run es)"
proof (induction es arbitrary: s k n m)
  case Nil
  then show ?case by (simp add: orphan_pids_def map_filter_simps)
next
  case (Cons e es)
  obtain name d where e: "e = (name, d)" by (cases e)
  obtain s1 k1 n1 m1 where st1: "recover_entry pe now e (s, k, n, m) = (s1, k1, n1, m1)"
    by (cases "recover_entry pe now e (s, k, n, m)") auto
  have d: "disk_ok es" "map_of es name = None"
    using Cons.prems(1) by (auto simp: disk_ok_def e map_of_eq_None_iff image_iff)
  have here: "map_of (disk s) (fst e) = Some (snd e)"
    and later: "\<forall>e \<in> set es. map_of (disk s) (fst e) = Some (snd e)"
    using Cons.prems(2) by simp_all
  show ?case
  proof (cases "entry_run e")
    case None
    with recover_entry_other [OF None here, where pe = pe and now = now and k = k and n = n and m = m] Cons.IH [OF d(1) later, of k n m] d(2)
    show ?thesis by (auto simp: e map_filter_simps split: option.splits)
  next
    case (Some r)
    have r: "r_ID r = name" "r_ID r \<noteq> []" using Cons.prems(1) Some by (auto simp: disk_ok_def e)
    have step: "Get s1 i = (if i = name then Some (adopted now r) else Get s i)"
      "k1 = k @ orphan_pids [r]" "j \<noteq> name \<Longrightarrow> map_of (disk s1) j = map_of (disk s) j" for i j
      using recover_entry_run [OF Some r(2) here, where pe = pe and now = now and k = k and n = n and m = m]
      by (simp_all add: st1 r(1))
    have "\<forall>e \<in> set es. fst e \<noteq> name" using d(2) by (auto simp: map_of_eq_None_iff image_iff)
    with later step(3) have "\<forall>e \<in> set es. map_of (disk s1) (fst e) = Some (snd e)" by auto
    from Cons.IH [OF d(1) this, of k1 n1 m1] show ?thesis
      using Some d(2) st1 step(1,2) orphan_pids_Cons [of r "List.map_filter entry_run es"]
      by (auto simp: e map_filter_simps split: option.splits)
  qed
qed

lemma disk_ok_sort: "disk_ok es \<Longrightarrow> disk_ok (sort_key fst es)"
proof -
  assume "disk_ok es"
  moreover have "distinct (map fst (sort_key fst es)) = distinct (map fst es)"
    by (metis mset_map mset_sort mset_eq_imp_distinct_iff)
  ultimately show ?thesis unfolding disk_ok_def set_sort by blast
qed

lemma map_of_sort: "gomap_ok es \<Longrightarrow> map_of (sort_key fst es) = map_of es"
proof (rule map_of_eqI)
  assume d: "gomap_ok es"
  show "set (map fst (sort_key fst es)) = set (map fst es)" by simp
  have d': "distinct (map fst (sort_key fst es))"
    using d by (metis mset_map mset_sort mset_eq_imp_distinct_iff)
  show "\<forall>k \<in> set (map fst (sort_key fst es)). map_of (sort_key fst es) k = map_of es k"
  proof
    fix k
    assume "k \<in> set (map fst (sort_key fst es))"
    then obtain v where "(k, v) \<in> set es" by auto
    then show "map_of (sort_key fst es) k = map_of es k"
      using d d' by (metis map_of_eq_Some_iff set_sort)
  qed
qed

section \<open>Properties\<close>

text \<open>
  \<open>persist\<close> is all or nothing: on every failure the disk is what it was, on success exactly
  the entry of the run is replaced by the whole record; the runs in memory are untouched and no
  temporary file is left behind on any path. It succeeds when one of the five attempts to rename
  does and everything before them worked.
\<close>

theorem persist_atomic:
  "case persist e r s of (s', err) \<Rightarrow>
     runs s' = runs s \<and> temps s' = temps s \<and>
     (err = None \<longleftrightarrow> marshal_ok e \<and> temp_name e \<noteq> None \<and> write_ok e \<and> close_ok e \<and>
        True \<in> set (take 5 (rename_ok e))) \<and>
     disk s' = (if err = None
       then AList.update (r_ID r) \<lparr>is_dir = True, meta = Meta (persisted r)\<rparr> (disk s) else disk s)"
proof -
  have "rename_attempts n oks = (True \<in> set (take n oks))" for n oks
    by (induction n oks rule: rename_attempts.induct) auto
  then have "(snd (persist e r s) = None) = (marshal_ok e \<and> temp_name e \<noteq> None \<and> write_ok e \<and>
      close_ok e \<and> True \<in> set (take 5 (rename_ok e)))"
    by (simp add: persist_def Let_def split: option.splits)
  then show ?thesis
    using persist_runs [of e r s] persist_temps [of e r s] persist_disk [of e r s]
    by (simp add: split_beta)
qed

theorem persist_atomic_witness:
  "(case persist \<lparr>marshal_ok = True, temp_name = Some ''t'', write_ok = True, close_ok = True,
       rename_ok = [False, True]\<rparr> zero_run NewStore of (s', err) \<Rightarrow> err = None)"
  using persist_atomic [where r = zero_run and s = NewStore and e = "\<lparr>marshal_ok = True, temp_name = Some ''t'', write_ok = True, close_ok = True,
      rename_ok = [False, True]\<rparr>"]
  by (simp add: split_beta numeral_eq_Suc)

text \<open>
  \<open>Update\<close>: an unknown id changes nothing and is an error; for a known one the mutated
  record is what later lookups of that id see, also when persisting it fails, lookups of every
  other id are unaffected, and the returned copy is the mutated record.
\<close>

theorem update_functional:
  "(Get s i = None \<longrightarrow> Update e i f s = (s, None, Some (NoRun i))) \<and>
   (\<forall>r. Get s i = Some r \<longrightarrow>
      (case Update e i f s of (s', cp, err) \<Rightarrow>
         cp = Some (f r) \<and> Get s' i = Some (f r) \<and> (\<forall>j. j \<noteq> i \<longrightarrow> Get s' j = Get s j) \<and>
         (err = None \<longrightarrow> map_of (disk s') (r_ID (f r)) =
            Some \<lparr>is_dir = True, meta = Meta (persisted (f r))\<rparr>)))"
  by (auto simp: Update_missing Update_found Get_update_mem persist_disk go_maps)

theorem update_functional_witness:
  "Get (fst (Update \<lparr>marshal_ok = False, temp_name = None, write_ok = False, close_ok = False,
      rename_ok = []\<rparr> ''a'' (\<lambda>r. r\<lparr>r_PID := 3\<rparr>) (NewStore\<lparr>runs := [(''a'', zero_run)]\<rparr>))) ''a'' =
   Some (zero_run\<lparr>r_PID := 3\<rparr>)"
  using update_functional [of "NewStore\<lparr>runs := [(''a'', zero_run)]\<rparr>" "''a''"
      "\<lparr>marshal_ok = False, temp_name = None, write_ok = False, close_ok = False, rename_ok = []\<rparr>"
      "\<lambda>r. r\<lparr>r_PID := 3\<rparr>"]
  by (simp add: Get_def split_beta)

text \<open>
  \<open>List\<close> returns matching runs newest first; it has all of them when the limit is not
  positive, and otherwise the newest ones: at most \<open>limit\<close>, and a matching run it leaves out is
  not newer than any run it returns. This holds for every iteration order of the map.
\<close>

theorem list_newest_first:
  "let out = List st wid limit s in
    sorted_wrt (\<lambda>a b. r_QueuedAt b \<le> r_QueuedAt a) out \<and>
    set out \<subseteq> {r. r \<in> snd ` set (runs s) \<and> wanted st wid r} \<and>
    (0 < limit \<longrightarrow> int (length out) \<le> limit) \<and>
    (limit \<le> 0 \<longrightarrow> mset out = mset (filter (wanted st wid) (map snd (runs s)))) \<and>
    (\<exists>rest. mset out + mset rest = mset (filter (wanted st wid) (map snd (runs s))) \<and>
       (\<forall>a \<in> set out. \<forall>b \<in> set rest. r_QueuedAt b \<le> r_QueuedAt a))"
proof -
  let ?all = "filter (wanted st wid) (map snd (runs s))"
  let ?sorted = "sort_key (\<lambda>r. - r_QueuedAt r) ?all"
  define n where "n = (if limit > 0 \<and> int (length ?all) > limit then nat limit else length ?all)"
  have out: "List st wid limit s = take n ?sorted"
    by (simp add: List_def Let_def n_def)
  have "sorted (map (\<lambda>r. - r_QueuedAt r) ?sorted)" by (rule sorted_sort_key)
  then have srt: "sorted_wrt (\<lambda>a b. r_QueuedAt b \<le> r_QueuedAt a) ?sorted"
    by (simp add: sorted_wrt_map)
  then have split: "sorted_wrt (\<lambda>a b. r_QueuedAt b \<le> r_QueuedAt a) (take n ?sorted @ drop n ?sorted)"
    by simp
  have "mset (take n ?sorted) + mset (drop n ?sorted) = mset ?all"
    by (metis append_take_drop_id mset_append mset_sort)
  moreover have "set (take n ?sorted) \<subseteq> set ?all" by (metis set_sort set_take_subset)
  ultimately show ?thesis
    using split unfolding sorted_wrt_append
    by (auto simp: out n_def Let_def intro!: exI [of _ "drop n ?sorted"])
qed

theorem list_newest_first_witness:
  "let out = List [] [] 1 (NewStore\<lparr>runs := [(''a'', zero_run), (''b'', zero_run\<lparr>r_QueuedAt := 5\<rparr>)]\<rparr>) in
    sorted_wrt (\<lambda>a b. r_QueuedAt b \<le> r_QueuedAt a) out \<and> int (length out) \<le> 1"
  using list_newest_first [of "[]" "[]" 1
      "NewStore\<lparr>runs := [(''a'', zero_run), (''b'', zero_run\<lparr>r_QueuedAt := 5\<rparr>)]\<rparr>"]
  by (simp add: Let_def)

text \<open>
  After \<open>Recover\<close> at startup every run the server knows is in a terminal state, so no run
  that a previous process left queued or running stays in a live state.
\<close>

theorem recover_all_terminal:
  assumes "Recover rd pe now s = ((s', killed, recovered, orphaned), None)" "runs s = []"
  shows "(\<forall>i r. Get s' i = Some r \<longrightarrow> Terminal (r_State r)) \<and> Counts s' = (0, 0)"
proof -
  have start: "\<forall>i r. Get s i = Some r \<longrightarrow> Terminal (r_State r)"
    using assms(2) by (simp add: Get_def)
  have all: "\<forall>i r. Get s' i = Some r \<longrightarrow> Terminal (r_State r)"
    using assms(1) start recover_fold_terminal [of "(s, [], 0, 0)" pe now "sort_key fst (disk s)"]
    by (auto simp: Recover_def split: readdir_result.splits)
  have ok: "gomap_ok (runs s')"
    using assms recover_fold_ok [of "(s, [], 0, 0)" pe now "sort_key fst (disk s)"]
    by (auto simp: Recover_def split: readdir_result.splits)
  have "\<forall>p \<in> set (runs s'). Terminal (r_State (snd p))"
    using all ok by (auto simp: Get_def)
  then have "\<forall>p \<in> set (runs s'). r_State (snd p) \<noteq> StateRunning \<and> r_State (snd p) \<noteq> StateQueued"
    by (auto dest!: bspec)
  then have "filter (\<lambda>p. r_State (snd p) = StateRunning) (runs s') = []"
    "filter (\<lambda>p. r_State (snd p) = StateQueued) (runs s') = []"
    by (auto simp: filter_empty_conv)
  with all show ?thesis by (simp add: Counts_def)
qed

text \<open>The disk that the witnesses of recovery use: one run left running, one that had finished.\<close>

definition left_running :: run where
  "left_running = zero_run\<lparr>r_ID := ''a'', r_State := StateRunning, r_PID := 42\<rparr>"

definition left_done :: run where
  "left_done = zero_run\<lparr>r_ID := ''b'', r_State := StateSucceeded\<rparr>"

definition crashed_store :: store where
  "crashed_store = NewStore\<lparr>disk := [(''b'', \<lparr>is_dir = True, meta = Meta left_done\<rparr>),
     (''a'', \<lparr>is_dir = True, meta = Meta left_running\<rparr>)]\<rparr>"

definition working_disk :: "go_string \<Rightarrow> persist_env" where
  "working_disk i = \<lparr>marshal_ok = True, temp_name = Some ''meta-1.json'', write_ok = True,
     close_ok = True, rename_ok = [True]\<rparr>"

lemma Recover_crashed:
  "\<exists>s' k n m. Recover ReadDirOk working_disk 7 crashed_store = ((s', k, n, m), None)"
  by (simp add: Recover_def) (metis surj_pair)

theorem recover_all_terminal_witness:
  "\<exists>s' k n m. Recover ReadDirOk working_disk 7 crashed_store = ((s', k, n, m), None) \<and>
     (\<forall>i r. Get s' i = Some r \<longrightarrow> Terminal (r_State r)) \<and> Counts s' = (0, 0)"
proof -
  obtain s' k n m where r: "Recover ReadDirOk working_disk 7 crashed_store = ((s', k, n, m), None)"
    using Recover_crashed by blast
  have "runs crashed_store = []" by (simp add: crashed_store_def NewStore_def)
  from recover_all_terminal [OF r this] r show ?thesis by blast
qed

text \<open>The run of every id after \<open>Recover\<close>.\<close>

lemma Recover_Get:
  assumes "disk_ok (disk s)" "Recover ReadDirOk pe now s = ((s', killed, recovered, orphaned), None)"
  shows "Get s' i =
     (case map_of (disk s) i of
        None \<Rightarrow> Get s i
      | Some d \<Rightarrow> (case entry_run (i, d) of None \<Rightarrow> Get s i | Some r \<Rightarrow> Some (adopted now r)))"
    "killed = orphan_pids (List.map_filter entry_run (sort_key fst (disk s)))"
proof -
  have d: "gomap_ok (disk s)" using assms(1) by (simp add: disk_ok_def)
  have "fold (recover_entry pe now) (sort_key fst (disk s)) (s, [], 0, 0) = (s', killed, recovered, orphaned)"
    using assms(2) by (simp add: Recover_def)
  moreover have "\<forall>e \<in> set (sort_key fst (disk s)). map_of (disk s) (fst e) = Some (snd e)"
    using d by auto
  ultimately show "Get s' i =
     (case map_of (disk s) i of
        None \<Rightarrow> Get s i
      | Some d \<Rightarrow> (case entry_run (i, d) of None \<Rightarrow> Get s i | Some r \<Rightarrow> Some (adopted now r)))"
    "killed = orphan_pids (List.map_filter entry_run (sort_key fst (disk s)))"
    using recover_fold [OF disk_ok_sort [OF assms(1)], of s pe now "[]" 0 0]
    by (simp_all add: map_of_sort [OF d])
qed

text \<open>
  C22. What \<open>Recover\<close> makes of a runs directory whose \<open>meta.json\<close> files carry the id of their
  directory: each run is adopted as it was when it had finished, and otherwise as errored with an
  end time, every other id is as before, and the killed process trees are exactly those of the
  positive pids recorded by the unfinished runs. The message of an unfinished run always names
  the state \<open>errored\<close>, because the state is overwritten before it is read.
\<close>

theorem recover_exact:
  assumes "disk_ok (disk s)" "Recover ReadDirOk pe now s = ((s', killed, recovered, orphaned), None)"
  shows "(\<forall>i. Get s' i =
     (case map_of (disk s) i of
        None \<Rightarrow> Get s i
      | Some d \<Rightarrow> (case entry_run (i, d) of None \<Rightarrow> Get s i | Some r \<Rightarrow> Some (adopted now r)))) \<and>
    killed = orphan_pids (List.map_filter entry_run (sort_key fst (disk s)))"
  using Recover_Get [OF assms] by blast

theorem recover_exact_witness:
  "\<exists>s' k n m. Recover ReadDirOk working_disk 7 crashed_store = ((s', k, n, m), None) \<and>
     Get s' ''b'' = Some left_done \<and>
     map_option r_Error (Get s' ''a'') = Some ''server restarted while this run was errored'' \<and>
     k = [42]"
proof -
  obtain s' k n m where r: "Recover ReadDirOk working_disk 7 crashed_store = ((s', k, n, m), None)"
    using Recover_crashed by blast
  have d: "disk_ok (disk crashed_store)"
    by (auto simp: disk_ok_def crashed_store_def entry_run.simps left_running_def left_done_def)
  have srt: "sort_key fst (disk crashed_store) = rev (disk crashed_store)"
    by (simp add: crashed_store_def insort_key_def)
  have "Get s' ''b'' = Some left_done"
    "map_option r_Error (Get s' ''a'') = Some ''server restarted while this run was errored''"
    "k = [42]"
    using recover_exact [OF d r, unfolded srt]
    by (simp_all add: crashed_store_def entry_run.simps left_running_def left_done_def adopted_def
        orphan_pids_def map_filter_simps)
  with r show ?thesis by blast
qed

end
