(* ===== verification/Queue.thy ===== *)
theory Queue
  imports Exec Results Store
begin

text \<open>
  \<open>internal/run/queue.go\<close>: the bounded queue of runs. A job is an entry of a heap, addressed by
  its index, because the worker and \<open>Cancel\<close> share it; the buffer of a run belongs to its job, and
  the map \<open>bufs\<close> holds the address of the job whose buffer it is. Each operation is given as the
  sections that run without interleaving (the code between two locks, or a store update) and as
  their composition; the theory Interleave lets the sections of all threads interleave.
\<close>

section \<open>State\<close>

record job =
  j_runID :: go_string
  j_spec :: spec
  j_buf :: buffer
  j_cancelFn :: bool
  j_ctxDone :: bool

record queue =
  q_store :: store
  q_runsDir :: go_string
  q_jobs :: "nat list"
  q_depth :: nat
  q_closed :: bool
  q_live :: "(go_string, nat) gomap"
  q_bufs :: "(go_string, nat) gomap"
  q_cancelled :: "go_string set"
  q_heap :: "job list"
  q_ctxDone :: bool

definition NewQueue :: "store \<Rightarrow> go_string \<Rightarrow> nat \<Rightarrow> queue" where
  "NewQueue s runsDir depth =
     \<lparr>q_store = s, q_runsDir = runsDir, q_jobs = [], q_depth = depth, q_closed = False, q_live = [],
      q_bufs = [], q_cancelled = {}, q_heap = [], q_ctxDone = False\<rparr>"

definition job_of :: "queue \<Rightarrow> nat \<Rightarrow> job" where
  "job_of q a = q_heap q ! a"

definition set_job :: "nat \<Rightarrow> (job \<Rightarrow> job) \<Rightarrow> queue \<Rightarrow> queue" where
  "set_job a f q = q\<lparr>q_heap := (q_heap q)[a := f (job_of q a)]\<rparr>"

definition run_layout_of :: "queue \<Rightarrow> go_string \<Rightarrow> layout" where
  "run_layout_of q i = \<lparr>Root = Join [q_runsDir q, i]\<rparr>"

definition Buffer :: "queue \<Rightarrow> go_string \<Rightarrow> buffer option" where
  "Buffer q i = map_option (\<lambda>a. j_buf (job_of q a)) (map_of (q_bufs q) i)"

definition in_mem :: "go_string \<Rightarrow> (run \<Rightarrow> run) \<Rightarrow> queue \<Rightarrow> queue" where
  "in_mem i f q = q\<lparr>q_store := update_mem i f (q_store q)\<rparr>"

definition on_disk :: "persist_env \<Rightarrow> run \<Rightarrow> queue \<Rightarrow> queue \<times> store_error option" where
  "on_disk e r q = (case persist e r (q_store q) of (s, err) \<Rightarrow> (q\<lparr>q_store := s\<rparr>, err))"

section \<open>Submit\<close>

definition new_job :: "queue \<Rightarrow> run \<Rightarrow> workflow \<Rightarrow> (go_string, go_string) gomap \<Rightarrow> job" where
  "new_job q r w env =
     \<lparr>j_runID = r_ID r,
      j_spec = \<lparr>sp_Workflow = w, sp_Layout = run_layout_of q (r_ID r), sp_Env = env,
                sp_TimeoutSeconds = r_TimeoutSeconds r\<rparr>,
      j_buf = logbuf_New 5000, j_cancelFn = False, j_ctxDone = False\<rparr>"

definition submit_register ::
  "run \<Rightarrow> workflow \<Rightarrow> (go_string, go_string) gomap \<Rightarrow> queue \<Rightarrow> nat \<times> queue" where
  "submit_register r w env q =
     (let a = length (q_heap q) in
      (a, q\<lparr>q_heap := q_heap q @ [new_job q r w env],
            q_live := AList.update (r_ID r) a (q_live q),
            q_bufs := AList.update (r_ID r) a (q_bufs q)\<rparr>))"

datatype send_result = Sent | Full | SendPanics

text \<open>The \<open>select\<close> with a default; sending on a closed channel panics before the default is considered.\<close>

definition submit_send :: "nat \<Rightarrow> queue \<Rightarrow> send_result \<times> queue" where
  "submit_send a q =
     (if q_closed q then (SendPanics, q)
      else if length (q_jobs q) < q_depth q then (Sent, q\<lparr>q_jobs := q_jobs q @ [a]\<rparr>)
      else (Full, q))"

text \<open>The rollback; \<open>None\<close> is the panic of closing a closed subscriber channel.\<close>

definition submit_rollback :: "nat \<Rightarrow> queue \<Rightarrow> queue option" where
  "submit_rollback a q =
     (let i = j_runID (job_of q a);
          q1 = q\<lparr>q_live := AList.delete i (q_live q), q_bufs := AList.delete i (q_bufs q)\<rparr>
      in map_option (\<lambda>b. set_job a (\<lambda>j. j\<lparr>j_buf := b\<rparr>) q1) (Close (j_buf (job_of q a))))"

datatype submit_error = ErrQueueFull

definition Submit ::
  "run \<Rightarrow> workflow \<Rightarrow> (go_string, go_string) gomap \<Rightarrow> queue \<Rightarrow> (queue \<times> submit_error option) option" where
  "Submit r w env q =
     (case submit_register r w env q of (a, q1) \<Rightarrow>
        (case submit_send a q1 of
           (SendPanics, q2) \<Rightarrow> None
         | (Sent, q2) \<Rightarrow> Some (q2, None)
         | (Full, q2) \<Rightarrow> map_option (\<lambda>q3. (q3, Some ErrQueueFull)) (submit_rollback a q2)))"

section \<open>Cancel\<close>

datatype cancel_error = ErrNotFound | ErrAlreadyFinished | CancelStoreError store_error

definition cancel_check :: "go_string \<Rightarrow> queue \<Rightarrow> cancel_error option" where
  "cancel_check i q =
     (case Get (q_store q) i of
        None \<Rightarrow> Some ErrNotFound
      | Some r \<Rightarrow> if Terminal (r_State r) then Some ErrAlreadyFinished else None)"

definition cancel_flag :: "go_string \<Rightarrow> queue \<Rightarrow> nat option \<times> queue" where
  "cancel_flag i q = (map_of (q_live q) i, q\<lparr>q_cancelled := insert i (q_cancelled q)\<rparr>)"

text \<open>The read of \<open>j.cancelFn\<close>, without the lock, and the call of it.\<close>

definition cancel_running :: "nat \<Rightarrow> queue \<Rightarrow> queue option" where
  "cancel_running a q =
     (if j_cancelFn (job_of q a) then Some (set_job a (\<lambda>j. j\<lparr>j_ctxDone := True\<rparr>) q) else None)"

definition mark_cancelled :: "int \<Rightarrow> run \<Rightarrow> run" where
  "mark_cancelled now r = r\<lparr>r_State := StateCancelled, r_EndedAt := Some now\<rparr>"

definition Cancel :: "persist_env \<Rightarrow> int \<Rightarrow> go_string \<Rightarrow> queue \<Rightarrow> queue \<times> cancel_error option" where
  "Cancel e now i q =
     (case cancel_check i q of
        Some err \<Rightarrow> (q, Some err)
      | None \<Rightarrow>
          (case cancel_flag i q of
             (None, q1) \<Rightarrow> (q1, Some ErrNotFound)
           | (Some a, q1) \<Rightarrow>
               (case cancel_running a q1 of
                  Some q2 \<Rightarrow> (q2, None)
                | None \<Rightarrow>
                    (case Update e i (mark_cancelled now) (q_store q1) of
                       (s, _, err) \<Rightarrow> (q1\<lparr>q_store := s\<rparr>, map_option CancelStoreError err)))))"

section \<open>QueuePosition\<close>

fun position_loop :: "go_string \<Rightarrow> int \<Rightarrow> run list \<Rightarrow> int" where
  "position_loop i pos [] = 0"
| "position_loop i pos (r # rs) = (if r_ID r = i then pos + 1 else position_loop i (pos + 1) rs)"

definition QueuePosition :: "go_string \<Rightarrow> queue \<Rightarrow> int" where
  "QueuePosition i q = position_loop i 0 (rev (List StateQueued [] 0 (q_store q)))"

section \<open>The worker's sections\<close>

text \<open>One iteration of \<open>range q.jobs\<close>: a job, nothing yet, or the end of the loop.\<close>

datatype received = Job nat | Blocked | Ended

definition receive :: "queue \<Rightarrow> received \<times> queue" where
  "receive q =
     (case q_jobs q of
        a # as \<Rightarrow> (Job a, q\<lparr>q_jobs := as\<rparr>)
      | [] \<Rightarrow> (if q_closed q then Ended else Blocked, q))"

definition skip_job :: "nat \<Rightarrow> queue \<Rightarrow> bool" where
  "skip_job a q = (j_runID (job_of q a) \<in> q_cancelled q)"

definition skipped :: outcome where
  "skipped = \<lparr>oc_ExitCode = -1, oc_State = StateCancelled, oc_Err = None\<rparr>"

definition set_cancelFn :: "nat \<Rightarrow> queue \<Rightarrow> queue" where
  "set_cancelFn a q = set_job a (\<lambda>j. j\<lparr>j_cancelFn := True\<rparr>) q"

definition mark_running :: "int \<Rightarrow> run \<Rightarrow> run" where
  "mark_running now r = r\<lparr>r_State := StateRunning, r_StartedAt := Some now\<rparr>"

definition record_pid :: "int \<Rightarrow> run \<Rightarrow> run" where
  "record_pid pid r = r\<lparr>r_PID := pid\<rparr>"

definition finalise :: "int \<Rightarrow> outcome \<Rightarrow> summary option \<times> artifact list \<Rightarrow> run \<Rightarrow> run" where
  "finalise now out sa r =
     (let r1 = (if r_State r \<noteq> StateCancelled \<or> oc_State out = StateCancelled
                then r\<lparr>r_State := oc_State out\<rparr> else r);
          r2 = r1\<lparr>r_EndedAt := Some now, r_ExitCode := Some (oc_ExitCode out), r_Summary := fst sa,
                  r_Artifacts := snd sa, r_PID := 0\<rparr>
      in case oc_Err out of None \<Rightarrow> r2 | Some e \<Rightarrow> r2\<lparr>r_Error := e\<rparr>)"

text \<open>The last line and the closing of the buffer; a panic is \<open>None\<close>.\<close>

definition finish_log :: "nat \<Rightarrow> outcome \<Rightarrow> queue \<Rightarrow> queue option" where
  "finish_log a out q =
     map_option (\<lambda>b. set_job a (\<lambda>j. j\<lparr>j_buf := b\<rparr>) q)
       (Option.bind (Append (''[server] run '' @ oc_State out) (j_buf (job_of q a))) Close)"

definition finish_remove :: "nat \<Rightarrow> queue \<Rightarrow> queue" where
  "finish_remove a q =
     (let i = j_runID (job_of q a) in
      q\<lparr>q_live := AList.delete i (q_live q), q_cancelled := q_cancelled q - {i}\<rparr>)"

text \<open>The whole of \<open>finish\<close>, with what \<open>Collect\<close> found.\<close>

definition finish ::
  "persist_env \<Rightarrow> int \<Rightarrow> summary option \<times> artifact list \<Rightarrow> nat \<Rightarrow> outcome \<Rightarrow> queue \<Rightarrow> queue option" where
  "finish e now sa a out q =
     (case Update e (j_runID (job_of q a)) (finalise now out sa) (q_store q) of
        (s, _, _) \<Rightarrow> map_option (finish_remove a) (finish_log a out (q\<lparr>q_store := s\<rparr>)))"

text \<open>\<open>Stop\<close> closes the channel once, whoever calls it.\<close>

definition close_jobs :: "queue \<Rightarrow> queue" where
  "close_jobs q = q\<lparr>q_closed := True\<rparr>"

section \<open>Lemmas\<close>

lemma finalise_simps [simp]:
  "r_ID (finalise now out sa r) = r_ID r" "r_EndedAt (finalise now out sa r) = Some now"
  "r_ExitCode (finalise now out sa r) = Some (oc_ExitCode out)" "r_PID (finalise now out sa r) = 0"
  "r_Summary (finalise now out sa r) = fst sa" "r_Artifacts (finalise now out sa r) = snd sa"
  "r_State (finalise now out sa r) = (if r_State r = StateCancelled then StateCancelled else oc_State out)"
  by (auto simp: finalise_def Let_def split: option.splits)

lemma mark_simps [simp]:
  "r_ID (mark_cancelled now r) = r_ID r" "r_State (mark_cancelled now r) = StateCancelled"
  "r_ID (mark_running now r) = r_ID r" "r_State (mark_running now r) = StateRunning"
  "r_ID (record_pid p r) = r_ID r" "r_State (record_pid p r) = r_State r"
  by (simp_all add: mark_cancelled_def mark_running_def record_pid_def)

lemma set_job_simps [simp]:
  "q_store (set_job a f q) = q_store q" "q_jobs (set_job a f q) = q_jobs q"
  "q_depth (set_job a f q) = q_depth q" "q_closed (set_job a f q) = q_closed q"
  "q_live (set_job a f q) = q_live q" "q_bufs (set_job a f q) = q_bufs q"
  "q_cancelled (set_job a f q) = q_cancelled q" "q_ctxDone (set_job a f q) = q_ctxDone q"
  "length (q_heap (set_job a f q)) = length (q_heap q)"
  by (simp_all add: set_job_def)

lemma job_of_set_job:
  "job_of (set_job a f q) b = (if a = b \<and> b < length (q_heap q) then f (job_of q b) else job_of q b)"
  by (cases "a = b"; cases "b < length (q_heap q)") (simp_all add: job_of_def set_job_def list_update_beyond)

lemma in_mem_simps [simp]:
  "q_jobs (in_mem i f q) = q_jobs q" "q_depth (in_mem i f q) = q_depth q" "q_closed (in_mem i f q) = q_closed q"
  "q_live (in_mem i f q) = q_live q" "q_bufs (in_mem i f q) = q_bufs q" "q_heap (in_mem i f q) = q_heap q"
  "q_cancelled (in_mem i f q) = q_cancelled q" "q_ctxDone (in_mem i f q) = q_ctxDone q"
  "q_store (in_mem i f q) = update_mem i f (q_store q)"
  by (simp_all add: in_mem_def)

lemma on_disk_simps [simp]:
  "q_jobs (fst (on_disk e r q)) = q_jobs q" "q_depth (fst (on_disk e r q)) = q_depth q"
  "q_closed (fst (on_disk e r q)) = q_closed q" "q_live (fst (on_disk e r q)) = q_live q"
  "q_bufs (fst (on_disk e r q)) = q_bufs q" "q_heap (fst (on_disk e r q)) = q_heap q"
  "q_cancelled (fst (on_disk e r q)) = q_cancelled q" "q_ctxDone (fst (on_disk e r q)) = q_ctxDone q"
  "q_store (fst (on_disk e r q)) = fst (persist e r (q_store q))"
  by (simp_all add: on_disk_def split_beta)

lemma position_loop_eq:
  "i \<in> r_ID ` set rs \<Longrightarrow>
   position_loop i pos rs = pos + 1 + int (length (takeWhile (\<lambda>r. r_ID r \<noteq> i) rs))"
  by (induction i pos rs rule: position_loop.induct) auto

lemma takeWhile_sorted:
  assumes "sorted_wrt (\<lambda>a b. k a < (k b :: int)) xs" "x \<in> set xs" "\<forall>y \<in> set xs. g y = g x \<longrightarrow> y = x"
  shows "takeWhile (\<lambda>y. g y \<noteq> g x) xs = filter (\<lambda>y. k y < k x) xs"
  using assms
proof (induction xs)
  case (Cons y ys)
  show ?case
  proof (cases "y = x")
    case True
    with Cons.prems(1) have "filter (\<lambda>z. k z < k x) ys = []" by (auto simp: filter_empty_conv)
    with True show ?thesis by simp
  next
    case False
    with Cons show ?thesis by auto
  qed
qed simp

text \<open>A run of the table appears in the values of its map under its own id only.\<close>

lemma runs_pairs:
  assumes "store_ok s"
  shows "p \<in> set (runs s) \<longleftrightarrow> Get s (fst p) = Some (snd p)" "p \<in> set (runs s) \<Longrightarrow> r_ID (snd p) = fst p"
proof -
  show *: "p \<in> set (runs s) \<longleftrightarrow> Get s (fst p) = Some (snd p)" for p
    using assms by (simp add: store_ok_def Get_def)
  show "p \<in> set (runs s) \<Longrightarrow> r_ID (snd p) = fst p"
    using assms unfolding * by (simp add: store_ok_def)
qed

lemma runs_values:
  assumes "store_ok s"
  shows "r \<in> set (map snd (runs s)) \<longleftrightarrow> Get s (r_ID r) = Some r"
proof
  assume "r \<in> set (map snd (runs s))"
  then obtain p where p: "p \<in> set (runs s)" "r = snd p" by auto
  then show "Get s (r_ID r) = Some r"
    using runs_pairs(1) [OF assms, of p] runs_pairs(2) [OF assms p(1)] by simp
next
  assume "Get s (r_ID r) = Some r"
  then have "(r_ID r, r) \<in> set (runs s)" using runs_pairs(1) [OF assms, of "(r_ID r, r)"] by simp
  then show "r \<in> set (map snd (runs s))" by force
qed

definition queued_runs :: "store \<Rightarrow> run list" where
  "queued_runs s = filter (\<lambda>r. r_State r = StateQueued) (map snd (runs s))"

lemma List_queued: "List StateQueued [] 0 s = sort_key (\<lambda>r. - r_QueuedAt r) (queued_runs s)"
  by (simp add: List_def Let_def queued_runs_def wanted_def cong: filter_cong)

lemma strictly_sorted:
  assumes "sorted_wrt (\<lambda>a b. k a \<le> (k b :: int)) xs" "distinct (map k xs)"
  shows "sorted_wrt (\<lambda>a b. k a < k b) xs"
  using assms by (induction xs) (auto simp: image_iff order_less_le)

lemma QueuePosition_eq:
  assumes "store_ok (q_store q)" "Get (q_store q) i = Some r" "r_State r = StateQueued"
    and "distinct (map r_QueuedAt (queued_runs (q_store q)))"
  shows "QueuePosition i q =
    1 + int (length (filter (\<lambda>r'. r_QueuedAt r' < r_QueuedAt r) (queued_runs (q_store q))))"
proof -
  let ?qs = "queued_runs (q_store q)"
  let ?xs = "rev (sort_key (\<lambda>r. - r_QueuedAt r) ?qs)"
  have i: "r_ID r = i" using assms(1,2) by (simp add: store_ok_def)
  have mem: "r \<in> set ?xs"
    using runs_values [OF assms(1), of r] assms(2,3) i by (simp add: queued_runs_def)
  have uniq: "\<forall>y \<in> set ?xs. r_ID y = r_ID r \<longrightarrow> y = r"
  proof (intro ballI impI)
    fix y
    assume "y \<in> set ?xs" "r_ID y = r_ID r"
    then have "y \<in> set (map snd (runs (q_store q)))" by (auto simp: queued_runs_def)
    from this [unfolded runs_values [OF assms(1)]] \<open>r_ID y = r_ID r\<close> assms(2) i show "y = r" by simp
  qed
  have "sorted (map (\<lambda>r. - r_QueuedAt r) (sort_key (\<lambda>r. - r_QueuedAt r) ?qs))" by (rule sorted_sort_key)
  then have "sorted_wrt (\<lambda>a b. r_QueuedAt a \<le> r_QueuedAt b) ?xs"
    by (simp add: sorted_wrt_map sorted_wrt_rev)
  moreover have "distinct (map r_QueuedAt ?xs)"
  proof -
    have "mset (map r_QueuedAt ?xs) = mset (map r_QueuedAt ?qs)" by simp
    then show ?thesis using assms(4) by (metis mset_eq_imp_distinct_iff)
  qed
  ultimately have "sorted_wrt (\<lambda>a b. r_QueuedAt a < r_QueuedAt b) ?xs" by (rule strictly_sorted)
  from takeWhile_sorted [OF this mem uniq] have
    "takeWhile (\<lambda>y. r_ID y \<noteq> i) ?xs = filter (\<lambda>y. r_QueuedAt y < r_QueuedAt r) ?xs" by (simp add: i)
  moreover have "length (filter P ?xs) = length (filter P ?qs)" for P
    by (metis mset_filter mset_rev mset_sort size_mset)
  moreover have "i \<in> r_ID ` set ?xs" using mem i by force
  ultimately show ?thesis by (simp add: QueuePosition_def List_queued position_loop_eq)
qed

section \<open>Properties of the operations run alone\<close>

lemma Close_New: "\<exists>b. Close (logbuf_New c) = Some b \<and> buffer.closed b"
  by (simp add: Close_def logbuf_New_def)

text \<open>
  \<open>Submit\<close> on an open queue never panics and never touches the run table: with room in the
  channel the new job is its last element and the live entry and the buffer of the run are the
  job's; at capacity it answers \<open>ErrQueueFull\<close> and leaves the channel and both maps as they were.
\<close>

theorem submit_exact:
  assumes "\<not> q_closed q" "map_of (q_live q) (r_ID r) = None" "map_of (q_bufs q) (r_ID r) = None"
  shows "\<exists>q'. Submit r w env q =
      Some (q', if length (q_jobs q) < q_depth q then None else Some ErrQueueFull) \<and>
    q_store q' = q_store q \<and> q_cancelled q' = q_cancelled q \<and>
    (if length (q_jobs q) < q_depth q
     then q_jobs q' = q_jobs q @ [length (q_heap q)] \<and>
          map_of (q_live q') = (map_of (q_live q))(r_ID r \<mapsto> length (q_heap q)) \<and>
          Buffer q' (r_ID r) = Some (logbuf_New 5000)
     else q_jobs q' = q_jobs q \<and> map_of (q_live q') = map_of (q_live q) \<and>
          map_of (q_bufs q') = map_of (q_bufs q))"
proof (cases "length (q_jobs q) < q_depth q")
  case True
  then show ?thesis
    using assms(1)
    by (simp add: Submit_def submit_register_def submit_send_def Let_def Buffer_def job_of_def
        new_job_def go_maps)
next
  case False
  obtain b where "Close (logbuf_New 5000) = Some b" using Close_New by blast
  with False assms show ?thesis
    by (auto simp: Submit_def submit_register_def submit_send_def submit_rollback_def Let_def
        job_of_def new_job_def go_maps)
qed

definition small_queue :: queue where
  "small_queue = NewQueue NewStore ''/r'' 1"

theorem submit_exact_witness:
  "\<exists>q'. Submit (zero_run\<lparr>r_ID := ''a''\<rparr>) sample_workflow [] small_queue = Some (q', None) \<and> q_jobs q' = [0]"
proof -
  have "\<not> q_closed small_queue" "map_of (q_live small_queue) (r_ID (zero_run\<lparr>r_ID := ''a''\<rparr>)) = None"
    "map_of (q_bufs small_queue) (r_ID (zero_run\<lparr>r_ID := ''a''\<rparr>)) = None"
    by (simp_all add: small_queue_def NewQueue_def)
  from submit_exact [OF this, of sample_workflow "[]"] show ?thesis
    by (simp add: small_queue_def NewQueue_def) blast
qed

text \<open>
  C30. \<open>Cancel\<close> on every branch: an unknown run and a finished one are refused and nothing changes; a
  run that is not live is refused but flagged; a running one has its context cancelled and its
  record untouched; a queued one is flagged and its record is at once \<open>cancelled\<close> with an end time.
\<close>

theorem cancel_exact:
  assumes "\<And>a. map_of (q_live q) i = Some a \<Longrightarrow> a < length (q_heap q)"
    and "Cancel e now i q = (q', err)"
  shows "case Get (q_store q) i of
      None \<Rightarrow> err = Some ErrNotFound \<and> q' = q
    | Some r \<Rightarrow>
        if Terminal (r_State r) then err = Some ErrAlreadyFinished \<and> q' = q
        else i \<in> q_cancelled q' \<and>
          (case map_of (q_live q) i of
             None \<Rightarrow> err = Some ErrNotFound \<and> q_store q' = q_store q
           | Some a \<Rightarrow>
               if j_cancelFn (job_of q a)
               then err = None \<and> j_ctxDone (job_of q' a) \<and> q_store q' = q_store q
               else Get (q_store q') i = Some (mark_cancelled now r) \<and> (err = None) = (snd (persist e (mark_cancelled now r) (update_mem i (mark_cancelled now) (q_store q))) = None))"
proof (cases "Get (q_store q) i")
  case None
  with assms(2) show ?thesis by (simp add: Cancel_def cancel_check_def)
next
  case (Some r)
  show ?thesis
  proof (cases "Terminal (r_State r)")
    case True
    with assms(2) Some show ?thesis by (simp add: Cancel_def cancel_check_def)
  next
    case False
    show ?thesis
    proof (cases "map_of (q_live q) i")
      case None
      with assms(2) Some False show ?thesis by (auto simp: Cancel_def cancel_check_def cancel_flag_def)
    next
      case (Some a)
      let ?q1 = "q\<lparr>q_cancelled := insert i (q_cancelled q)\<rparr>"
      have "job_of ?q1 a = job_of q a" by (simp add: job_of_def)
      then show ?thesis
        using assms \<open>Get (q_store q) i = Some r\<close> False Some
        by (auto simp: Cancel_def cancel_check_def cancel_flag_def cancel_running_def job_of_set_job
            Update_found Get_update_mem split: if_splits)
    qed
  qed
qed

theorem cancel_exact_witness:
  "\<exists>q'. Cancel (working_disk ''a'') 9 ''a''
       (small_queue\<lparr>q_store := NewStore\<lparr>runs := [(''a'', zero_run\<lparr>r_ID := ''a'', r_State := StateQueued\<rparr>)]\<rparr>\<rparr>) =
     (q', Some ErrNotFound) \<and> ''a'' \<in> q_cancelled q'"
proof -
  let ?q = "small_queue\<lparr>q_store := NewStore\<lparr>runs := [(''a'', zero_run\<lparr>r_ID := ''a'', r_State := StateQueued\<rparr>)]\<rparr>\<rparr>"
  obtain q' err where c: "Cancel (working_disk ''a'') 9 ''a'' ?q = (q', err)" by fastforce
  have "map_of (q_live ?q) ''a'' = None" by (simp add: small_queue_def NewQueue_def)
  then show ?thesis
    using cancel_exact [OF _ c] c by (simp add: Get_def zero_run_def)
qed

text \<open>
  C29. \<open>finish\<close> records the outcome once: a cancellation already recorded wins over the outcome,
  otherwise the run takes the outcome's state; exit code, end time, summary and artifacts are set
  and the pid is cleared; the log gets its last line and is closed; the run leaves \<open>live\<close> and
  \<open>cancelled\<close>; no other run changes.
\<close>

theorem finish_exact:
  assumes "a < length (q_heap q)" "open_buffer (j_buf (job_of q a)) h"
    and "Get (q_store q) (j_runID (job_of q a)) = Some r"
  shows "\<exists>q'. finish e now sa a out q = Some q' \<and>
    Get (q_store q') (j_runID (job_of q a)) = Some (finalise now out sa r) \<and>
    r_State (finalise now out sa r) = (if r_State r = StateCancelled then StateCancelled else oc_State out) \<and>
    (\<forall>i. i \<noteq> j_runID (job_of q a) \<longrightarrow> Get (q_store q') i = Get (q_store q) i) \<and>
    j_runID (job_of q a) \<notin> q_cancelled q' \<and> map_of (q_live q') (j_runID (job_of q a)) = None \<and>
    buffer.closed (j_buf (job_of q' a)) \<and>
    holds (j_buf (job_of q' a)) (h @ [StripANSI (''[server] run '' @ oc_State out)])"
proof -
  let ?i = "j_runID (job_of q a)"
  let ?t = "''[server] run '' @ oc_State out"
  obtain b where b: "Append ?t (j_buf (job_of q a)) = Some b" "open_buffer b (h @ [StripANSI ?t])"
    using ring.wr_rep [OF assms(2), of ?t] by blast
  obtain b' where b': "Close b = Some b'" "buffer.closed b'" "lines b' = lines b" "nextSeq b' = nextSeq b"
    "capacity b' = capacity b"
    using Close_result [of b] b(2) by (auto simp: open_buffer_def)
  have h': "holds b' (h @ [StripANSI ?t])"
    using b(2) b' by (simp add: open_buffer_def holds_def)
  let ?s = "fst (Update e ?i (finalise now out sa) (q_store q))"
  let ?q1 = "q\<lparr>q_store := ?s\<rparr>"
  have j: "job_of ?q1 a = job_of q a" by (simp add: job_of_def)
  have "finish e now sa a out q = Some (finish_remove a (set_job a (\<lambda>j. j\<lparr>j_buf := b'\<rparr>) ?q1))"
    unfolding finish_def split_beta finish_log_def j b(1) bind.bind_lunit b'(1) by simp
  moreover have "job_of (finish_remove a (set_job a (\<lambda>j. j\<lparr>j_buf := b'\<rparr>) ?q1)) a = (job_of q a)\<lparr>j_buf := b'\<rparr>"
    using assms(1) job_of_set_job [of a "\<lambda>j. j\<lparr>j_buf := b'\<rparr>" ?q1 a] j
    by (simp add: finish_remove_def Let_def job_of_def)
  moreover have "job_of (set_job a (\<lambda>j. j\<lparr>j_buf := b'\<rparr>) ?q1) a = (job_of q a)\<lparr>j_buf := b'\<rparr>"
    using assms(1) job_of_set_job [of a "\<lambda>j. j\<lparr>j_buf := b'\<rparr>" ?q1 a] j by simp
  ultimately show ?thesis
    using assms(3) h' b'(2) by (simp add: finish_remove_def Let_def go_maps)
qed

definition busy_queue :: queue where
  "busy_queue = small_queue\<lparr>
     q_store := NewStore\<lparr>runs := [(''a'', zero_run\<lparr>r_ID := ''a'', r_State := StateRunning\<rparr>)]\<rparr>,
     q_live := [(''a'', 0)],
     q_heap := [new_job small_queue (zero_run\<lparr>r_ID := ''a''\<rparr>) sample_workflow []]\<rparr>"

theorem finish_exact_witness:
  "\<exists>q'. finish (working_disk ''a'') 9 (None, []) 0 \<lparr>oc_ExitCode = 1, oc_State = StateFailed, oc_Err = None\<rparr> busy_queue = Some q' \<and>
     map_option r_State (Get (q_store q') ''a'') = Some StateFailed \<and> map_of (q_live q') ''a'' = None"
proof -
  let ?out = "\<lparr>oc_ExitCode = 1, oc_State = StateFailed, oc_Err = None\<rparr>"
  have j: "job_of busy_queue 0 = new_job small_queue (zero_run\<lparr>r_ID := ''a''\<rparr>) sample_workflow []"
    by (simp add: busy_queue_def job_of_def)
  have g: "Get (q_store busy_queue) ''a'' = Some (zero_run\<lparr>r_ID := ''a'', r_State := StateRunning\<rparr>)"
    by (simp add: busy_queue_def Get_def)
  have "0 < length (q_heap busy_queue)" by (simp add: busy_queue_def)
  moreover have "open_buffer (j_buf (job_of busy_queue 0)) []" by (simp add: j new_job_def New_open)
  moreover have i: "j_runID (job_of busy_queue 0) = ''a''" by (simp add: j new_job_def)
  ultimately show ?thesis
    using finish_exact [of 0 busy_queue "[]" "zero_run\<lparr>r_ID := ''a'', r_State := StateRunning\<rparr>"
        "working_disk ''a''" 9 "(None, [])" ?out] g by auto
qed

text \<open>
  \<open>QueuePosition\<close> of a queued run is one more than the number of queued runs that were queued
  before it, when no two were queued at the same instant.
\<close>

theorem queue_position_exact:
  assumes "store_ok (q_store q)" "Get (q_store q) i = Some r" "r_State r = StateQueued"
    and "distinct (map r_QueuedAt (queued_runs (q_store q)))"
  shows "QueuePosition i q =
    1 + int (length (filter (\<lambda>r'. r_QueuedAt r' < r_QueuedAt r) (queued_runs (q_store q))))"
  using assms by (rule QueuePosition_eq)

theorem queue_position_exact_witness:
  "QueuePosition ''b'' (small_queue\<lparr>q_store := NewStore\<lparr>runs :=
      [(''b'', zero_run\<lparr>r_ID := ''b'', r_State := StateQueued, r_QueuedAt := 7\<rparr>),
       (''a'', zero_run\<lparr>r_ID := ''a'', r_State := StateQueued, r_QueuedAt := 5\<rparr>)]\<rparr>\<rparr>) = 2"
proof -
  let ?b = "zero_run\<lparr>r_ID := ''b'', r_State := StateQueued, r_QueuedAt := 7\<rparr>"
  let ?q = "small_queue\<lparr>q_store := NewStore\<lparr>runs :=
      [(''b'', ?b), (''a'', zero_run\<lparr>r_ID := ''a'', r_State := StateQueued, r_QueuedAt := 5\<rparr>)]\<rparr>\<rparr>"
  have qs: "queued_runs (q_store ?q) = [?b, zero_run\<lparr>r_ID := ''a'', r_State := StateQueued, r_QueuedAt := 5\<rparr>]"
    by (simp add: queued_runs_def)
  have "store_ok (q_store ?q)" by (auto simp: store_ok_def Get_def NewStore_def)
  moreover have "Get (q_store ?q) ''b'' = Some ?b" by (simp add: Get_def)
  moreover have "distinct (map r_QueuedAt (queued_runs (q_store ?q)))" unfolding qs by simp
  ultimately have "QueuePosition ''b'' ?q =
      1 + int (length (filter (\<lambda>r'. r_QueuedAt r' < r_QueuedAt ?b) (queued_runs (q_store ?q))))"
    by (intro queue_position_exact) simp_all
  then show ?thesis unfolding qs by simp
qed

end
