(* ===== verification/Lifecycle.thy ===== *)
theory Lifecycle
  imports Run Machines "HOL-Library.Multiset"
begin

text \<open>
  The abstract specification of the queue: the life of a run, without files, logs, jobs or locks.
  A request owns its run until it is in the channel, then the channel does, then a worker; the
  state of a run is changed by its owner, or by a cancellation at any time. The interleavings of
  the code are shown to be steps of this machine in the theory Interleave.
\<close>

section \<open>The machine\<close>

datatype worker_phase = WFree | WWait go_string | WRun go_string | WExit

datatype client_phase = CNew go_string | COwn go_string | CStranded go_string | CRest

record life =
  l_states :: "go_string \<Rightarrow> state option"
  l_chan :: "go_string list"
  l_depth :: nat
  l_closed :: bool
  l_workers :: "worker_phase list"
  l_clients :: "client_phase list"
  l_started :: "go_string list"

definition worker_ids :: "worker_phase \<Rightarrow> go_string list" where
  "worker_ids w = (case w of WWait i \<Rightarrow> [i] | WRun i \<Rightarrow> [i] | _ \<Rightarrow> [])"

definition client_ids :: "client_phase \<Rightarrow> go_string list" where
  "client_ids c = (case c of CNew i \<Rightarrow> [i] | COwn i \<Rightarrow> [i] | _ \<Rightarrow> [])"

lemma phase_ids [simp]:
  "worker_ids WFree = []" "worker_ids (WWait i) = [i]" "worker_ids (WRun i) = [i]" "worker_ids WExit = []"
  "client_ids (CNew i) = [i]" "client_ids (COwn i) = [i]" "client_ids (CStranded i) = []" "client_ids CRest = []"
  by (simp_all add: worker_ids_def client_ids_def)

text \<open>The runs that somebody owns, each as often as it is owned.\<close>

definition owned :: "life \<Rightarrow> go_string list" where
  "owned l = l_chan l @ concat (map worker_ids (l_workers l)) @ concat (map client_ids (l_clients l))"

inductive life_step :: "life \<Rightarrow> life \<Rightarrow> bool" where
  arrive: "l_states l i = None \<Longrightarrow> i \<notin> set (owned l) \<Longrightarrow>
    life_step l (l\<lparr>l_clients := l_clients l @ [CNew i]\<rparr>)"
| arrive_other: "life_step l (l\<lparr>l_clients := l_clients l @ [CRest]\<rparr>)"
| add: "k < length (l_clients l) \<Longrightarrow> l_clients l ! k = CNew i \<Longrightarrow>
    life_step l (l\<lparr>l_clients := (l_clients l)[k := COwn i], l_states := (l_states l)(i \<mapsto> StateQueued)\<rparr>)"
| strand: "k < length (l_clients l) \<Longrightarrow> l_clients l ! k = COwn i \<Longrightarrow>
    life_step l (l\<lparr>l_clients := (l_clients l)[k := CStranded i]\<rparr>)"
| send: "k < length (l_clients l) \<Longrightarrow> l_clients l ! k = COwn i \<Longrightarrow> \<not> l_closed l \<Longrightarrow>
    length (l_chan l) < l_depth l \<Longrightarrow>
    life_step l (l\<lparr>l_clients := (l_clients l)[k := CRest], l_chan := l_chan l @ [i]\<rparr>)"
| reject: "k < length (l_clients l) \<Longrightarrow> l_clients l ! k = COwn i \<Longrightarrow>
    life_step l (l\<lparr>l_clients := (l_clients l)[k := CRest], l_states := (l_states l)(i \<mapsto> StateErrored)\<rparr>)"
| pick: "k < length (l_workers l) \<Longrightarrow> l_workers l ! k = WFree \<Longrightarrow> l_chan l = i # is \<Longrightarrow>
    life_step l (l\<lparr>l_workers := (l_workers l)[k := WWait i], l_chan := is\<rparr>)"
| skip: "k < length (l_workers l) \<Longrightarrow> l_workers l ! k = WWait i \<Longrightarrow>
    life_step l (l\<lparr>l_workers := (l_workers l)[k := WFree], l_states := (l_states l)(i \<mapsto> StateCancelled)\<rparr>)"
| start: "k < length (l_workers l) \<Longrightarrow> l_workers l ! k = WWait i \<Longrightarrow>
    life_step l (l\<lparr>l_workers := (l_workers l)[k := WRun i],
      l_states := (l_states l)(i \<mapsto> StateRunning), l_started := l_started l @ [i]\<rparr>)"
| complete: "k < length (l_workers l) \<Longrightarrow> l_workers l ! k = WRun i \<Longrightarrow> Terminal st \<Longrightarrow>
    life_step l (l\<lparr>l_workers := (l_workers l)[k := WFree],
      l_states := (l_states l)(i \<mapsto> (if l_states l i = Some StateCancelled then StateCancelled else st))\<rparr>)"
| cancel: "l_states l i \<noteq> None \<Longrightarrow>
    life_step l (l\<lparr>l_states := (l_states l)(i \<mapsto> StateCancelled)\<rparr>)"
| shut: "life_step l (l\<lparr>l_closed := True\<rparr>)"
| leave: "k < length (l_workers l) \<Longrightarrow> l_workers l ! k = WFree \<Longrightarrow> l_closed l \<Longrightarrow> l_chan l = [] \<Longrightarrow>
    life_step l (l\<lparr>l_workers := (l_workers l)[k := WExit]\<rparr>)"

section \<open>The invariant\<close>

definition waiting :: "life \<Rightarrow> go_string \<Rightarrow> bool" where
  "waiting l i \<longleftrightarrow> l_states l i \<in> {Some StateQueued, Some StateCancelled} \<and> i \<notin> set (l_started l)"

definition worker_inv :: "life \<Rightarrow> worker_phase \<Rightarrow> bool" where
  "worker_inv l w = (case w of WWait i \<Rightarrow> waiting l i
     | WRun i \<Rightarrow> l_states l i \<in> {Some StateRunning, Some StateCancelled} \<and> i \<in> set (l_started l)
     | WFree \<Rightarrow> True | WExit \<Rightarrow> l_closed l \<and> l_chan l = [])"

definition client_inv :: "life \<Rightarrow> client_phase \<Rightarrow> bool" where
  "client_inv l c = (case c of CNew i \<Rightarrow> l_states l i = None | COwn i \<Rightarrow> waiting l i
     | CStranded i \<Rightarrow> waiting l i | CRest \<Rightarrow> True)"

definition account :: "life \<Rightarrow> go_string \<Rightarrow> bool" where
  "account l i \<longleftrightarrow>
     (case l_states l i of
        None \<Rightarrow> True
      | Some st \<Rightarrow>
          Terminal st \<or>
          st = StateQueued \<and> (i \<in> set (owned l) \<or> CStranded i \<in> set (l_clients l)) \<or>
          st = StateRunning \<and> WRun i \<in> set (l_workers l))"

definition accounted :: "life \<Rightarrow> bool" where
  "accounted l \<longleftrightarrow> (\<forall>i. account l i)"

definition life_inv :: "life \<Rightarrow> bool" where
  "life_inv l \<longleftrightarrow>
     distinct (owned l) \<and> distinct (l_started l) \<and> (\<forall>i \<in> set (l_started l). l_states l i \<noteq> None) \<and>
     length (l_chan l) \<le> l_depth l \<and>
     (\<forall>i. CStranded i \<in> set (l_clients l) \<longrightarrow> i \<notin> set (owned l)) \<and>
     (\<forall>i \<in> set (l_chan l). waiting l i) \<and> (\<forall>w \<in> set (l_workers l). worker_inv l w) \<and>
     (\<forall>c \<in> set (l_clients l). client_inv l c) \<and> accounted l"

section \<open>Replacing one owner in a list of owners\<close>

lemma distinct_concat_nth:
  "distinct (concat (map f xs)) \<Longrightarrow> j < length xs \<Longrightarrow> k < length xs \<Longrightarrow> j \<noteq> k \<Longrightarrow>
   x \<in> set (f (xs ! k)) \<Longrightarrow> x \<notin> set (f (xs ! j))"
proof (induction xs arbitrary: j k)
  case (Cons a xs)
  show ?case
  proof (cases j; cases k)
    fix k' assume "j = 0" "k = Suc k'"
    with Cons.prems show ?thesis by (auto dest!: nth_mem)
  next
    fix j' assume "j = Suc j'" "k = 0"
    with Cons.prems show ?thesis by (auto dest!: nth_mem)
  next
    fix j' k' assume "j = Suc j'" "k = Suc k'"
    with Cons show ?thesis by auto
  qed (use Cons.prems in auto)
qed simp

lemma concat_update_mset:
  "k < length xs \<Longrightarrow>
   mset (concat (map f (xs[k := y]))) + mset (f (xs ! k)) = mset (concat (map f xs)) + mset (f y)"
proof (induction xs arbitrary: k)
  case (Cons a xs)
  show ?case
  proof (cases k)
    case (Suc k')
    with Cons show ?thesis by (simp add: ac_simps)
  qed (simp add: ac_simps)
qed simp

lemma set_update_others:
  assumes "k < length xs" "P y" "\<And>j. j < length xs \<Longrightarrow> j \<noteq> k \<Longrightarrow> P (xs ! j)"
  shows "\<forall>x \<in> set (xs[k := y]). P x"
proof
  fix x
  assume "x \<in> set (xs[k := y])"
  then obtain j where "j < length xs" "x = xs[k := y] ! j" by (auto simp: in_set_conv_nth)
  with assms show "P x" by (cases "j = k") auto
qed

text \<open>The multiset of owned runs when one worker or one request changes its phase.\<close>

lemma owned_worker:
  assumes "k < length (l_workers l)"
  shows "mset (owned (l\<lparr>l_workers := (l_workers l)[k := w]\<rparr>)) + mset (worker_ids (l_workers l ! k)) =
    mset (owned l) + mset (worker_ids w)"
  using concat_update_mset [OF assms, of worker_ids w] by (simp add: owned_def ac_simps)

lemma owned_client:
  assumes "k < length (l_clients l)"
  shows "mset (owned (l\<lparr>l_clients := (l_clients l)[k := c]\<rparr>)) + mset (client_ids (l_clients l ! k)) =
    mset (owned l) + mset (client_ids c)"
  using concat_update_mset [OF assms, of client_ids c] by (simp add: owned_def ac_simps)

lemma worker_exclusive:
  assumes "distinct (owned l)" "k < length (l_workers l)" "i \<in> set (worker_ids (l_workers l ! k))"
  shows "i \<in> set (owned l)" "i \<notin> set (l_chan l)" "\<forall>c \<in> set (l_clients l). i \<notin> set (client_ids c)"
    "\<And>j. j < length (l_workers l) \<Longrightarrow> j \<noteq> k \<Longrightarrow> i \<notin> set (worker_ids (l_workers l ! j))"
proof -
  have i: "i \<in> set (concat (map worker_ids (l_workers l)))" using assms(2,3) by auto
  with assms(1) show "i \<in> set (owned l)" "i \<notin> set (l_chan l)" "\<forall>c \<in> set (l_clients l). i \<notin> set (client_ids c)"
    unfolding owned_def by (auto simp del: set_concat) auto
  have "distinct (concat (map worker_ids (l_workers l)))" using assms(1) by (simp add: owned_def)
  then show "\<And>j. j < length (l_workers l) \<Longrightarrow> j \<noteq> k \<Longrightarrow> i \<notin> set (worker_ids (l_workers l ! j))"
    using distinct_concat_nth assms(2,3) by metis
qed

lemma client_exclusive:
  assumes "distinct (owned l)" "k < length (l_clients l)" "i \<in> set (client_ids (l_clients l ! k))"
  shows "i \<in> set (owned l)" "i \<notin> set (l_chan l)" "\<forall>w \<in> set (l_workers l). i \<notin> set (worker_ids w)"
    "\<And>j. j < length (l_clients l) \<Longrightarrow> j \<noteq> k \<Longrightarrow> i \<notin> set (client_ids (l_clients l ! j))"
proof -
  have i: "i \<in> set (concat (map client_ids (l_clients l)))" using assms(2,3) by auto
  with assms(1) show "i \<in> set (owned l)" "i \<notin> set (l_chan l)" "\<forall>w \<in> set (l_workers l). i \<notin> set (worker_ids w)"
    unfolding owned_def by (auto simp del: set_concat) auto
  have "distinct (concat (map client_ids (l_clients l)))" using assms(1) by (simp add: owned_def)
  then show "\<And>j. j < length (l_clients l) \<Longrightarrow> j \<noteq> k \<Longrightarrow> i \<notin> set (client_ids (l_clients l ! j))"
    using distinct_concat_nth assms(2,3) by metis
qed

text \<open>A phase that does not own the run whose state changes keeps its part of the invariant.\<close>

lemma worker_inv_frame:
  assumes "worker_inv l w" "i \<notin> set (worker_ids w)" "l_closed l' = l_closed l" "l_chan l' = l_chan l"
    and "\<And>j. j \<noteq> i \<Longrightarrow> l_states l' j = l_states l j"
    and "\<And>j. j \<noteq> i \<Longrightarrow> (j \<in> set (l_started l')) = (j \<in> set (l_started l))"
  shows "worker_inv l' w"
  using assms by (cases w) (auto simp: worker_inv_def waiting_def)

lemma client_inv_frame:
  assumes "client_inv l c" "i \<notin> set (client_ids c)" "c \<noteq> CStranded i"
    and "\<And>j. j \<noteq> i \<Longrightarrow> l_states l' j = l_states l j"
    and "\<And>j. j \<noteq> i \<Longrightarrow> (j \<in> set (l_started l')) = (j \<in> set (l_started l))"
  shows "client_inv l' c"
  using assms by (cases c) (auto simp: client_inv_def waiting_def)

lemma owner_kept: "mset a = mset b \<Longrightarrow> distinct b \<Longrightarrow> distinct a \<and> set a = set b"
  by (metis mset_eq_imp_distinct_iff mset_eq_setD)

lemma owner_lost:
  assumes "mset a + {#i#} = mset b" "distinct b"
  shows "distinct a \<and> set a = set b - {i}"
proof -
  have "mset (i # a) = mset b" using assms(1) by simp
  with owner_kept [OF this assms(2)] show ?thesis by auto
qed

section \<open>Every step keeps it\<close>

text \<open>
  What is left to show for a step that changes the phase of worker \<open>k\<close>, or of request \<open>k\<close>, and
  at most the state of its run \<open>i\<close>.
\<close>

lemma worker_change:
  assumes inv: "life_inv l" and k: "k < length (l_workers l)" and i: "i \<in> set (worker_ids (l_workers l ! k))"
    and l': "l' = l\<lparr>l_workers := (l_workers l)[k := w], l_states := (l_states l)(i := s), l_started := st\<rparr>"
    and st: "distinct st" "set st - {i} = set (l_started l) - {i}" "s \<noteq> None"
    and own: "distinct (owned l')" "\<forall>j. CStranded j \<in> set (l_clients l) \<longrightarrow> j \<notin> set (owned l')"
    and w: "worker_inv l' w" and acc: "accounted l'"
  shows "life_inv l'"
proof -
  have d: "distinct (owned l)" and ch: "\<forall>j \<in> set (l_chan l). waiting l j"
    and wi: "\<forall>w \<in> set (l_workers l). worker_inv l w" and ci: "\<forall>c \<in> set (l_clients l). client_inv l c"
    and ss: "\<forall>j \<in> set (l_started l). l_states l j \<noteq> None" and len: "length (l_chan l) \<le> l_depth l"
    and stranded: "\<forall>j. CStranded j \<in> set (l_clients l) \<longrightarrow> j \<notin> set (owned l)"
    using inv by (simp_all add: life_inv_def)
  note ex = worker_exclusive [OF d k i]
  have same: "l_states l' j = l_states l j" "(j \<in> set (l_started l')) = (j \<in> set (l_started l))" if "j \<noteq> i" for j
    using that st(2) by (auto simp: l')
  have "\<forall>w \<in> set ((l_workers l)[k := w]). worker_inv l' w"
  proof (rule set_update_others [where P = "worker_inv l'", OF k w])
    fix j
    assume j: "j < length (l_workers l)" "j \<noteq> k"
    then have "worker_inv l (l_workers l ! j)" using wi by simp
    moreover have "l_closed l' = l_closed l" "l_chan l' = l_chan l" by (simp_all add: l')
    ultimately show "worker_inv l' (l_workers l ! j)"
      using worker_inv_frame [of l _ i l'] ex(4) [OF j] same by blast
  qed
  moreover have "\<forall>c \<in> set (l_clients l). client_inv l' c"
  proof
    fix c
    assume c: "c \<in> set (l_clients l)"
    then have "c \<noteq> CStranded i" using stranded ex(1) by auto
    with c ci ex(3) show "client_inv l' c" using client_inv_frame [of l c i l'] same by blast
  qed
  moreover have "\<forall>j \<in> set (l_chan l). waiting l' j"
    using ch ex(2) same by (metis waiting_def)
  moreover have "\<forall>j \<in> set st. l_states l' j \<noteq> None"
    using ss st by (auto simp: l')
  ultimately show ?thesis
    using len own st(1) acc by (simp add: life_inv_def l')
qed

lemma client_change:
  assumes inv: "life_inv l" and k: "k < length (l_clients l)" and i: "i \<in> set (client_ids (l_clients l ! k))"
    and l': "l' = l\<lparr>l_clients := (l_clients l)[k := c], l_states := (l_states l)(i := s), l_chan := ch\<rparr>"
    and st: "i \<in> set (l_started l) \<longrightarrow> s \<noteq> None" "length ch \<le> l_depth l"
    and ch: "\<forall>j \<in> set ch. j \<noteq> i \<longrightarrow> j \<in> set (l_chan l)" "i \<in> set ch \<longrightarrow> waiting l' i"
    and leave: "WExit \<in> set (l_workers l) \<longrightarrow> ch = l_chan l"
    and own: "distinct (owned l')" "\<forall>j. CStranded j \<in> set (l_clients l') \<longrightarrow> j \<notin> set (owned l')"
    and c: "client_inv l' c" and acc: "accounted l'"
  shows "life_inv l'"
proof -
  have d: "distinct (owned l)" and chw: "\<forall>j \<in> set (l_chan l). waiting l j"
    and wi: "\<forall>w \<in> set (l_workers l). worker_inv l w" and ci: "\<forall>c \<in> set (l_clients l). client_inv l c"
    and ss: "\<forall>j \<in> set (l_started l). l_states l j \<noteq> None"
    and stranded: "\<forall>j. CStranded j \<in> set (l_clients l) \<longrightarrow> j \<notin> set (owned l)"
    using inv by (simp_all add: life_inv_def)
  note ex = client_exclusive [OF d k i]
  have same: "l_states l' j = l_states l j" if "j \<noteq> i" for j using that by (simp add: l')
  have started: "(j \<in> set (l_started l')) = (j \<in> set (l_started l))" for j by (simp add: l')
  have "\<forall>c \<in> set ((l_clients l)[k := c]). client_inv l' c"
  proof (rule set_update_others [where P = "client_inv l'", OF k c])
    fix j
    assume j: "j < length (l_clients l)" "j \<noteq> k"
    have "l_clients l ! j \<in> set (l_clients l)" using j(1) by simp
    then have "l_clients l ! j \<noteq> CStranded i" "client_inv l (l_clients l ! j)" using stranded ex(1) ci by metis+
    with ex(4) [OF j] show "client_inv l' (l_clients l ! j)"
      using client_inv_frame [of l "l_clients l ! j" i l'] same started by blast
  qed
  moreover have "\<forall>w \<in> set (l_workers l). worker_inv l' w"
  proof
    fix w
    assume w: "w \<in> set (l_workers l)"
    have "i \<notin> set (worker_ids w)" "worker_inv l w" using w ex(3) wi by auto
    then show "worker_inv l' w"
      using w leave same by (cases w) (auto simp: worker_inv_def waiting_def l')
  qed
  moreover have "\<forall>j \<in> set ch. waiting l' j"
  proof
    fix j
    assume "j \<in> set ch"
    then show "waiting l' j"
      using ch chw by (cases "j = i") (auto simp: waiting_def l')
  qed
  moreover have "\<forall>j \<in> set (l_started l). l_states l' j \<noteq> None" using ss st(1) by (auto simp: l')
  ultimately show ?thesis
    using inv own st(2) acc by (simp add: life_inv_def l')
qed

lemma in_update_other: "x \<in> set xs \<Longrightarrow> xs ! k \<noteq> x \<Longrightarrow> x \<in> set (xs[k := y])"
  by (metis in_set_conv_nth length_list_update nth_list_update_neq)

lemma account_other:
  assumes "account l j" "l_states l' j = l_states l j" "j \<in> set (owned l) \<Longrightarrow> j \<in> set (owned l')"
    and "CStranded j \<in> set (l_clients l) \<Longrightarrow> CStranded j \<in> set (l_clients l')"
    and "WRun j \<in> set (l_workers l) \<Longrightarrow> WRun j \<in> set (l_workers l')"
  shows "account l' j"
  using assms by (auto simp: account_def split: option.splits)

lemma accounted_worker:
  assumes "accounted l" "i \<in> set (worker_ids (l_workers l ! k))"
    and "l' = l\<lparr>l_workers := (l_workers l)[k := w], l_states := (l_states l)(i := s), l_started := st\<rparr>"
    and "set (owned l) - {i} \<subseteq> set (owned l')" "account l' i"
  shows "accounted l'"
  unfolding accounted_def
proof
  fix j
  show "account l' j"
  proof (cases "j = i")
    case False
    then have "l_workers l ! k \<noteq> WRun j" using assms(2) by auto
    then have "WRun j \<in> set (l_workers l) \<Longrightarrow> WRun j \<in> set (l_workers l')"
      by (simp add: assms(3) in_update_other)
    with False show ?thesis
      using assms(1,4) by (intro account_other [of l j l']) (auto simp: accounted_def assms(3))
  qed (use assms in simp)
qed

lemma accounted_client:
  assumes "accounted l" "i \<in> set (client_ids (l_clients l ! k))"
    and "l' = l\<lparr>l_clients := (l_clients l)[k := c], l_states := (l_states l)(i := s), l_chan := ch\<rparr>"
    and "set (owned l) - {i} \<subseteq> set (owned l')" "account l' i"
  shows "accounted l'"
  unfolding accounted_def
proof
  fix j
  show "account l' j"
  proof (cases "j = i")
    case False
    have "l_clients l ! k \<noteq> CStranded j" using assms(2) by auto
    then have "CStranded j \<in> set (l_clients l) \<Longrightarrow> CStranded j \<in> set (l_clients l')"
      by (simp add: assms(3) in_update_other)
    with False show ?thesis
      using assms(1,4) by (intro account_other [of l j l']) (auto simp: accounted_def assms(3))
  qed (use assms in simp)
qed

text \<open>The steps of a worker that owns a run.\<close>

lemma start_inv:
  assumes "life_inv l" "k < length (l_workers l)" "l_workers l ! k = WWait i"
  shows "life_inv (l\<lparr>l_workers := (l_workers l)[k := WRun i],
      l_states := (l_states l)(i \<mapsto> StateRunning), l_started := l_started l @ [i]\<rparr>)" (is "life_inv ?l")
proof -
  have d: "distinct (owned l)" "distinct (l_started l)" "accounted l"
    "\<forall>j. CStranded j \<in> set (l_clients l) \<longrightarrow> j \<notin> set (owned l)" using assms(1) by (simp_all add: life_inv_def)
  have "worker_inv l (WWait i)" using assms nth_mem unfolding life_inv_def by metis
  then have ni: "i \<notin> set (l_started l)" by (simp add: worker_inv_def waiting_def)
  have "owned ?l = owned (l\<lparr>l_workers := (l_workers l)[k := WRun i]\<rparr>)" by (simp add: owned_def)
  then have "mset (owned ?l) = mset (owned l)"
    using owned_worker [OF assms(2), of "WRun i"] assms(3) by simp
  from owner_kept [OF this d(1)] have own: "distinct (owned ?l)" "set (owned ?l) = set (owned l)" by auto
  have i: "i \<in> set (worker_ids (l_workers l ! k))" by (simp add: assms(3))
  have "WRun i \<in> set ((l_workers l)[k := WRun i])" using assms(2) by (simp add: set_update_memI)
  then have "account ?l i" by (simp add: account_def)
  then have "accounted ?l" using own(2) by (intro accounted_worker [OF d(3) i refl]) auto
  then show ?thesis
    using d own ni by (intro worker_change [OF assms(1,2) i refl]) (auto simp: worker_inv_def)
qed

lemma release_inv:
  assumes "life_inv l" "k < length (l_workers l)" "l_workers l ! k \<in> {WWait i, WRun i}" "Terminal st"
  shows "life_inv (l\<lparr>l_workers := (l_workers l)[k := WFree], l_states := (l_states l)(i \<mapsto> st)\<rparr>)"
    (is "life_inv ?l")
proof -
  have d: "distinct (owned l)" "distinct (l_started l)" "accounted l"
    "\<forall>j. CStranded j \<in> set (l_clients l) \<longrightarrow> j \<notin> set (owned l)" using assms(1) by (simp_all add: life_inv_def)
  have i: "i \<in> set (worker_ids (l_workers l ! k))" "worker_ids (l_workers l ! k) = [i]" using assms(3) by auto
  have "owned ?l = owned (l\<lparr>l_workers := (l_workers l)[k := WFree]\<rparr>)" by (simp add: owned_def)
  then have "mset (owned ?l) + {#i#} = mset (owned l)"
    using owned_worker [OF assms(2), of WFree] i(2) by simp
  from owner_lost [OF this d(1)] have own: "distinct (owned ?l)" "set (owned ?l) = set (owned l) - {i}" by auto
  have e: "?l = l\<lparr>l_workers := (l_workers l)[k := WFree], l_states := (l_states l)(i \<mapsto> st), l_started := l_started l\<rparr>"
    by simp
  have "account ?l i" using assms(4) by (simp add: account_def)
  then have "accounted ?l" using own(2) by (intro accounted_worker [OF d(3) i(1) e]) auto
  then show ?thesis
    using d own by (intro worker_change [OF assms(1,2) i(1) e]) (auto simp: worker_inv_def)
qed

text \<open>The steps of a request that owns a run.\<close>

lemma in_update_stranded:
  "CStranded j \<in> set (xs[k := c]) \<Longrightarrow> c \<noteq> CStranded j \<Longrightarrow> CStranded j \<in> set xs"
  by (metis insert_iff set_update_subset_insert subsetD)

lemma owned_chan: "owned (l\<lparr>l_clients := cs, l_states := ss, l_chan := ch\<rparr>) =
    ch @ concat (map worker_ids (l_workers l)) @ concat (map client_ids cs)"
  by (simp add: owned_def)

lemma add_inv:
  assumes "life_inv l" "k < length (l_clients l)" "l_clients l ! k = CNew i"
  shows "life_inv (l\<lparr>l_clients := (l_clients l)[k := COwn i], l_states := (l_states l)(i \<mapsto> StateQueued)\<rparr>)"
    (is "life_inv ?l")
proof -
  have d: "distinct (owned l)" "accounted l" "length (l_chan l) \<le> l_depth l"
    "\<forall>j. CStranded j \<in> set (l_clients l) \<longrightarrow> j \<notin> set (owned l)"
    "\<forall>j \<in> set (l_started l). l_states l j \<noteq> None" using assms(1) by (simp_all add: life_inv_def)
  have "client_inv l (CNew i)" using assms nth_mem unfolding life_inv_def by metis
  then have ni: "i \<notin> set (l_started l)" using d(5) by (auto simp: client_inv_def)
  have i: "i \<in> set (client_ids (l_clients l ! k))" by (simp add: assms(3))
  have e: "?l = l\<lparr>l_clients := (l_clients l)[k := COwn i], l_states := (l_states l)(i \<mapsto> StateQueued), l_chan := l_chan l\<rparr>"
    by simp
  have "owned ?l = owned (l\<lparr>l_clients := (l_clients l)[k := COwn i]\<rparr>)" by (simp add: owned_def)
  then have "mset (owned ?l) = mset (owned l)"
    using owned_client [OF assms(2), of "COwn i"] assms(3) by simp
  from owner_kept [OF this d(1)] have own: "distinct (owned ?l)" "set (owned ?l) = set (owned l)" by auto
  have io: "i \<in> set (owned l)" using client_exclusive(1) [OF d(1) assms(2) i] .
  then have "account ?l i" using own(2) by (simp add: account_def)
  then have "accounted ?l" using own(2) by (intro accounted_client [OF d(2) i e]) auto
  moreover have "client_inv ?l (COwn i)" using ni by (simp add: client_inv_def waiting_def)
  moreover have "i \<notin> set (l_chan l)" using client_exclusive(2) [OF d(1) assms(2) i] .
  ultimately show ?thesis
    using d own ni
    by (intro client_change [OF assms(1,2) i e]) (auto dest: in_update_stranded)
qed

lemma strand_inv:
  assumes "life_inv l" "k < length (l_clients l)" "l_clients l ! k = COwn i"
  shows "life_inv (l\<lparr>l_clients := (l_clients l)[k := CStranded i]\<rparr>)" (is "life_inv ?l")
proof -
  have d: "distinct (owned l)" "accounted l" "length (l_chan l) \<le> l_depth l"
    "\<forall>j. CStranded j \<in> set (l_clients l) \<longrightarrow> j \<notin> set (owned l)"
    "\<forall>j \<in> set (l_started l). l_states l j \<noteq> None" using assms(1) by (simp_all add: life_inv_def)
  have w: "client_inv l (COwn i)" using assms nth_mem unfolding life_inv_def by metis
  have i: "i \<in> set (client_ids (l_clients l ! k))" by (simp add: assms(3))
  have e: "?l = l\<lparr>l_clients := (l_clients l)[k := CStranded i], l_states := (l_states l)(i := l_states l i), l_chan := l_chan l\<rparr>"
    by simp
  have "mset (owned ?l) + {#i#} = mset (owned l)"
    using owned_client [OF assms(2), of "CStranded i"] assms(3) by simp
  from owner_lost [OF this d(1)] have own: "distinct (owned ?l)" "set (owned ?l) = set (owned l) - {i}" by auto
  have "CStranded i \<in> set (l_clients ?l)" using assms(2) by (simp add: set_update_memI)
  then have "account ?l i"
    using w by (auto simp: account_def client_inv_def waiting_def)
  then have "accounted ?l" using own(2) by (intro accounted_client [OF d(2) i e]) auto
  moreover have "client_inv ?l (CStranded i)" using w by (simp add: client_inv_def waiting_def)
  moreover have "\<forall>j. CStranded j \<in> set (l_clients ?l) \<longrightarrow> j \<notin> set (owned ?l)"
    using d(4) own(2) by (auto dest!: in_update_stranded)
  moreover have "i \<notin> set (l_chan l)" using client_exclusive(2) [OF d(1) assms(2) i] .
  ultimately show ?thesis
    using d(3,5) own(1) by (intro client_change [OF assms(1,2) i e]) auto
qed

lemma send_inv:
  assumes "life_inv l" "k < length (l_clients l)" "l_clients l ! k = COwn i"
    and "\<not> l_closed l" "length (l_chan l) < l_depth l"
  shows "life_inv (l\<lparr>l_clients := (l_clients l)[k := CRest], l_chan := l_chan l @ [i]\<rparr>)" (is "life_inv ?l")
proof -
  have d: "distinct (owned l)" "accounted l"
    "\<forall>j. CStranded j \<in> set (l_clients l) \<longrightarrow> j \<notin> set (owned l)"
    "\<forall>j \<in> set (l_started l). l_states l j \<noteq> None" using assms(1) by (simp_all add: life_inv_def)
  have "client_inv l (COwn i)" using assms(1-3) nth_mem unfolding life_inv_def by metis
  then have w: "waiting l i" by (simp add: client_inv_def)
  have i: "i \<in> set (client_ids (l_clients l ! k))" by (simp add: assms(3))
  have e: "?l = l\<lparr>l_clients := (l_clients l)[k := CRest], l_states := (l_states l)(i := l_states l i), l_chan := l_chan l @ [i]\<rparr>"
    by simp
  have "mset (owned ?l) = mset (owned l)"
    using owned_client [OF assms(2), of CRest] assms(3) by (simp add: owned_def ac_simps)
  from owner_kept [OF this d(1)] have own: "distinct (owned ?l)" "set (owned ?l) = set (owned l)" by auto
  have "account ?l i"
    using w own(2) client_exclusive(1) [OF d(1) assms(2) i] by (auto simp: account_def waiting_def)
  then have "accounted ?l" using own(2) by (intro accounted_client [OF d(2) i e]) auto
  moreover have "WExit \<notin> set (l_workers l)"
    using assms(1,4) by (auto simp: life_inv_def worker_inv_def)
  moreover have "waiting ?l i" "l_states l i \<noteq> None" using w by (auto simp: waiting_def)
  moreover have "\<forall>j. CStranded j \<in> set (l_clients ?l) \<longrightarrow> j \<notin> set (owned ?l)"
    using d(3) unfolding own(2) by (auto dest: in_update_stranded)
  moreover have "client_inv ?l CRest" by (simp add: client_inv_def)
  moreover have "length (l_chan l @ [i]) \<le> l_depth l" using assms(5) by simp
  moreover have "\<forall>j \<in> set (l_chan l @ [i]). j \<noteq> i \<longrightarrow> j \<in> set (l_chan l)" by simp
  ultimately show ?thesis
    using own(1) by (intro client_change [OF assms(1,2) i e]) blast+
qed

lemma reject_inv:
  assumes "life_inv l" "k < length (l_clients l)" "l_clients l ! k = COwn i"
  shows "life_inv (l\<lparr>l_clients := (l_clients l)[k := CRest], l_states := (l_states l)(i \<mapsto> StateErrored)\<rparr>)"
    (is "life_inv ?l")
proof -
  have d: "distinct (owned l)" "accounted l" "length (l_chan l) \<le> l_depth l"
    "\<forall>j. CStranded j \<in> set (l_clients l) \<longrightarrow> j \<notin> set (owned l)"
    "\<forall>j \<in> set (l_started l). l_states l j \<noteq> None" using assms(1) by (simp_all add: life_inv_def)
  have i: "i \<in> set (client_ids (l_clients l ! k))" by (simp add: assms(3))
  have e: "?l = l\<lparr>l_clients := (l_clients l)[k := CRest], l_states := (l_states l)(i \<mapsto> StateErrored), l_chan := l_chan l\<rparr>"
    by simp
  have "owned ?l = owned (l\<lparr>l_clients := (l_clients l)[k := CRest]\<rparr>)" by (simp add: owned_def)
  then have "mset (owned ?l) + {#i#} = mset (owned l)"
    using owned_client [OF assms(2), of CRest] assms(3) by simp
  from owner_lost [OF this d(1)] have own: "distinct (owned ?l)" "set (owned ?l) = set (owned l) - {i}" by auto
  have "account ?l i" by (simp add: account_def)
  then have "accounted ?l" using own(2) by (intro accounted_client [OF d(2) i e]) auto
  moreover have "i \<notin> set (l_chan l)" using client_exclusive(2) [OF d(1) assms(2) i] .
  ultimately show ?thesis
    using d own by (intro client_change [OF assms(1,2) i e]) (auto dest: in_update_stranded simp: client_inv_def)
qed

text \<open>The other steps.\<close>

lemma waiting_frame:
  "waiting l i \<Longrightarrow> l_states l' i \<in> {l_states l i, Some StateCancelled} \<Longrightarrow> l_started l' = l_started l \<Longrightarrow> waiting l' i"
  by (auto simp: waiting_def)

lemma arrive_inv:
  assumes "life_inv l" "l_states l i = None" "i \<notin> set (owned l)"
  shows "life_inv (l\<lparr>l_clients := l_clients l @ [CNew i]\<rparr>)" (is "life_inv ?l")
proof -
  have o: "owned ?l = owned l @ [i]" by (simp add: owned_def)
  have "CStranded i \<notin> set (l_clients l)"
  proof
    assume "CStranded i \<in> set (l_clients l)"
    then have "client_inv l (CStranded i)" using assms(1) unfolding life_inv_def by metis
    with assms(2) show False by (simp add: client_inv_def waiting_def)
  qed
  moreover have "account ?l j" if "account l j" for j
    using that by (rule account_other) (auto simp: o)
  moreover have "client_inv ?l c" if "client_inv l c" for c
    using that by (cases c) (auto simp: client_inv_def waiting_def)
  moreover have "worker_inv ?l w" if "worker_inv l w" for w
    using that by (cases w) (auto simp: worker_inv_def waiting_def)
  ultimately show ?thesis
    using assms unfolding life_inv_def accounted_def o
    by (auto simp: client_inv_def waiting_def)
qed

lemma arrive_other_inv:
  assumes "life_inv l"
  shows "life_inv (l\<lparr>l_clients := l_clients l @ [CRest]\<rparr>)" (is "life_inv ?l")
proof -
  have o: "owned ?l = owned l" by (simp add: owned_def)
  have "account ?l j" if "account l j" for j
    using that by (rule account_other) (auto simp: o)
  moreover have "client_inv ?l c" if "client_inv l c" for c
    using that by (cases c) (auto simp: client_inv_def waiting_def)
  moreover have "worker_inv ?l w" if "worker_inv l w" for w
    using that by (cases w) (auto simp: worker_inv_def waiting_def)
  ultimately show ?thesis
    using assms unfolding life_inv_def accounted_def o
    by (auto simp: client_inv_def waiting_def)
qed

lemma pick_inv:
  assumes "life_inv l" "k < length (l_workers l)" "l_workers l ! k = WFree" "l_chan l = i # is"
  shows "life_inv (l\<lparr>l_workers := (l_workers l)[k := WWait i], l_chan := is\<rparr>)" (is "life_inv ?l")
proof -
  have "owned ?l = is @ concat (map worker_ids ((l_workers l)[k := WWait i])) @ concat (map client_ids (l_clients l))"
    by (simp add: owned_def)
  then have "mset (owned ?l) = mset (owned l)"
    using owned_worker [OF assms(2), of "WWait i"] assms(3,4) by (simp add: owned_def)
  with owner_kept assms(1) have own: "distinct (owned ?l)" "set (owned ?l) = set (owned l)"
    unfolding life_inv_def by blast+
  have w: "waiting ?l j" if "waiting l j" for j using that by (simp add: waiting_def)
  have "worker_inv l (l_workers l ! j)" if "j < length (l_workers l)" for j
    using that assms(1) by (simp add: life_inv_def)
  moreover have "worker_inv ?l x" if "worker_inv l x" for x
    using that assms(4) w by (cases x) (auto simp: worker_inv_def waiting_def)
  ultimately have "\<forall>x \<in> set ((l_workers l)[k := WWait i]). worker_inv ?l x"
    using assms(1,4) w
    by (intro set_update_others [where P = "worker_inv ?l", OF assms(2)])
      (auto simp: life_inv_def worker_inv_def)
  moreover have "client_inv ?l c" if "client_inv l c" for c
    using that by (cases c) (auto simp: client_inv_def waiting_def)
  moreover have "account ?l j" if "account l j" for j
    using that by (rule account_other) (auto simp: own(2) assms(3) in_update_other)
  ultimately show ?thesis
    using assms(1,4) own w unfolding life_inv_def accounted_def by auto
qed

lemma cancel_inv:
  assumes "life_inv l" "l_states l i \<noteq> None"
  shows "life_inv (l\<lparr>l_states := (l_states l)(i \<mapsto> StateCancelled)\<rparr>)" (is "life_inv ?l")
proof -
  have o: "owned ?l = owned l" by (simp add: owned_def)
  have "client_inv ?l c" if "client_inv l c" for c
    using that assms(2) by (cases c) (auto simp: client_inv_def waiting_def)
  moreover have "worker_inv ?l w" if "worker_inv l w" for w
    using that by (cases w) (auto simp: worker_inv_def waiting_def)
  moreover have "account ?l j" if "account l j" for j
  proof (cases "j = i")
    case False
    with that show ?thesis by (intro account_other [OF that]) (auto simp: o)
  qed (simp add: account_def)
  moreover have "waiting ?l j" if "waiting l j" for j
    using that by (rule waiting_frame) auto
  ultimately show ?thesis
    using assms unfolding life_inv_def accounted_def o by auto
qed

lemma shut_inv:
  assumes "life_inv l"
  shows "life_inv (l\<lparr>l_closed := True\<rparr>)" (is "life_inv ?l")
proof -
  have o: "owned ?l = owned l" by (simp add: owned_def)
  have "client_inv ?l c" if "client_inv l c" for c
    using that by (cases c) (auto simp: client_inv_def waiting_def)
  moreover have "worker_inv ?l w" if "worker_inv l w" for w
    using that by (cases w) (auto simp: worker_inv_def waiting_def)
  moreover have "account ?l j" if "account l j" for j
    using that by (rule account_other) (auto simp: o)
  ultimately show ?thesis
    using assms unfolding life_inv_def accounted_def o by (auto simp: waiting_def)
qed

lemma leave_inv:
  assumes "life_inv l" "k < length (l_workers l)" "l_workers l ! k = WFree" "l_closed l" "l_chan l = []"
  shows "life_inv (l\<lparr>l_workers := (l_workers l)[k := WExit]\<rparr>)" (is "life_inv ?l")
proof -
  have "mset (owned ?l) = mset (owned l)"
    using owned_worker [OF assms(2), of WExit] assms(3) by simp
  with owner_kept assms(1) have own: "distinct (owned ?l)" "set (owned ?l) = set (owned l)"
    unfolding life_inv_def by blast+
  have "worker_inv l (l_workers l ! j)" if "j < length (l_workers l)" for j
    using that assms(1) by (simp add: life_inv_def)
  moreover have "worker_inv ?l x" if "worker_inv l x" for x
    using that by (cases x) (auto simp: worker_inv_def waiting_def)
  ultimately have "\<forall>x \<in> set ((l_workers l)[k := WExit]). worker_inv ?l x"
    using assms(4,5)
    by (intro set_update_others [where P = "worker_inv ?l", OF assms(2)]) (auto simp: worker_inv_def)
  moreover have "client_inv ?l c" if "client_inv l c" for c
    using that by (cases c) (auto simp: client_inv_def waiting_def)
  moreover have "account ?l j" if "account l j" for j
    using that by (rule account_other) (auto simp: own(2) assms(3) in_update_other)
  ultimately show ?thesis
    using assms(1,5) own unfolding life_inv_def accounted_def by auto
qed

lemma life_step_inv:
  assumes "life_step l l'" "life_inv l"
  shows "life_inv l'"
  using assms
proof (cases rule: life_step.cases)
  case (skip k i)
  then show ?thesis using release_inv [of l k i StateCancelled] assms(2) by simp
next
  case (complete k i st)
  then show ?thesis
    using release_inv [of l k i "if l_states l i = Some StateCancelled then StateCancelled else st"] assms(2)
    by simp
qed (use assms(2) arrive_inv arrive_other_inv add_inv strand_inv send_inv reject_inv pick_inv start_inv
    cancel_inv shut_inv leave_inv in \<open>simp_all\<close>)

inductive_cases life_stepE: "life_step l l'"

section \<open>What the invariant gives\<close>

text \<open>The moves a run can make; a cancellation may come at any time, and may be overtaken.\<close>

definition may_move :: "state \<Rightarrow> state \<Rightarrow> bool" where
  "may_move st st' \<longleftrightarrow>
     st' = st \<or> st' = StateCancelled \<or>
     st = StateQueued \<and> st' \<in> {StateRunning, StateErrored} \<or>
     st = StateRunning \<and> Terminal st' \<or>
     st = StateCancelled \<and> st' \<in> {StateRunning, StateErrored}"

lemma life_moves:
  assumes "life_step l l'" "life_inv l" "l_states l i = Some st"
  shows "\<exists>st'. l_states l' i = Some st' \<and> may_move st st'"
proof -
  have w: "worker_inv l (l_workers l ! k)" if "k < length (l_workers l)" for k
    using assms(2) that by (simp add: life_inv_def)
  have c: "client_inv l (l_clients l ! k)" if "k < length (l_clients l)" for k
    using assms(2) that by (simp add: life_inv_def)
  show ?thesis
    using assms(1)
  proof (cases rule: life_step.cases)
    case (add k j)
    with c [of k] assms(3) show ?thesis by (auto simp: client_inv_def may_move_def)
  next
    case (reject k j)
    with c [of k] assms(3) show ?thesis by (auto simp: client_inv_def waiting_def may_move_def)
  next
    case (start k j)
    with w [of k] assms(3) show ?thesis by (auto simp: worker_inv_def waiting_def may_move_def)
  next
    case (complete k j s)
    with w [of k] assms(3) show ?thesis by (auto simp: worker_inv_def may_move_def)
  qed (use assms(3) in \<open>auto simp: may_move_def\<close>)
qed

text \<open>At most as many runs are running as there are workers.\<close>

definition running_ids :: "life \<Rightarrow> go_string set" where
  "running_ids l = {i. l_states l i = Some StateRunning}"

lemma running_bound:
  assumes "life_inv l"
  shows "finite (running_ids l) \<and> card (running_ids l) \<le> length (l_workers l)"
proof -
  have sub: "running_ids l \<subseteq> (\<lambda>w. case w of WRun i \<Rightarrow> i | _ \<Rightarrow> []) ` set (l_workers l)"
  proof
    fix i
    assume "i \<in> running_ids l"
    moreover have "account l i" using assms by (simp add: life_inv_def accounted_def)
    ultimately have "WRun i \<in> set (l_workers l)" by (simp add: running_ids_def account_def)
    then show "i \<in> (\<lambda>w. case w of WRun i \<Rightarrow> i | _ \<Rightarrow> []) ` set (l_workers l)" by force
  qed
  have "finite (running_ids l)" using sub by (rule finite_subset) simp
  moreover have "card (running_ids l) \<le> card (set (l_workers l))"
    using card_mono [OF _ sub] card_image_le [of "set (l_workers l)" "\<lambda>w. case w of WRun i \<Rightarrow> i | _ \<Rightarrow> []"]
    by (meson List.finite_set finite_imageI le_trans)
  moreover have "card (set (l_workers l)) \<le> length (l_workers l)" by (rule card_length)
  ultimately show ?thesis by linarith
qed

text \<open>When every worker has left and every request is answered, nothing is unfinished but what was stranded.\<close>

lemma all_left:
  assumes "life_inv l" "l_workers l \<noteq> []" "\<forall>w \<in> set (l_workers l). w = WExit"
    and "\<forall>c \<in> set (l_clients l). client_ids c = []" "l_states l i = Some st"
  shows "Terminal st \<or> st = StateQueued \<and> CStranded i \<in> set (l_clients l)"
proof -
  obtain w where "w \<in> set (l_workers l)" using assms(2) by (cases "l_workers l") auto
  with assms(1,3) have "worker_inv l WExit" by (auto simp: life_inv_def)
  then have "l_chan l = []" by (simp add: worker_inv_def)
  moreover have "concat (map worker_ids (l_workers l)) = []" "concat (map client_ids (l_clients l)) = []"
    using assms(3,4) by auto
  ultimately have "owned l = []" by (simp add: owned_def)
  moreover have "WRun i \<notin> set (l_workers l)" using assms(3) by auto
  moreover have "account l i" using assms(1) by (simp add: life_inv_def accounted_def)
  ultimately show ?thesis using assms(5) by (auto simp: account_def)
qed

end
