(* ===== verification/Interleave.thy ===== *)
theory Interleave
  imports Queue Lifecycle
begin

text \<open>
  All threads of the server that touch runs, interleaved: the workers of \<open>queue.go\<close> and the
  requests that create and cancel runs (\<open>createRun\<close> from \<open>store.Add\<close> on, and \<open>Cancel\<close>). A step is
  one section of code between two points where another thread can come in: a store update under
  its lock, the write of \<open>meta.json\<close> that follows it outside that lock, a section under the
  queue's lock, one channel operation, one unlocked read. Every step is shown to be a step of the
  machine of the theory Lifecycle.
\<close>

section \<open>Threads\<close>

text \<open>Where a worker is in \<open>worker\<close>, \<open>execute\<close> and \<open>finish\<close>.\<close>

datatype worker =
    Idle
  | Picked nat
  | Skipping nat
  | Starting nat
  | Marking nat
  | MarkPersist nat run
  | Launching nat
  | PidPersist nat run
  | Executing nat
  | Finishing nat outcome
  | FinishPersist nat outcome run
  | Logging nat outcome
  | Removing nat
  | Exited

datatype answer =
    Accepted go_string
  | AddFailed go_string
  | SubmitPanicked go_string
  | TooMany go_string
  | CancelAccepted go_string
  | CancelRefused go_string cancel_error

text \<open>Where a request is in \<open>createRun\<close> (with \<open>Submit\<close>) or in \<open>Cancel\<close>.\<close>

datatype client =
    Adding run workflow "(go_string, go_string) gomap"
  | AddPersist run workflow "(go_string, go_string) gomap"
  | Submitting run workflow "(go_string, go_string) gomap"
  | Sending nat
  | RollingBack nat
  | MarkFull nat
  | FullPersist nat run
  | CancelCheck go_string
  | CancelFlag go_string
  | CancelRead go_string nat
  | CancelMark go_string
  | CancelPersist go_string run
  | Answered answer

record sys =
  s_queue :: queue
  s_workers :: "worker list"
  s_clients :: "client list"
  s_started :: "go_string list"

text \<open>What the world answers to one step: time, file system, and what the child did.\<close>

record call =
  c_now :: int
  c_persist :: persist_env
  c_pid :: "int option"
  c_said :: "go_string list"
  c_outcome :: outcome
  c_found :: "summary option \<times> artifact list"

text \<open>
  What \<open>Execute\<close> can report for a job: a terminal state, and \<open>cancelled\<close> only if the context of
  the job or of the server is done (theorem \<open>outcome_sound\<close>).
\<close>

definition outcome_ok :: "nat \<Rightarrow> queue \<Rightarrow> outcome \<Rightarrow> bool" where
  "outcome_ok a q out \<longleftrightarrow>
     Terminal (oc_State out) \<and>
     (oc_State out = StateCancelled \<longrightarrow> j_ctxDone (job_of q a) \<or> q_ctxDone q)"

section \<open>The steps of a worker\<close>

text \<open>A store update: the run after it when there is one, and the queue with the new table.\<close>

definition update_run :: "go_string \<Rightarrow> (run \<Rightarrow> run) \<Rightarrow> queue \<Rightarrow> run option \<times> queue" where
  "update_run i f q = (map_option f (Get (q_store q) i), in_mem i f q)"

definition say_all :: "nat \<Rightarrow> go_string list \<Rightarrow> queue \<Rightarrow> queue option" where
  "say_all a ts q =
     map_option (\<lambda>b. set_job a (\<lambda>j. j\<lparr>j_buf := b\<rparr>) q) (write_all Append ts (j_buf (job_of q a)))"

fun worker_step :: "call \<Rightarrow> worker \<Rightarrow> queue \<Rightarrow> (worker \<times> queue) option" where
  "worker_step c Idle q =
     (case receive q of
        (Job a, q') \<Rightarrow> Some (Picked a, q')
      | (Blocked, q') \<Rightarrow> None
      | (Ended, q') \<Rightarrow> Some (Exited, q'))"
| "worker_step c (Picked a) q = Some (if skip_job a q then Skipping a else Starting a, q)"
| "worker_step c (Skipping a) q =
     (case update_run (j_runID (job_of q a)) (finalise (c_now c) skipped (c_found c)) q of
        (Some r, q') \<Rightarrow> Some (FinishPersist a skipped r, q')
      | (None, q') \<Rightarrow> Some (Logging a skipped, q'))"
| "worker_step c (Starting a) q = Some (Marking a, set_cancelFn a q)"
| "worker_step c (Marking a) q =
     (case update_run (j_runID (job_of q a)) (mark_running (c_now c)) q of
        (Some r, q') \<Rightarrow> Some (MarkPersist a r, q')
      | (None, q') \<Rightarrow> Some (Launching a, q'))"
| "worker_step c (MarkPersist a r) q = Some (Launching a, fst (on_disk (c_persist c) r q))"
| "worker_step c (Launching a) q =
     (case c_pid c of
        None \<Rightarrow>
          if oc_State (c_outcome c) = StateErrored
          then map_option (Pair (Finishing a (c_outcome c))) (say_all a (c_said c) q) else None
      | Some pid \<Rightarrow>
          (case update_run (j_runID (job_of q a)) (record_pid pid) q of
             (Some r, q') \<Rightarrow> Some (PidPersist a r, q')
           | (None, q') \<Rightarrow> Some (Executing a, q')))"
| "worker_step c (PidPersist a r) q = Some (Executing a, fst (on_disk (c_persist c) r q))"
| "worker_step c (Executing a) q =
     (if outcome_ok a q (c_outcome c)
      then map_option (Pair (Finishing a (c_outcome c))) (say_all a (c_said c) q) else None)"
| "worker_step c (Finishing a out) q =
     (case update_run (j_runID (job_of q a)) (finalise (c_now c) out (c_found c)) q of
        (Some r, q') \<Rightarrow> Some (FinishPersist a out r, q')
      | (None, q') \<Rightarrow> Some (Logging a out, q'))"
| "worker_step c (FinishPersist a out r) q = Some (Logging a out, fst (on_disk (c_persist c) r q))"
| "worker_step c (Logging a out) q = map_option (Pair (Removing a)) (finish_log a out q)"
| "worker_step c (Removing a) q = Some (Idle, finish_remove a q)"
| "worker_step c Exited q = None"

section \<open>The steps of a request\<close>

definition queue_full :: "run \<Rightarrow> run" where
  "queue_full r = r\<lparr>r_State := StateErrored, r_Error := ''queue full''\<rparr>"

text \<open>\<open>persist\<close> of \<open>Add\<close> reads the run through the pointer that is already in the table.\<close>

fun client_step :: "call \<Rightarrow> client \<Rightarrow> queue \<Rightarrow> (client \<times> queue) option" where
  "client_step c (Adding r w env) q =
     Some (AddPersist r w env, q\<lparr>q_store := (q_store q)\<lparr>runs := AList.update (r_ID r) r (runs (q_store q))\<rparr>\<rparr>)"
| "client_step c (AddPersist r w env) q =
     (case on_disk (c_persist c) (the (Get (q_store q) (r_ID r))) q of
        (q', None) \<Rightarrow> Some (Submitting r w env, q')
      | (q', Some e) \<Rightarrow> Some (Answered (AddFailed (r_ID r)), q'))"
| "client_step c (Submitting r w env) q =
     (case submit_register r w env q of (a, q') \<Rightarrow> Some (Sending a, q'))"
| "client_step c (Sending a) q =
     (case submit_send a q of
        (Sent, q') \<Rightarrow> Some (Answered (Accepted (j_runID (job_of q a))), q')
      | (Full, q') \<Rightarrow> Some (RollingBack a, q')
      | (SendPanics, q') \<Rightarrow> Some (Answered (SubmitPanicked (j_runID (job_of q a))), q'))"
| "client_step c (RollingBack a) q = map_option (Pair (MarkFull a)) (submit_rollback a q)"
| "client_step c (MarkFull a) q =
     (case update_run (j_runID (job_of q a)) queue_full q of
        (Some r, q') \<Rightarrow> Some (FullPersist a r, q')
      | (None, q') \<Rightarrow> Some (Answered (TooMany (j_runID (job_of q a))), q'))"
| "client_step c (FullPersist a r) q =
     Some (Answered (TooMany (j_runID (job_of q a))), fst (on_disk (c_persist c) r q))"
| "client_step c (CancelCheck i) q =
     (case cancel_check i q of
        Some err \<Rightarrow> Some (Answered (CancelRefused i err), q)
      | None \<Rightarrow> Some (CancelFlag i, q))"
| "client_step c (CancelFlag i) q =
     (case cancel_flag i q of
        (None, q') \<Rightarrow> Some (Answered (CancelRefused i ErrNotFound), q')
      | (Some a, q') \<Rightarrow> Some (CancelRead i a, q'))"
| "client_step c (CancelRead i a) q =
     (case cancel_running a q of
        Some q' \<Rightarrow> Some (Answered (CancelAccepted i), q')
      | None \<Rightarrow> Some (CancelMark i, q))"
| "client_step c (CancelMark i) q =
     (case update_run i (mark_cancelled (c_now c)) q of
        (Some r, q') \<Rightarrow> Some (CancelPersist i r, q')
      | (None, q') \<Rightarrow> Some (Answered (CancelRefused i (CancelStoreError (NoRun i))), q'))"
| "client_step c (CancelPersist i r) q =
     (case on_disk (c_persist c) r q of
        (q', None) \<Rightarrow> Some (Answered (CancelAccepted i), q')
      | (q', Some e) \<Rightarrow> Some (Answered (CancelRefused i (CancelStoreError e)), q'))"
| "client_step c (Answered x) q = None"

section \<open>The system\<close>

text \<open>The phase of a thread in the machine of Lifecycle.\<close>

definition id_of :: "queue \<Rightarrow> nat \<Rightarrow> go_string" where
  "id_of q a = j_runID (job_of q a)"

fun worker_phase :: "queue \<Rightarrow> worker \<Rightarrow> worker_phase" where
  "worker_phase q (Picked a) = WWait (id_of q a)"
| "worker_phase q (Skipping a) = WWait (id_of q a)"
| "worker_phase q (Starting a) = WWait (id_of q a)"
| "worker_phase q (Marking a) = WWait (id_of q a)"
| "worker_phase q (MarkPersist a r) = WRun (id_of q a)"
| "worker_phase q (Launching a) = WRun (id_of q a)"
| "worker_phase q (PidPersist a r) = WRun (id_of q a)"
| "worker_phase q (Executing a) = WRun (id_of q a)"
| "worker_phase q (Finishing a out) = WRun (id_of q a)"
| "worker_phase q Exited = WExit"
| "worker_phase q _ = WFree"

fun client_phase :: "queue \<Rightarrow> client \<Rightarrow> client_phase" where
  "client_phase q (Adding r w env) = CNew (r_ID r)"
| "client_phase q (AddPersist r w env) = COwn (r_ID r)"
| "client_phase q (Submitting r w env) = COwn (r_ID r)"
| "client_phase q (Sending a) = COwn (id_of q a)"
| "client_phase q (RollingBack a) = COwn (id_of q a)"
| "client_phase q (MarkFull a) = COwn (id_of q a)"
| "client_phase q (Answered (AddFailed i)) = CStranded i"
| "client_phase q (Answered (SubmitPanicked i)) = CStranded i"
| "client_phase q _ = CRest"

definition states_of :: "store \<Rightarrow> go_string \<Rightarrow> state option" where
  "states_of s i = map_option r_State (Get s i)"

definition life_of :: "sys \<Rightarrow> life" where
  "life_of s =
     (let q = s_queue s in
      \<lparr>l_states = states_of (q_store q), l_chan = map (id_of q) (q_jobs q), l_depth = q_depth q,
       l_closed = q_closed q, l_workers = map (worker_phase q) (s_workers s),
       l_clients = map (client_phase q) (s_clients s), l_started = s_started s\<rparr>)"

text \<open>
  A new request is a cancellation, or the creation of a queued run whose id is not in use: ids are
  taken to be unique, as \<open>NewID\<close> makes them of the time and random bytes.
\<close>

fun arrival_ok :: "sys \<Rightarrow> client \<Rightarrow> bool" where
  "arrival_ok s (CancelCheck i) = True"
| "arrival_ok s (Adding r w env) =
     (r_State r = StateQueued \<and> Get (q_store (s_queue s)) (r_ID r) = None \<and>
      r_ID r \<notin> set (owned (life_of s)))"
| "arrival_ok s _ = False"

datatype event = Arrives client | ClientMoves nat call | WorkerMoves nat call | ContextEnds | JobsClose

text \<open>The history variable \<open>s_started\<close> records the runs whose execution a worker has begun.\<close>

definition begun :: "queue \<Rightarrow> worker \<Rightarrow> go_string list" where
  "begun q w = (case w of Marking a \<Rightarrow> [id_of q a] | _ \<Rightarrow> [])"

fun sys_step :: "event \<Rightarrow> sys \<Rightarrow> sys option" where
  "sys_step (Arrives c) s =
     (if arrival_ok s c then Some (s\<lparr>s_clients := s_clients s @ [c]\<rparr>) else None)"
| "sys_step (ClientMoves k c) s =
     (if k < length (s_clients s)
      then map_option (\<lambda>cq. s\<lparr>s_queue := snd cq, s_clients := (s_clients s)[k := fst cq]\<rparr>)
        (client_step c (s_clients s ! k) (s_queue s))
      else None)"
| "sys_step (WorkerMoves k c) s =
     (if k < length (s_workers s)
      then map_option (\<lambda>wq. s\<lparr>s_queue := snd wq, s_workers := (s_workers s)[k := fst wq],
          s_started := s_started s @ begun (s_queue s) (s_workers s ! k)\<rparr>)
        (worker_step c (s_workers s ! k) (s_queue s))
      else None)"
| "sys_step ContextEnds s = Some (s\<lparr>s_queue := (s_queue s)\<lparr>q_ctxDone := True\<rparr>\<rparr>)"
| "sys_step JobsClose s = Some (s\<lparr>s_queue := close_jobs (s_queue s)\<rparr>)"

text \<open>\<open>Start\<close> on a table of recovered runs: all idle, nobody waiting.\<close>

definition sys_start :: "store \<Rightarrow> go_string \<Rightarrow> nat \<Rightarrow> nat \<Rightarrow> sys" where
  "sys_start s runsDir n depth =
     \<lparr>s_queue = NewQueue s runsDir depth, s_workers = replicate n Idle, s_clients = [], s_started = []\<rparr>"

inductive sys_reach :: "sys \<Rightarrow> sys \<Rightarrow> bool" for s0 where
  sys_init: "sys_reach s0 s0"
| sys_next: "sys_reach s0 s \<Longrightarrow> sys_step e s = Some s' \<Longrightarrow> sys_reach s0 s'"

fun sys_run :: "event list \<Rightarrow> sys \<Rightarrow> sys option" where
  "sys_run [] s = Some s"
| "sys_run (e # es) s = Option.bind (sys_step e s) (sys_run es)"

lemma sys_run_reach: "sys_run es s = Some s' \<Longrightarrow> sys_reach s0 s \<Longrightarrow> sys_reach s0 s'"
  by (induction es arbitrary: s) (auto split: bind_splits intro: sys_next)

section \<open>Addresses\<close>

text \<open>The addresses a thread holds, and that all of them are jobs of the heap.\<close>

definition worker_addr :: "worker \<Rightarrow> nat list" where
  "worker_addr w = (case w of Idle \<Rightarrow> [] | Exited \<Rightarrow> [] | Picked a \<Rightarrow> [a] | Skipping a \<Rightarrow> [a]
     | Starting a \<Rightarrow> [a] | Marking a \<Rightarrow> [a] | MarkPersist a r \<Rightarrow> [a] | Launching a \<Rightarrow> [a]
     | PidPersist a r \<Rightarrow> [a] | Executing a \<Rightarrow> [a] | Finishing a out \<Rightarrow> [a] | FinishPersist a out r \<Rightarrow> [a]
     | Logging a out \<Rightarrow> [a] | Removing a \<Rightarrow> [a])"

definition client_addr :: "client \<Rightarrow> nat list" where
  "client_addr c = (case c of Sending a \<Rightarrow> [a] | RollingBack a \<Rightarrow> [a] | MarkFull a \<Rightarrow> [a]
     | FullPersist a r \<Rightarrow> [a] | CancelRead i a \<Rightarrow> [a] | _ \<Rightarrow> [])"

definition queue_addr_ok :: "queue \<Rightarrow> bool" where
  "queue_addr_ok q \<longleftrightarrow>
     (\<forall>a \<in> set (q_jobs q). a < length (q_heap q)) \<and>
     (\<forall>i a. map_of (q_live q) i = Some a \<longrightarrow> a < length (q_heap q))"

definition addr_ok :: "sys \<Rightarrow> bool" where
  "addr_ok s \<longleftrightarrow>
     queue_addr_ok (s_queue s) \<and>
     (\<forall>w \<in> set (s_workers s). \<forall>a \<in> set (worker_addr w). a < length (q_heap (s_queue s))) \<and>
     (\<forall>c \<in> set (s_clients s). \<forall>a \<in> set (client_addr c). a < length (q_heap (s_queue s)))"

definition same_ids :: "queue \<Rightarrow> queue \<Rightarrow> bool" where
  "same_ids q q' \<longleftrightarrow>
     length (q_heap q) \<le> length (q_heap q') \<and> (\<forall>a < length (q_heap q). id_of q' a = id_of q a)"

lemma id_of_set_job [simp]: "(\<And>j. j_runID (f j) = j_runID j) \<Longrightarrow> id_of (set_job a f q) b = id_of q b"
  by (simp add: id_of_def job_of_set_job)

lemma same_ids_heap: "q_heap q' = q_heap q \<Longrightarrow> same_ids q q'"
  by (simp add: same_ids_def id_of_def job_of_def)

lemma same_ids_set_job: "(\<And>j. j_runID (f j) = j_runID j) \<Longrightarrow> q_heap q' = q_heap q \<Longrightarrow> same_ids q (set_job a f q')"
  using same_ids_heap [of q' q] by (simp add: same_ids_def)

lemma phase_same_ids:
  "same_ids q q' \<Longrightarrow> \<forall>a \<in> set (worker_addr w). a < length (q_heap q) \<Longrightarrow> worker_phase q' w = worker_phase q w"
  "same_ids q q' \<Longrightarrow> \<forall>a \<in> set (client_addr c). a < length (q_heap q) \<Longrightarrow> client_phase q' c = client_phase q c"
  by (cases w; simp add: same_ids_def worker_addr_def)
    (cases "(q, c)" rule: client_phase.cases; simp add: same_ids_def client_addr_def)

lemma buffer_steps:
  "finish_log a out q = Some q' \<Longrightarrow> \<exists>b. q' = set_job a (\<lambda>j. j\<lparr>j_buf := b\<rparr>) q"
  "say_all a ts q = Some q' \<Longrightarrow> \<exists>b. q' = set_job a (\<lambda>j. j\<lparr>j_buf := b\<rparr>) q"
  "submit_rollback a q = Some q' \<Longrightarrow> \<exists>b. q' = set_job a (\<lambda>j. j\<lparr>j_buf := b\<rparr>)
     (q\<lparr>q_live := AList.delete (id_of q a) (q_live q), q_bufs := AList.delete (id_of q a) (q_bufs q)\<rparr>)"
  by (auto simp: finish_log_def say_all_def submit_rollback_def Let_def id_of_def)

lemma same_ids_refl [simp]: "same_ids q q"
  by (simp add: same_ids_def)

lemma same_ids_simps [simp]:
  "same_ids q (in_mem i f q)" "same_ids q (fst (on_disk e r q))" "same_ids q (finish_remove a q)"
  "same_ids q (set_cancelFn a q)" "same_ids q (q\<lparr>q_jobs := js\<rparr>)" "same_ids q (q\<lparr>q_store := s\<rparr>)"
  "same_ids q (q\<lparr>q_cancelled := cs\<rparr>)" "same_ids q (q\<lparr>q_ctxDone := x\<rparr>)" "same_ids q (close_jobs q)"
  "same_ids q (set_job a (\<lambda>j. j\<lparr>j_buf := b\<rparr>) q)"
  by (simp_all add: same_ids_heap same_ids_set_job set_cancelFn_def finish_remove_def Let_def close_jobs_def)

lemma queue_addr_simps [simp]:
  "queue_addr_ok (in_mem i f q) = queue_addr_ok q" "queue_addr_ok (fst (on_disk e r q)) = queue_addr_ok q"
  "queue_addr_ok (set_job a g q) = queue_addr_ok q" "queue_addr_ok (q\<lparr>q_store := s\<rparr>) = queue_addr_ok q"
  "queue_addr_ok (q\<lparr>q_cancelled := cs\<rparr>) = queue_addr_ok q" "queue_addr_ok (q\<lparr>q_ctxDone := x\<rparr>) = queue_addr_ok q"
  "queue_addr_ok (close_jobs q) = queue_addr_ok q" "queue_addr_ok (set_cancelFn a q) = queue_addr_ok q"
  by (simp_all add: queue_addr_ok_def close_jobs_def set_cancelFn_def)

lemma queue_addr_remove: "queue_addr_ok q \<Longrightarrow> queue_addr_ok (finish_remove a q)"
  by (auto simp: queue_addr_ok_def finish_remove_def Let_def go_maps split: if_splits)

lemma worker_addr_simps [simp]:
  "worker_addr Idle = []" "worker_addr Exited = []" "worker_addr (Picked a) = [a]" "worker_addr (Skipping a) = [a]"
  "worker_addr (Starting a) = [a]" "worker_addr (Marking a) = [a]" "worker_addr (MarkPersist a r) = [a]"
  "worker_addr (Launching a) = [a]" "worker_addr (PidPersist a r) = [a]" "worker_addr (Executing a) = [a]"
  "worker_addr (Finishing a out) = [a]" "worker_addr (FinishPersist a out r) = [a]"
  "worker_addr (Logging a out) = [a]" "worker_addr (Removing a) = [a]"
  by (simp_all add: worker_addr_def)

lemma client_addr_simps [simp]:
  "client_addr (Adding r w e) = []" "client_addr (AddPersist r w e) = []" "client_addr (Submitting r w e) = []"
  "client_addr (Sending a) = [a]" "client_addr (RollingBack a) = [a]" "client_addr (MarkFull a) = [a]"
  "client_addr (FullPersist a r) = [a]" "client_addr (CancelCheck i) = []" "client_addr (CancelFlag i) = []"
  "client_addr (CancelRead i a) = [a]" "client_addr (CancelMark i) = []" "client_addr (CancelPersist i r) = []"
  "client_addr (Answered x) = []"
  by (simp_all add: client_addr_def)

text \<open>What one step of a worker does to its run and to the channel, by where the worker is.\<close>

lemma worker_step_addr:
  assumes "worker_step c w q = Some (w', q')" "queue_addr_ok q" "\<forall>a \<in> set (worker_addr w). a < length (q_heap q)"
  shows "same_ids q q' \<and> queue_addr_ok q' \<and> (\<forall>a \<in> set (worker_addr w'). a < length (q_heap q'))"
  using assms
proof (cases w)
  case Idle
  then show ?thesis
    using assms by (auto simp: receive_def queue_addr_ok_def split: list.splits if_splits)
next
  case (Logging a out)
  then show ?thesis using assms by (auto dest!: buffer_steps)
next
  case (Launching a)
  then show ?thesis
    using assms by (auto simp: update_run_def dest!: buffer_steps split: option.splits if_splits)
next
  case (Executing a)
  then show ?thesis using assms by (auto dest!: buffer_steps split: if_splits)
next
  case (Removing a)
  then show ?thesis using assms queue_addr_remove by auto
qed (auto simp: update_run_def set_cancelFn_def queue_addr_remove same_ids_set_job split: option.splits if_splits)

lemma register_simps:
  assumes "submit_register r w env q = (a, q')"
  shows "a = length (q_heap q)" "q_store q' = q_store q" "q_jobs q' = q_jobs q" "q_closed q' = q_closed q"
    "q_depth q' = q_depth q" "length (q_heap q') = Suc a" "id_of q' a = r_ID r" "same_ids q q'"
    "queue_addr_ok q \<Longrightarrow> queue_addr_ok q'"
proof -
  have e: "a = length (q_heap q)" "q' = q\<lparr>q_heap := q_heap q @ [new_job q r w env],
      q_live := AList.update (r_ID r) a (q_live q), q_bufs := AList.update (r_ID r) a (q_bufs q)\<rparr>"
    using assms by (auto simp: submit_register_def Let_def)
  then show "a = length (q_heap q)" "q_store q' = q_store q" "q_jobs q' = q_jobs q" "q_closed q' = q_closed q"
    "q_depth q' = q_depth q" "length (q_heap q') = Suc a" "id_of q' a = r_ID r" "same_ids q q'"
    by (simp_all add: id_of_def job_of_def new_job_def same_ids_def nth_append)
  show "queue_addr_ok q \<Longrightarrow> queue_addr_ok q'"
    unfolding e(2) using e(1) by (auto simp: queue_addr_ok_def go_maps less_Suc_eq split: if_splits)
qed

lemma rollback_addr: "queue_addr_ok q \<Longrightarrow> submit_rollback a q = Some q' \<Longrightarrow> same_ids q q' \<and> queue_addr_ok q'"
  by (auto simp: queue_addr_ok_def go_maps same_ids_set_job dest!: buffer_steps split: if_splits)

lemma client_step_addr:
  assumes "client_step c x q = Some (x', q')" "queue_addr_ok q" "\<forall>a \<in> set (client_addr x). a < length (q_heap q)"
  shows "same_ids q q' \<and> queue_addr_ok q' \<and> (\<forall>a \<in> set (client_addr x'). a < length (q_heap q'))"
  using assms
proof (cases x)
  case (Submitting r w env)
  then obtain a where "submit_register r w env q = (a, q')" "x' = Sending a"
    using assms(1) by (auto split: prod.splits)
  with register_simps assms(2) show ?thesis by auto
next
  case (Sending a)
  with assms show ?thesis
    by (auto simp: submit_send_def queue_addr_ok_def split: if_splits)
next
  case (RollingBack a)
  then obtain "submit_rollback a q = Some q'" "x' = MarkFull a" using assms(1) by auto
  with rollback_addr [OF assms(2), of a q'] assms(3) RollingBack show ?thesis
    by (auto simp: same_ids_def)
next
  case (CancelFlag i)
  with assms show ?thesis
    by (auto simp: cancel_flag_def queue_addr_ok_def split: option.splits)
next
  case (AddPersist r w env)
  with assms(1) have "q' = fst (on_disk (c_persist c) (the (Get (q_store q) (r_ID r))) q)" "client_addr x' = []"
    by (auto split: prod.splits option.splits)
  with assms(2) show ?thesis by simp
next
  case (CancelPersist i r)
  with assms(1) have "q' = fst (on_disk (c_persist c) r q)" "client_addr x' = []"
    by (auto split: prod.splits option.splits)
  with assms(2) show ?thesis by simp
next
  case (CancelRead i a)
  with assms show ?thesis
    by (auto simp: cancel_running_def same_ids_set_job split: if_splits)
qed (auto simp: update_run_def split: option.splits)

text \<open>The heap never loses a job or its run's id, and no thread holds a dangling address.\<close>

lemma addr_update:
  "k < length xs \<Longrightarrow> \<forall>x \<in> set xs. \<forall>a \<in> set (f x). a < (n :: nat) \<Longrightarrow> n \<le> m \<Longrightarrow> \<forall>a \<in> set (f y). a < m \<Longrightarrow>
   \<forall>x \<in> set (xs[k := y]). \<forall>a \<in> set (f x). a < m"
  by (fastforce dest!: set_update_subset_insert [THEN subsetD])

lemma addr_step:
  assumes "addr_ok s" "sys_step e s = Some s'"
  shows "addr_ok s' \<and> same_ids (s_queue s) (s_queue s')"
proof (cases e)
  case (Arrives c)
  with assms show ?thesis
    by (cases "(s, c)" rule: arrival_ok.cases) (auto simp: addr_ok_def split: if_splits)
next
  case (ClientMoves k c)
  then obtain x' q' where k: "k < length (s_clients s)"
    and st: "client_step c (s_clients s ! k) (s_queue s) = Some (x', q')"
    and s': "s' = s\<lparr>s_queue := q', s_clients := (s_clients s)[k := x']\<rparr>"
    using assms(2) by (auto split: if_splits)
  have q: "same_ids (s_queue s) q'" "queue_addr_ok q'" "\<forall>a \<in> set (client_addr x'). a < length (q_heap q')"
    using client_step_addr [OF st] assms(1) nth_mem [OF k] unfolding addr_ok_def by blast+
  then have le: "length (q_heap (s_queue s)) \<le> length (q_heap q')" by (simp add: same_ids_def)
  have "\<forall>x \<in> set ((s_clients s)[k := x']). \<forall>a \<in> set (client_addr x). a < length (q_heap q')"
    using assms(1) by (intro addr_update [OF k]) (use le q(3) in \<open>auto simp: addr_ok_def\<close>)
  moreover have "\<forall>x \<in> set (s_workers s). \<forall>a \<in> set (worker_addr x). a < length (q_heap q')"
    using assms(1) le unfolding addr_ok_def by (meson less_le_trans)
  ultimately show ?thesis using q by (simp add: s' addr_ok_def)
next
  case (WorkerMoves k c)
  then obtain w' q' where k: "k < length (s_workers s)"
    and st: "worker_step c (s_workers s ! k) (s_queue s) = Some (w', q')"
    and s': "s' = s\<lparr>s_queue := q', s_workers := (s_workers s)[k := w'],
      s_started := s_started s @ begun (s_queue s) (s_workers s ! k)\<rparr>"
    using assms(2) by (auto split: if_splits)
  have q: "same_ids (s_queue s) q'" "queue_addr_ok q'" "\<forall>a \<in> set (worker_addr w'). a < length (q_heap q')"
    using worker_step_addr [OF st] assms(1) nth_mem [OF k] unfolding addr_ok_def by blast+
  then have le: "length (q_heap (s_queue s)) \<le> length (q_heap q')" by (simp add: same_ids_def)
  have "\<forall>x \<in> set ((s_workers s)[k := w']). \<forall>a \<in> set (worker_addr x). a < length (q_heap q')"
    using assms(1) by (intro addr_update [OF k]) (use le q(3) in \<open>auto simp: addr_ok_def\<close>)
  moreover have "\<forall>x \<in> set (s_clients s). \<forall>a \<in> set (client_addr x). a < length (q_heap q')"
    using assms(1) le unfolding addr_ok_def by (meson less_le_trans)
  ultimately show ?thesis using q by (simp add: s' addr_ok_def)
next
  case ContextEnds
  with assms show ?thesis by (auto simp: addr_ok_def)
next
  case JobsClose
  with assms show ?thesis by (auto simp: addr_ok_def close_jobs_def queue_addr_ok_def same_ids_heap)
qed

section \<open>Every step is a step of the machine\<close>

lemma states_of_in_mem:
  "states_of (q_store (in_mem i f q)) =
     (case Get (q_store q) i of None \<Rightarrow> states_of (q_store q)
      | Some r \<Rightarrow> (states_of (q_store q))(i \<mapsto> r_State (f r)))"
  by (auto simp: states_of_def Get_update_mem fun_eq_iff split: option.splits)

lemma states_of_persist [simp]: "states_of (fst (persist e r s)) = states_of s"
  by (simp add: states_of_def fun_eq_iff)

text \<open>
  The machine's view of a system after one thread moved: the other threads keep their phases. The
  two lemmas give the view of a step of worker \<open>k\<close> and of request \<open>k\<close>.
\<close>

lemma life_of_worker:
  assumes "addr_ok s" "same_ids (s_queue s) q'" "k < length (s_workers s)"
    and "set (q_jobs q') \<subseteq> set (q_jobs (s_queue s))" "q_depth q' = q_depth (s_queue s)"
    and "q_closed q' = q_closed (s_queue s)"
  shows "life_of (s\<lparr>s_queue := q', s_workers := (s_workers s)[k := w'], s_started := st\<rparr>) =
    (life_of s)\<lparr>l_states := states_of (q_store q'), l_chan := map (id_of (s_queue s)) (q_jobs q'),
      l_workers := (l_workers (life_of s))[k := worker_phase q' w'], l_started := st\<rparr>"
proof -
  let ?q = "s_queue s"
  have "map (id_of q') (q_jobs q') = map (id_of ?q) (q_jobs q')"
    using assms(1,2,4) by (auto simp: addr_ok_def queue_addr_ok_def same_ids_def)
  moreover have "map (client_phase q') (s_clients s) = map (client_phase ?q) (s_clients s)"
    using assms(1) phase_same_ids(2) [OF assms(2)] by (simp add: addr_ok_def)
  moreover have "map (worker_phase q') (s_workers s) = map (worker_phase ?q) (s_workers s)"
    using assms(1) phase_same_ids(1) [OF assms(2)] by (simp add: addr_ok_def)
  then have "map (worker_phase q') ((s_workers s)[k := w']) =
      (map (worker_phase ?q) (s_workers s))[k := worker_phase q' w']" by (simp only: map_update)
  ultimately show ?thesis using assms(5,6) by (simp add: life_of_def Let_def)
qed

lemma life_of_client:
  assumes "addr_ok s" "same_ids (s_queue s) q'" "k < length (s_clients s)" "q_depth q' = q_depth (s_queue s)"
    and "q_closed q' = q_closed (s_queue s)"
  shows "life_of (s\<lparr>s_queue := q', s_clients := (s_clients s)[k := x']\<rparr>) =
    (life_of s)\<lparr>l_states := states_of (q_store q'), l_chan := map (id_of q') (q_jobs q'),
      l_clients := (l_clients (life_of s))[k := client_phase q' x']\<rparr>"
proof -
  let ?q = "s_queue s"
  have "map (worker_phase q') (s_workers s) = map (worker_phase ?q) (s_workers s)"
    using assms(1) phase_same_ids(1) [OF assms(2)] by (simp add: addr_ok_def)
  moreover have "map (client_phase q') (s_clients s) = map (client_phase ?q) (s_clients s)"
    using assms(1) phase_same_ids(2) [OF assms(2)] by (simp add: addr_ok_def)
  then have "map (client_phase q') ((s_clients s)[k := x']) =
      (map (client_phase ?q) (s_clients s))[k := client_phase q' x']" by (simp only: map_update)
  ultimately show ?thesis using assms(4,5) by (simp add: life_of_def Let_def)
qed

lemma life_of_simps:
  "l_states (life_of s) = states_of (q_store (s_queue s))" "l_chan (life_of s) = map (id_of (s_queue s)) (q_jobs (s_queue s))"
  "l_depth (life_of s) = q_depth (s_queue s)" "l_closed (life_of s) = q_closed (s_queue s)"
  "l_workers (life_of s) = map (worker_phase (s_queue s)) (s_workers s)"
  "l_clients (life_of s) = map (client_phase (s_queue s)) (s_clients s)" "l_started (life_of s) = s_started s"
  by (simp_all add: life_of_def Let_def)

lemma life_quiet:
  assumes "ss = l_states l" "ch = l_chan l" "ws = l_workers l" "st = l_started l"
  shows "l\<lparr>l_states := ss, l_chan := ch, l_workers := ws, l_started := st\<rparr> = l"
  by (simp add: assms)

lemma life_quiet_client:
  assumes "ss = l_states l" "ch = l_chan l" "cs = l_clients l"
  shows "l\<lparr>l_states := ss, l_chan := ch, l_clients := cs\<rparr> = l"
  by (simp add: assms)

lemma life_only_states: "l\<lparr>l_states := ss, l_chan := l_chan l, l_clients := l_clients l\<rparr> = l\<lparr>l_states := ss\<rparr>"
  by simp

lemma worker_frame:
  assumes "worker_step c w q = Some (w', q')"
  shows "q_depth q' = q_depth q \<and> q_closed q' = q_closed q \<and> set (q_jobs q') \<subseteq> set (q_jobs q)"
  using assms
  by (cases w)
    (auto simp: receive_def update_run_def set_cancelFn_def finish_remove_def Let_def
      dest!: buffer_steps split: list.splits if_splits option.splits)

text \<open>A worker that neither takes a job nor changes the state of its run is not seen by the machine.\<close>

lemma worker_quiet:
  assumes "worker_step c w q = Some (w', q')" "same_ids q q'"
    and "case w of Idle \<Rightarrow> False | Skipping a \<Rightarrow> False | Marking a \<Rightarrow> False | Finishing a out \<Rightarrow> False | _ \<Rightarrow> True"
    and "\<forall>a \<in> set (worker_addr w). a < length (q_heap q)"
  shows "worker_phase q' w' = worker_phase q w \<and> states_of (q_store q') = states_of (q_store q) \<and>
    q_jobs q' = q_jobs q \<and> begun q w = []"
proof -
  have pid: "states_of (update_mem i (record_pid p) s) = states_of s" for i p s
    by (simp add: states_of_def Get_update_mem fun_eq_iff option.map_comp comp_def)
  have id: "id_of q' a = id_of q a" if "a \<in> set (worker_addr w)" for a
    using assms(2,4) that by (simp add: same_ids_def)
  show ?thesis
    using assms(1,3) id
    by (cases w)
      (auto simp: begun_def update_run_def set_cancelFn_def finish_remove_def Let_def pid
        dest!: buffer_steps split: if_splits option.splits)
qed

text \<open>An outcome on its way to \<open>finish\<close> is terminal.\<close>

definition outcomes_ok :: "sys \<Rightarrow> bool" where
  "outcomes_ok s \<longleftrightarrow> (\<forall>w \<in> set (s_workers s). case w of Finishing a out \<Rightarrow> Terminal (oc_State out) | _ \<Rightarrow> True)"

lemma worker_outcome:
  "worker_step c w q = Some (w', q') \<Longrightarrow> case w' of Finishing a out \<Rightarrow> Terminal (oc_State out) | _ \<Rightarrow> True"
  by (cases w) (auto simp: receive_def update_run_def outcome_ok_def
      split: list.splits if_splits option.splits worker.splits)

lemma outcomes_step:
  assumes "outcomes_ok s" "sys_step e s = Some s'"
  shows "outcomes_ok s'"
proof (cases e)
  case (WorkerMoves k c)
  then obtain w' q' where k: "k < length (s_workers s)"
    and st: "worker_step c (s_workers s ! k) (s_queue s) = Some (w', q')"
    and s': "s_workers s' = (s_workers s)[k := w']"
    using assms(2) by (auto split: if_splits)
  show ?thesis
    using assms(1) worker_outcome [OF st]
    unfolding outcomes_ok_def s'
    by (intro set_update_others [OF k, where P = "\<lambda>w. case w of Finishing a out \<Rightarrow> Terminal (oc_State out) | _ \<Rightarrow> True"]) auto
qed (use assms in \<open>auto simp: outcomes_ok_def split: if_splits\<close>)

lemma update_run_Some:
  assumes "Get (q_store q) i = Some r"
  shows "update_run i f q = (Some (f r), in_mem i f q)"
    "states_of (update_mem i f (q_store q)) = (states_of (q_store q))(i \<mapsto> r_State (f r))"
  using assms states_of_in_mem [of i f q] by (simp_all add: update_run_def)

text \<open>
  What a step of one worker can mean for the machine: the queue before and after it, the phase of
  the worker before and after it, and the runs whose execution it begins.
\<close>

inductive worker_effect ::
  "queue \<Rightarrow> queue \<Rightarrow> worker_phase \<Rightarrow> worker_phase \<Rightarrow> go_string list \<Rightarrow> bool" for q q' where
  quiet: "states_of (q_store q') = states_of (q_store q) \<Longrightarrow> q_jobs q' = q_jobs q \<Longrightarrow>
    worker_effect q q' p p []"
| picks: "states_of (q_store q') = states_of (q_store q) \<Longrightarrow> q_jobs q = a # q_jobs q' \<Longrightarrow> id_of q a = i \<Longrightarrow>
    worker_effect q q' WFree (WWait i) []"
| leaves: "states_of (q_store q') = states_of (q_store q) \<Longrightarrow> q_jobs q = [] \<Longrightarrow> q_jobs q' = [] \<Longrightarrow>
    q_closed q \<Longrightarrow> worker_effect q q' WFree WExit []"
| skips: "states_of (q_store q') = (states_of (q_store q))(i \<mapsto> StateCancelled) \<Longrightarrow> q_jobs q' = q_jobs q \<Longrightarrow>
    worker_effect q q' (WWait i) WFree []"
| starts: "states_of (q_store q') = (states_of (q_store q))(i \<mapsto> StateRunning) \<Longrightarrow> q_jobs q' = q_jobs q \<Longrightarrow>
    worker_effect q q' (WWait i) (WRun i) [i]"
| completes: "states_of (q_store q') = (states_of (q_store q))(i \<mapsto>
      (if states_of (q_store q) i = Some StateCancelled then StateCancelled else st)) \<Longrightarrow>
    q_jobs q' = q_jobs q \<Longrightarrow> Terminal st \<Longrightarrow> worker_effect q q' (WRun i) WFree []"

lemma idle_effect:
  "worker_step c Idle q = Some (w', q') \<Longrightarrow> worker_effect q q' WFree (worker_phase q' w') []"
  by (auto simp: receive_def id_of_def job_of_def intro!: worker_effect.picks worker_effect.leaves
      split: list.splits if_splits)

lemma marking_effect:
  assumes "worker_step c (Marking a) q = Some (w', q')" "states_of (q_store q) (id_of q a) \<noteq> None"
    and "id_of q' a = id_of q a"
  shows "worker_effect q q' (WWait (id_of q a)) (worker_phase q' w') [id_of q a]"
proof -
  obtain r where r: "Get (q_store q) (id_of q a) = Some r" using assms(2) by (auto simp: states_of_def)
  then have "worker_phase q' w' = WRun (id_of q a)" "q' = in_mem (id_of q a) (mark_running (c_now c)) q"
    using assms(1,3) update_run_Some(1) [OF r] by (auto simp: id_of_def)
  then show ?thesis using update_run_Some(2) [OF r] by (auto intro!: worker_effect.starts)
qed

text \<open>A worker that writes the final state of its run has it, and is free for the machine.\<close>

lemma finalised:
  assumes "Get (q_store q) i = Some r" "update_run i (finalise t out fd) q = (x, q')"
  shows "x \<noteq> None" "q_jobs q' = q_jobs q"
    "states_of (q_store q') = (states_of (q_store q))(i \<mapsto>
      (if states_of (q_store q) i = Some StateCancelled then StateCancelled else oc_State out))"
  using assms update_run_Some [OF assms(1), of "finalise t out fd"] by (auto simp: states_of_def)

lemma skipping_effect:
  assumes "worker_step c (Skipping a) q = Some (w', q')" "states_of (q_store q) (id_of q a) \<noteq> None"
  shows "worker_effect q q' (WWait (id_of q a)) (worker_phase q' w') []"
proof -
  obtain r where r: "Get (q_store q) (id_of q a) = Some r" using assms(2) by (auto simp: states_of_def)
  obtain x where x: "update_run (id_of q a) (finalise (c_now c) skipped (c_found c)) q = (x, q')"
    "worker_phase q' w' = WFree"
    using assms(1) by (auto simp: id_of_def split: prod.splits option.splits)
  show ?thesis using finalised [OF r x(1)] x(2) by (auto simp: skipped_def intro!: worker_effect.skips)
qed

lemma finishing_effect:
  assumes "worker_step c (Finishing a out) q = Some (w', q')" "states_of (q_store q) (id_of q a) \<noteq> None"
    and "Terminal (oc_State out)"
  shows "worker_effect q q' (WRun (id_of q a)) (worker_phase q' w') []"
proof -
  obtain r where r: "Get (q_store q) (id_of q a) = Some r" using assms(2) by (auto simp: states_of_def)
  obtain x where x: "update_run (id_of q a) (finalise (c_now c) out (c_found c)) q = (x, q')"
    "worker_phase q' w' = WFree"
    using assms(1) by (auto simp: id_of_def split: prod.splits option.splits)
  show ?thesis using finalised [OF r x(1)] x(2) assms(3) by (auto intro!: worker_effect.completes)
qed

lemma worker_step_effect:
  assumes "worker_step c w q = Some (w', q')" "same_ids q q'" "\<forall>a \<in> set (worker_addr w). a < length (q_heap q)"
    and "case w of Finishing a out \<Rightarrow> Terminal (oc_State out) | _ \<Rightarrow> True"
    and "\<And>i. worker_phase q w = WWait i \<or> worker_phase q w = WRun i \<Longrightarrow> states_of (q_store q) i \<noteq> None"
  shows "worker_effect q q' (worker_phase q w) (worker_phase q' w') (begun q w)"
proof (cases w)
  case (Skipping a)
  then show ?thesis using assms(1,5) by (auto simp: begun_def simp del: worker_step.simps intro!: skipping_effect)
next
  case (Finishing a out)
  then show ?thesis using assms(1,4,5) by (auto simp: begun_def simp del: worker_step.simps intro!: finishing_effect)
next
  case (Marking a)
  then show ?thesis
    using assms by (auto simp: begun_def same_ids_def simp del: worker_step.simps intro!: marking_effect)
next
  case Idle
  then show ?thesis using assms(1) by (auto simp: begun_def simp del: worker_step.simps intro!: idle_effect)
next
  case Exited
  then show ?thesis using assms(1) by simp
qed (use worker_quiet [OF assms(1,2) _ assms(3)] in \<open>force intro!: worker_effect.quiet\<close>)+

lemma worker_effect_step:
  assumes "worker_effect (s_queue s) q' (l_workers l ! k) p st" "l = life_of s" "k < length (l_workers l)"
    and l': "l' = l\<lparr>l_states := states_of (q_store q'), l_chan := map (id_of (s_queue s)) (q_jobs q'),
      l_workers := (l_workers l)[k := p], l_started := l_started l @ st\<rparr>"
  shows "l' = l \<or> life_step l l'"
proof -
  have view: "states_of (q_store (s_queue s)) = l_states l" "q_closed (s_queue s) = l_closed l"
    "map (id_of (s_queue s)) (q_jobs (s_queue s)) = l_chan l"
    using assms(2) by (simp_all add: life_of_simps)
  from assms(1) show ?thesis
  proof cases
    case quiet
    then have "l' = l" unfolding l' using view by (intro life_quiet) simp_all
    then show ?thesis ..
  next
    case (picks a i)
    then have "l' = l\<lparr>l_workers := (l_workers l)[k := WWait i], l_chan := map (id_of (s_queue s)) (q_jobs q')\<rparr>"
      unfolding l' using view by simp
    with picks show ?thesis using life_step.pick [OF assms(3)] view(3) by simp
  next
    case leaves
    then have "l' = l\<lparr>l_workers := (l_workers l)[k := WExit]\<rparr>" unfolding l' using view by simp
    with leaves show ?thesis using life_step.leave [OF assms(3)] view by simp
  next
    case (skips i)
    then have "l' = l\<lparr>l_workers := (l_workers l)[k := WFree], l_states := (l_states l)(i \<mapsto> StateCancelled)\<rparr>"
      unfolding l' using view by simp
    with skips show ?thesis using life_step.skip [OF assms(3)] by simp
  next
    case (starts i)
    then have "l' = l\<lparr>l_workers := (l_workers l)[k := WRun i], l_states := (l_states l)(i \<mapsto> StateRunning),
        l_started := l_started l @ [i]\<rparr>"
      unfolding l' using view by simp
    with starts show ?thesis using life_step.start [OF assms(3)] by simp
  next
    case (completes i t)
    then have "l' = l\<lparr>l_workers := (l_workers l)[k := WFree],
        l_states := (l_states l)(i \<mapsto> (if l_states l i = Some StateCancelled then StateCancelled else t))\<rparr>"
      unfolding l' using view by simp
    with completes show ?thesis using life_step.complete [OF assms(3)] by simp
  qed
qed

lemma worker_sim:
  assumes "addr_ok s" "life_inv (life_of s)" "outcomes_ok s" "sys_step (WorkerMoves k c) s = Some s'"
  shows "life_of s' = life_of s \<or> life_step (life_of s) (life_of s')"
proof -
  let ?q = "s_queue s" and ?w = "s_workers s ! k"
  obtain w' q' where k: "k < length (s_workers s)" and st: "worker_step c ?w ?q = Some (w', q')"
    and s': "s' = s\<lparr>s_queue := q', s_workers := (s_workers s)[k := w'], s_started := s_started s @ begun ?q ?w\<rparr>"
    using assms(4) by (auto split: if_splits)
  have ad: "\<forall>a \<in> set (worker_addr ?w). a < length (q_heap ?q)" "queue_addr_ok ?q"
    using assms(1) nth_mem [OF k] by (auto simp: addr_ok_def)
  note same = worker_step_addr [OF st ad(2,1), THEN conjunct1]
  have "worker_inv (life_of s) (worker_phase ?q ?w)"
    using assms(2) nth_mem [OF k] by (simp add: life_inv_def life_of_simps)
  then have "states_of (q_store ?q) i \<noteq> None" if "worker_phase ?q ?w = WWait i \<or> worker_phase ?q ?w = WRun i" for i
    using that by (auto simp: worker_inv_def waiting_def life_of_simps)
  moreover have "case ?w of Finishing a out \<Rightarrow> Terminal (oc_State out) | _ \<Rightarrow> True"
    using assms(3) nth_mem [OF k] by (simp add: outcomes_ok_def)
  ultimately have "worker_effect ?q q' (worker_phase ?q ?w) (worker_phase q' w') (begun ?q ?w)"
    using worker_step_effect [OF st same ad(1)] by blast
  moreover have "life_of s' = (life_of s)\<lparr>l_states := states_of (q_store q'), l_chan := map (id_of ?q) (q_jobs q'),
      l_workers := (l_workers (life_of s))[k := worker_phase q' w'], l_started := s_started s @ begun ?q ?w\<rparr>"
    unfolding s' using worker_frame [OF st] by (intro life_of_worker [OF assms(1) same k]) auto
  ultimately show ?thesis using k by (intro worker_effect_step [of s]) (simp_all add: life_of_simps)
qed

text \<open>A run that is being created is queued.\<close>

definition arrivals_ok :: "sys \<Rightarrow> bool" where
  "arrivals_ok s \<longleftrightarrow> (\<forall>x \<in> set (s_clients s). case x of Adding r w env \<Rightarrow> r_State r = StateQueued | _ \<Rightarrow> True)"

lemma client_not_adding:
  "client_step c x q = Some (x', q') \<Longrightarrow> case x' of Adding r w env \<Rightarrow> r_State r = StateQueued | _ \<Rightarrow> True"
  by (cases x) (auto simp: update_run_def split: option.splits prod.splits send_result.splits)

lemma arrivals_step:
  assumes "arrivals_ok s" "sys_step e s = Some s'"
  shows "arrivals_ok s'"
proof (cases e)
  case (Arrives c)
  with assms show ?thesis
    by (cases "(s, c)" rule: arrival_ok.cases) (auto simp: arrivals_ok_def split: if_splits)
next
  case (ClientMoves k c)
  then obtain x' q' where k: "k < length (s_clients s)"
    and st: "client_step c (s_clients s ! k) (s_queue s) = Some (x', q')"
    and s': "s_clients s' = (s_clients s)[k := x']"
    using assms(2) by (auto split: if_splits)
  show ?thesis
    using assms(1) client_not_adding [OF st]
    unfolding arrivals_ok_def s'
    by (intro set_update_others [OF k, where P = "\<lambda>x. case x of Adding r w env \<Rightarrow> r_State r = StateQueued | _ \<Rightarrow> True"]) auto
qed (use assms in \<open>auto simp: arrivals_ok_def split: if_splits\<close>)

lemma client_frame:
  assumes "client_step c x q = Some (x', q')"
  shows "q_depth q' = q_depth q \<and> q_closed q' = q_closed q"
  using assms
proof (cases x)
  case (Submitting r w env)
  then obtain a where "submit_register r w env q = (a, q')" using assms by (auto split: prod.splits)
  from register_simps [OF this] show ?thesis by simp
next
  case (AddPersist r w env)
  with assms have "q' = fst (on_disk (c_persist c) (the (Get (q_store q) (r_ID r))) q)"
    by (auto split: prod.splits option.splits)
  then show ?thesis by simp
next
  case (CancelPersist i r)
  with assms have "q' = fst (on_disk (c_persist c) r q)" by (auto split: prod.splits option.splits)
  then show ?thesis by simp
qed (auto simp: submit_send_def cancel_flag_def cancel_running_def update_run_def
    dest!: buffer_steps split: if_splits option.splits prod.splits)

text \<open>
  What a step of one request can mean for the machine, in terms of the queue before and after it
  and of the phase of the request.
\<close>

inductive client_effect :: "queue \<Rightarrow> queue \<Rightarrow> client_phase \<Rightarrow> client_phase \<Rightarrow> bool" for q q' where
  quiet: "states_of (q_store q') = states_of (q_store q) \<Longrightarrow> q_jobs q' = q_jobs q \<Longrightarrow>
    client_effect q q' p p"
| adds: "states_of (q_store q') = (states_of (q_store q))(i \<mapsto> StateQueued) \<Longrightarrow> q_jobs q' = q_jobs q \<Longrightarrow>
    client_effect q q' (CNew i) (COwn i)"
| strands: "states_of (q_store q') = states_of (q_store q) \<Longrightarrow> q_jobs q' = q_jobs q \<Longrightarrow>
    client_effect q q' (COwn i) (CStranded i)"
| sends: "states_of (q_store q') = states_of (q_store q) \<Longrightarrow> q_jobs q' = q_jobs q @ [a] \<Longrightarrow> id_of q' a = i \<Longrightarrow>
    \<not> q_closed q \<Longrightarrow> length (q_jobs q) < q_depth q \<Longrightarrow> client_effect q q' (COwn i) CRest"
| rejects: "states_of (q_store q') = (states_of (q_store q))(i \<mapsto> StateErrored) \<Longrightarrow> q_jobs q' = q_jobs q \<Longrightarrow>
    client_effect q q' (COwn i) CRest"
| cancels: "states_of (q_store q) i \<noteq> None \<Longrightarrow>
    states_of (q_store q') = (states_of (q_store q))(i \<mapsto> StateCancelled) \<Longrightarrow> q_jobs q' = q_jobs q \<Longrightarrow>
    client_effect q q' CRest CRest"

text \<open>The steps of \<open>Add\<close>.\<close>

lemma adding_effect:
  assumes "client_step c (Adding r w env) q = Some (x', q')" "r_State r = StateQueued"
  shows "client_effect q q' (CNew (r_ID r)) (client_phase q' x')"
proof -
  have "q' = q\<lparr>q_store := (q_store q)\<lparr>runs := AList.update (r_ID r) r (runs (q_store q))\<rparr>\<rparr>"
    "x' = AddPersist r w env" using assms(1) by auto
  then have "states_of (q_store q') = (states_of (q_store q))(r_ID r \<mapsto> StateQueued)"
    using assms(2) by (auto simp: states_of_def Get_def go_maps fun_eq_iff)
  with assms(1) show ?thesis by (auto intro!: client_effect.adds)
qed

lemma add_persist_effect:
  assumes "client_step c (AddPersist r w env) q = Some (x', q')"
  shows "client_effect q q' (COwn (r_ID r)) (client_phase q' x')"
proof -
  let ?p = "on_disk (c_persist c) (the (Get (q_store q) (r_ID r))) q"
  have "q' = fst ?p" "x' = (case snd ?p of None \<Rightarrow> Submitting r w env | Some e \<Rightarrow> Answered (AddFailed (r_ID r)))"
    using assms by (auto split: prod.splits option.splits)
  then show ?thesis
    by (cases "snd ?p") (auto intro: client_effect.quiet client_effect.strands)
qed

text \<open>The steps of \<open>Submit\<close>, and of \<open>createRun\<close> after a full queue.\<close>

lemma sending_effect:
  assumes "client_step c (Sending a) q = Some (x', q')" "id_of q' a = id_of q a"
  shows "client_effect q q' (COwn (id_of q a)) (client_phase q' x')"
  using assms
  by (auto simp: submit_send_def id_of_def split: if_splits
      intro!: client_effect.quiet client_effect.strands client_effect.sends [where a = a])

lemma rollback_effect:
  assumes "client_step c (RollingBack a) q = Some (x', q')" "id_of q' a = id_of q a"
  shows "client_effect q q' (COwn (id_of q a)) (client_phase q' x')"
proof -
  obtain b where "q' = set_job a (\<lambda>j. j\<lparr>j_buf := b\<rparr>)
      (q\<lparr>q_live := AList.delete (id_of q a) (q_live q), q_bufs := AList.delete (id_of q a) (q_bufs q)\<rparr>)"
    "x' = MarkFull a"
    using assms(1) buffer_steps(3) by fastforce
  then show ?thesis using assms(2) by (auto intro: client_effect.quiet)
qed

lemma full_effect:
  assumes "client_step c (MarkFull a) q = Some (x', q')" "states_of (q_store q) (id_of q a) \<noteq> None"
  shows "client_effect q q' (COwn (id_of q a)) (client_phase q' x')"
proof -
  obtain r where r: "Get (q_store q) (id_of q a) = Some r" using assms(2) by (auto simp: states_of_def)
  then have "client_phase q' x' = CRest" "q' = in_mem (id_of q a) queue_full q"
    using assms(1) update_run_Some(1) [OF r] by (auto simp: id_of_def)
  then show ?thesis using update_run_Some(2) [OF r] by (auto simp: queue_full_def intro!: client_effect.rejects)
qed

text \<open>The steps of \<open>Cancel\<close>.\<close>

lemma cancel_mark_effect:
  assumes "client_step c (CancelMark i) q = Some (x', q')"
  shows "client_effect q q' CRest (client_phase q' x')"
proof (cases "Get (q_store q) i")
  case None
  then show ?thesis
    using assms by (auto simp: update_run_def update_mem_def Get_def intro!: client_effect.quiet)
next
  case (Some r)
  then have "client_phase q' x' = CRest" "q' = in_mem i (mark_cancelled (c_now c)) q"
    using assms update_run_Some(1) [OF Some] by auto
  then show ?thesis
    using update_run_Some(2) [OF Some] Some by (auto simp: states_of_def intro!: client_effect.cancels)
qed

lemma cancel_persist_effect:
  "client_step c (CancelPersist i r) q = Some (x', q') \<Longrightarrow> client_effect q q' CRest (client_phase q' x')"
proof -
  assume "client_step c (CancelPersist i r) q = Some (x', q')"
  then have "q' = fst (on_disk (c_persist c) r q)" "client_phase q' x' = CRest"
    by (auto split: prod.splits option.splits)
  then show ?thesis by (auto intro: client_effect.quiet)
qed

lemma client_step_effect:
  assumes "client_step c x q = Some (x', q')" "same_ids q q'" "\<forall>a \<in> set (client_addr x). a < length (q_heap q)"
    and "case x of Adding r w env \<Rightarrow> r_State r = StateQueued | _ \<Rightarrow> True"
    and "\<And>i. client_phase q x = COwn i \<Longrightarrow> states_of (q_store q) i \<noteq> None"
  shows "client_effect q q' (client_phase q x) (client_phase q' x')"
proof (cases x)
  case (Submitting r w env)
  then obtain a where a: "submit_register r w env q = (a, q')" "x' = Sending a"
    using assms(1) by (auto split: prod.splits)
  then show ?thesis using register_simps [OF a(1)] Submitting by (auto intro: client_effect.quiet)
next
  case (FullPersist a r)
  then show ?thesis using assms(1) by (auto simp: id_of_def intro!: client_effect.quiet)
next
  case (CancelCheck i)
  then show ?thesis using assms(1) by (auto intro!: client_effect.quiet split: option.splits)
next
  case (CancelFlag i)
  then show ?thesis
    using assms(1) by (auto simp: cancel_flag_def intro!: client_effect.quiet split: option.splits)
next
  case (CancelRead i a)
  then show ?thesis
    using assms(1) by (auto simp: cancel_running_def intro!: client_effect.quiet split: if_splits)
next
  case (Answered y)
  then show ?thesis using assms(1) by simp
qed (use assms in \<open>auto simp: same_ids_def simp del: client_step.simps
      intro: adding_effect add_persist_effect sending_effect rollback_effect full_effect
        cancel_mark_effect cancel_persist_effect\<close>)

text \<open>Each of these effects is a step of the machine, or none.\<close>

lemma client_effect_step:
  assumes "client_effect (s_queue s) q' (l_clients l ! k) p" "l = life_of s" "k < length (l_clients l)"
    and jobs: "map (id_of q') (q_jobs (s_queue s)) = l_chan l"
    and l': "l' = l\<lparr>l_states := states_of (q_store q'), l_chan := map (id_of q') (q_jobs q'),
      l_clients := (l_clients l)[k := p]\<rparr>"
  shows "l' = l \<or> life_step l l'"
proof -
  have view: "states_of (q_store (s_queue s)) = l_states l" "q_depth (s_queue s) = l_depth l"
    "q_closed (s_queue s) = l_closed l" "length (q_jobs (s_queue s)) = length (l_chan l)"
    using assms(2) by (simp_all add: life_of_simps)
  have same: "(l_clients l)[k := l_clients l ! k] = l_clients l" by simp
  from assms(1) show ?thesis
  proof cases
    case quiet
    then have "l' = l" unfolding l' using jobs view by (intro life_quiet_client) simp_all
    then show ?thesis ..
  next
    case (adds i)
    then have "l' = l\<lparr>l_clients := (l_clients l)[k := COwn i], l_states := (l_states l)(i \<mapsto> StateQueued)\<rparr>"
      unfolding l' using jobs view by simp
    with adds show ?thesis using life_step.add [OF assms(3)] by simp
  next
    case (strands i)
    then have "l' = l\<lparr>l_clients := (l_clients l)[k := CStranded i]\<rparr>" unfolding l' using jobs view by simp
    with strands show ?thesis using life_step.strand [OF assms(3)] by simp
  next
    case (sends a i)
    then have "l' = l\<lparr>l_clients := (l_clients l)[k := CRest], l_chan := l_chan l @ [i]\<rparr>"
      unfolding l' using jobs view by simp
    with sends show ?thesis using life_step.send [OF assms(3)] view by simp
  next
    case (rejects i)
    then have "l' = l\<lparr>l_clients := (l_clients l)[k := CRest], l_states := (l_states l)(i \<mapsto> StateErrored)\<rparr>"
      unfolding l' using jobs view by simp
    with rejects show ?thesis using life_step.reject [OF assms(3)] by simp
  next
    case (cancels i)
    then have p: "p = l_clients l ! k" by simp
    have "l' = l\<lparr>l_states := (l_states l)(i \<mapsto> StateCancelled)\<rparr>"
      unfolding l' p same using cancels jobs view by simp
    with cancels show ?thesis using life_step.cancel view by simp
  qed
qed

lemma client_sim:
  assumes "addr_ok s" "life_inv (life_of s)" "arrivals_ok s" "sys_step (ClientMoves k c) s = Some s'"
  shows "life_of s' = life_of s \<or> life_step (life_of s) (life_of s')"
proof -
  let ?q = "s_queue s" and ?x = "s_clients s ! k"
  obtain x' q' where k: "k < length (s_clients s)" and st: "client_step c ?x ?q = Some (x', q')"
    and s': "s' = s\<lparr>s_queue := q', s_clients := (s_clients s)[k := x']\<rparr>"
    using assms(4) by (auto split: if_splits)
  have ad: "\<forall>a \<in> set (client_addr ?x). a < length (q_heap ?q)" "queue_addr_ok ?q"
    using assms(1) nth_mem [OF k] by (auto simp: addr_ok_def)
  note same = client_step_addr [OF st ad(2,1), THEN conjunct1]
  have "states_of (q_store ?q) i \<noteq> None" if "client_phase ?q ?x = COwn i" for i
    using assms(2) nth_mem [OF k] that
    by (force simp: life_inv_def life_of_simps client_inv_def waiting_def dest!: bspec)
  moreover have "case ?x of Adding r w env \<Rightarrow> r_State r = StateQueued | _ \<Rightarrow> True"
    using assms(3) nth_mem [OF k] by (simp add: arrivals_ok_def)
  ultimately have "client_effect ?q q' (client_phase ?q ?x) (client_phase q' x')"
    using client_step_effect [OF st same ad(1)] by blast
  moreover have "map (id_of q') (q_jobs ?q) = l_chan (life_of s)"
    using ad(2) same by (auto simp: queue_addr_ok_def same_ids_def life_of_simps)
  moreover have "life_of s' = (life_of s)\<lparr>l_states := states_of (q_store q'), l_chan := map (id_of q') (q_jobs q'),
      l_clients := (l_clients (life_of s))[k := client_phase q' x']\<rparr>"
    unfolding s' using client_frame [OF st] by (intro life_of_client [OF assms(1) same k]) auto
  ultimately show ?thesis using k by (intro client_effect_step [of s]) (simp_all add: life_of_simps)
qed

text \<open>The invariant of the system, and the simulation of one step.\<close>

definition sys_inv :: "sys \<Rightarrow> bool" where
  "sys_inv s \<longleftrightarrow> addr_ok s \<and> outcomes_ok s \<and> arrivals_ok s \<and> life_inv (life_of s)"

lemma sys_sim:
  assumes "sys_inv s" "sys_step e s = Some s'"
  shows "life_of s' = life_of s \<or> life_step (life_of s) (life_of s')"
proof (cases e)
  case (Arrives c)
  with assms(2) have ok: "arrival_ok s c" "s' = s\<lparr>s_clients := s_clients s @ [c]\<rparr>" by (auto split: if_splits)
  then have "life_of s' = (life_of s)\<lparr>l_clients := l_clients (life_of s) @ [client_phase (s_queue s) c]\<rparr>"
    by (simp add: life_of_def Let_def)
  moreover have "(\<exists>i. client_phase (s_queue s) c = CNew i \<and> l_states (life_of s) i = None \<and>
      i \<notin> set (owned (life_of s))) \<or> client_phase (s_queue s) c = CRest"
    using ok(1) by (cases "(s, c)" rule: arrival_ok.cases) (auto simp: life_of_simps states_of_def)
  ultimately show ?thesis using life_step.arrive life_step.arrive_other by metis
next
  case (ClientMoves k c)
  with assms show ?thesis using client_sim by (simp add: sys_inv_def)
next
  case (WorkerMoves k c)
  with assms show ?thesis using worker_sim by (simp add: sys_inv_def)
next
  case ContextEnds
  let ?q = "(s_queue s)\<lparr>q_ctxDone := True\<rparr>"
  have "worker_phase ?q w = worker_phase (s_queue s) w" for w
    by (cases w) (simp_all add: id_of_def job_of_def)
  moreover have "client_phase ?q x = client_phase (s_queue s) x" for x
    by (cases "(?q, x)" rule: client_phase.cases) (simp_all add: id_of_def job_of_def)
  moreover have "id_of ?q = id_of (s_queue s)" by (simp add: fun_eq_iff id_of_def job_of_def)
  ultimately have "life_of s' = life_of s" using assms(2) ContextEnds by (auto simp: life_of_def Let_def)
  then show ?thesis ..
next
  case JobsClose
  let ?q = "close_jobs (s_queue s)"
  have "worker_phase ?q w = worker_phase (s_queue s) w" for w
    by (cases w) (simp_all add: id_of_def job_of_def close_jobs_def)
  moreover have "client_phase ?q x = client_phase (s_queue s) x" for x
    by (cases "(?q, x)" rule: client_phase.cases) (simp_all add: id_of_def job_of_def close_jobs_def)
  moreover have "id_of ?q = id_of (s_queue s)" by (simp add: fun_eq_iff id_of_def job_of_def close_jobs_def)
  ultimately have "life_of s' = (life_of s)\<lparr>l_closed := True\<rparr>"
    using assms(2) JobsClose by (auto simp: life_of_def Let_def close_jobs_def)
  then show ?thesis using life_step.shut by metis
qed

lemma sys_inv_step:
  assumes "sys_inv s" "sys_step e s = Some s'"
  shows "sys_inv s'"
  using sys_sim [OF assms] life_step_inv assms addr_step outcomes_step arrivals_step
  by (auto simp: sys_inv_def)

lemma sys_start_inv:
  assumes "\<forall>i r. Get s i = Some r \<longrightarrow> Terminal (r_State r)"
  shows "sys_inv (sys_start s runsDir n depth)"
proof -
  have "owned (life_of (sys_start s runsDir n depth)) = []"
    by (simp add: owned_def life_of_simps sys_start_def NewQueue_def concat_replicate_trivial map_replicate_const)
  then show ?thesis
    using assms
    by (auto simp: sys_inv_def addr_ok_def queue_addr_ok_def outcomes_ok_def arrivals_ok_def life_inv_def
        accounted_def account_def sys_start_def NewQueue_def life_of_simps worker_inv_def states_of_def
        split: option.splits)
qed

interpretation threads: simulated sys_step sys_inv life_of life_step
  by unfold_locales (use sys_inv_step sys_sim in blast)+

lemma sys_reach_moves: "sys_reach s0 s \<longleftrightarrow> (moves sys_step)\<^sup>*\<^sup>* s0 s"
proof
  show "sys_reach s0 s \<Longrightarrow> (moves sys_step)\<^sup>*\<^sup>* s0 s"
    by (induction rule: sys_reach.induct) (auto intro: rtranclp.rtrancl_into_rtrancl movesI)
  show "(moves sys_step)\<^sup>*\<^sup>* s0 s \<Longrightarrow> sys_reach s0 s"
    by (induction rule: rtranclp_induct) (auto simp: moves_def intro: sys_init sys_next)
qed

lemma sys_reach_inv: "sys_reach s0 s \<Longrightarrow> sys_inv s0 \<Longrightarrow> sys_inv s"
  unfolding sys_reach_moves by (rule threads.reach_kept)

lemma sys_step_depth: "sys_step e s = Some s' \<Longrightarrow> q_depth (s_queue s') = q_depth (s_queue s) \<and>
    length (s_workers s') = length (s_workers s)"
  by (cases e) (auto simp: close_jobs_def dest!: client_frame worker_frame split: if_splits)

lemma sys_reach_depth: "sys_reach s0 s \<Longrightarrow> q_depth (s_queue s) = q_depth (s_queue s0) \<and>
    length (s_workers s) = length (s_workers s0)"
  by (induction rule: sys_reach.induct) (auto dest!: sys_step_depth)

end
