(* ===== verification/Schedule.thy ===== *)
theory Schedule
  imports Interleave
begin

text \<open>
  What holds of the queue in every interleaving of its threads, from the machine of Lifecycle and
  the simulation of Interleave: bounds, order and uniqueness of executions, the moves of a run's
  state, an orderly stop; and the races that remain, as executions.
\<close>

section \<open>Tables with one entry per run\<close>

lemma runs_keys:
  "map fst (runs (q_store (in_mem i f q))) = map fst (runs (q_store q))"
  "runs (q_store (fst (on_disk e r q))) = runs (q_store q)"
  by simp_all

lemma worker_runs:
  assumes "worker_step c w q = Some (w', q')"
  shows "map fst (runs (q_store q')) = map fst (runs (q_store q))"
  using assms
  by (cases w)
    (auto simp: receive_def update_run_def set_cancelFn_def finish_remove_def Let_def
      dest!: buffer_steps split: list.splits if_splits option.splits)

lemma client_runs:
  assumes "client_step c x q = Some (x', q')" "gomap_ok (runs (q_store q))"
  shows "gomap_ok (runs (q_store q'))"
  using assms
proof (cases x)
  case (Submitting r w env)
  then obtain a where "submit_register r w env q = (a, q')" using assms by (auto split: prod.splits)
  from register_simps [OF this] assms(2) show ?thesis by simp
next
  case (AddPersist r w env)
  with assms have "q' = fst (on_disk (c_persist c) (the (Get (q_store q) (r_ID r))) q)"
    by (auto split: prod.splits option.splits)
  with assms(2) show ?thesis by simp
next
  case (CancelPersist i r)
  with assms have "q' = fst (on_disk (c_persist c) r q)" by (auto split: prod.splits option.splits)
  with assms(2) show ?thesis by simp
next
  case (Adding r w env)
  with assms show ?thesis by (auto simp: go_maps)
qed (auto simp: submit_send_def cancel_flag_def cancel_running_def update_run_def
    dest!: buffer_steps split: if_splits option.splits prod.splits)

lemma sys_runs:
  assumes "sys_step e s = Some s'" "gomap_ok (runs (q_store (s_queue s)))"
  shows "gomap_ok (runs (q_store (s_queue s')))"
  using assms
  by (cases e) (auto simp: close_jobs_def dest: client_runs worker_runs split: if_splits)

lemma sys_reach_runs:
  "sys_reach s0 s \<Longrightarrow> gomap_ok (runs (q_store (s_queue s0))) \<Longrightarrow> gomap_ok (runs (q_store (s_queue s)))"
  by (induction rule: sys_reach.induct) (auto dest: sys_runs)

lemma Counts_running:
  assumes "gomap_ok (runs s)"
  shows "fst (Counts s) = card {i. states_of s i = Some StateRunning}"
    "snd (Counts s) = card {i. states_of s i = Some StateQueued}"
proof -
  have "length (filter (\<lambda>p. r_State (snd p) = st) (runs s)) = card {i. states_of s i = Some st}" for st
  proof -
    let ?ps = "filter (\<lambda>p. r_State (snd p) = st) (runs s)"
    have "distinct (map fst ?ps)" using assms by (metis distinct_map_filter)
    then have "length ?ps = card (fst ` set ?ps)" by (metis distinct_card length_map set_map)
    moreover have "fst ` set ?ps = {i. states_of s i = Some st}"
    proof (intro set_eqI iffI)
      fix i
      assume "i \<in> fst ` set ?ps"
      then obtain r where "(i, r) \<in> set (runs s)" "r_State r = st" by auto
      moreover from this assms have "map_of (runs s) i = Some r" by simp
      ultimately show "i \<in> {i. states_of s i = Some st}" by (simp add: states_of_def Get_def)
    next
      fix i
      assume "i \<in> {i. states_of s i = Some st}"
      then obtain r where "map_of (runs s) i = Some r" "r_State r = st"
        by (auto simp: states_of_def Get_def)
      then have "(i, r) \<in> set ?ps" by (simp add: map_of_SomeD)
      then show "i \<in> fst ` set ?ps" by force
    qed
    ultimately show ?thesis by simp
  qed
  then show "fst (Counts s) = card {i. states_of s i = Some StateRunning}"
    "snd (Counts s) = card {i. states_of s i = Some StateQueued}" by (simp_all add: Counts_def)
qed

section \<open>Properties of every interleaving\<close>

text \<open>The systems considered: started on a table of finished runs, as \<open>Recover\<close> leaves it.\<close>

definition recovered :: "store \<Rightarrow> bool" where
  "recovered s \<longleftrightarrow> gomap_ok (runs s) \<and> (\<forall>i r. Get s i = Some r \<longrightarrow> Terminal (r_State r))"

lemma reach_inv: "recovered st \<Longrightarrow> sys_reach (sys_start st d n depth) s \<Longrightarrow> sys_inv s"
  using sys_reach_inv sys_start_inv by (simp add: recovered_def)

lemma recovered_New: "recovered NewStore"
  by (simp add: recovered_def NewStore_def Get_def)

text \<open>
  C1. Refinement: in every interleaving of workers, submissions, cancellations and shutdown, each
  step of the code is a step of the run life cycle of the theory Lifecycle, or changes nothing in it.
\<close>

theorem queue_refines_lifecycle:
  assumes "recovered st" "sys_reach (sys_start st d n depth) s" "sys_step e s = Some s'"
  shows "life_of s' = life_of s \<or> life_step (life_of s) (life_of s')"
  using sys_sim reach_inv assms by blast

theorem queue_refines_lifecycle_witness:
  "\<exists>s'. sys_step JobsClose (sys_start NewStore ''/r'' 1 1) = Some s' \<and>
     (life_of s' = life_of (sys_start NewStore ''/r'' 1 1) \<or> life_step (life_of (sys_start NewStore ''/r'' 1 1)) (life_of s'))"
proof -
  obtain s' where s': "sys_step JobsClose (sys_start NewStore ''/r'' 1 1) = Some s'" by simp
  from queue_refines_lifecycle [OF recovered_New sys_init s'] s' show ?thesis by blast
qed

lemma bounded_by_workers:
  assumes "recovered st" "sys_reach (sys_start st d n depth) s"
  shows "fst (Counts (q_store (s_queue s))) \<le> n \<and> length (q_jobs (s_queue s)) \<le> depth"
proof -
  have inv: "life_inv (life_of s)" using reach_inv [OF assms] by (simp add: sys_inv_def)
  have sz: "q_depth (s_queue s) = depth" "length (s_workers s) = n"
    using sys_reach_depth [OF assms(2)] by (simp_all add: sys_start_def NewQueue_def)
  have "gomap_ok (runs (q_store (s_queue s)))"
    using sys_reach_runs [OF assms(2)] assms(1) by (simp add: sys_start_def NewQueue_def recovered_def)
  then have "fst (Counts (q_store (s_queue s))) = card (running_ids (life_of s))"
    by (simp add: Counts_running running_ids_def life_of_simps)
  moreover have "length (l_chan (life_of s)) \<le> l_depth (life_of s)" using inv by (simp add: life_inv_def)
  ultimately show ?thesis
    using running_bound [OF inv] sz by (simp add: life_of_simps)
qed

text \<open>
  Bounds in every interleaving: no more runs are in the state running than there are workers, and
  no more jobs wait in the channel than its depth.
\<close>

theorem concurrency_bounded:
  assumes "recovered st" "sys_reach (sys_start st d n depth) s"
  shows "fst (Counts (q_store (s_queue s))) \<le> n \<and> length (q_jobs (s_queue s)) \<le> depth"
  using assms by (rule bounded_by_workers)

theorem concurrency_bounded_witness:
  "fst (Counts (q_store (s_queue (sys_start NewStore ''/r'' 2 32)))) \<le> 2"
  using concurrency_bounded [OF recovered_New sys_init, of "''/r''" 2 32] by blast

text \<open>
  C3. The state of a run in every interleaving: a run never disappears from the table; a queued run
  becomes running, errored (queue full) or cancelled; a running one ends; a finished one stays as it
  is, except that a cancellation in flight may still be recorded over it, and that one recorded
  before its job was marked may be overtaken.
\<close>

theorem state_moves:
  assumes "recovered st" "sys_reach (sys_start st d n depth) s" "sys_step e s = Some s'"
    and "Get (q_store (s_queue s)) i = Some r"
  shows "\<exists>r'. Get (q_store (s_queue s')) i = Some r' \<and> may_move (r_State r) (r_State r')"
proof -
  have s: "l_states (life_of s) i = Some (r_State r)"
    using assms(4) by (simp add: life_of_simps states_of_def)
  have "sys_inv s" by (rule reach_inv [OF assms(1,2)])
  then have "life_inv (life_of s)" by (simp add: sys_inv_def)
  then have "\<exists>st'. l_states (life_of s') i = Some st' \<and> may_move (r_State r) st'"
    using sys_sim [OF \<open>sys_inv s\<close> assms(3)] life_moves [OF _ _ s] s by (auto simp: may_move_def)
  then show ?thesis by (auto simp: life_of_simps states_of_def)
qed

text \<open>
  C5. Each run is executed at most once: in every interleaving the executions begun are of different
  runs, and a run in the state running is one of them.
\<close>

theorem executed_once:
  assumes "recovered st" "sys_reach (sys_start st d n depth) s"
  shows "distinct (s_started s) \<and>
    {i. states_of (q_store (s_queue s)) i = Some StateRunning} \<subseteq> set (s_started s)"
proof -
  have inv: "life_inv (life_of s)" using reach_inv [OF assms] by (simp add: sys_inv_def)
  have "i \<in> set (s_started s)" if "l_states (life_of s) i = Some StateRunning" for i
  proof -
    have "account (life_of s) i" using inv by (simp add: life_inv_def accounted_def)
    then have "WRun i \<in> set (l_workers (life_of s))" using that by (simp add: account_def)
    then have "worker_inv (life_of s) (WRun i)" using inv by (simp add: life_inv_def)
    then show ?thesis by (simp add: worker_inv_def life_of_simps)
  qed
  with inv show ?thesis by (auto simp: life_inv_def life_of_simps)
qed

text \<open>
  An orderly stop: once every worker has left its loop and every request has its answer, each
  run is in a terminal state, unless its submission failed between the table and the channel (the
  write of \<open>meta.json\<close> failed, or the channel was closed); such a run stays queued in memory.
\<close>

theorem stop_finishes_all:
  assumes "recovered st" "sys_reach (sys_start st d n depth) s" "0 < n"
    and "\<forall>w \<in> set (s_workers s). w = Exited" "\<forall>x \<in> set (s_clients s). \<exists>y. x = Answered y"
    and "Get (q_store (s_queue s)) i = Some r"
  shows "Terminal (r_State r) \<or> r_State r = StateQueued \<and>
    (Answered (AddFailed i) \<in> set (s_clients s) \<or> Answered (SubmitPanicked i) \<in> set (s_clients s))"
proof -
  have inv: "life_inv (life_of s)" using reach_inv [OF assms(1,2)] by (simp add: sys_inv_def)
  have "length (s_workers s) = n" using sys_reach_depth [OF assms(2)] by (simp add: sys_start_def)
  then have w: "l_workers (life_of s) \<noteq> []" "\<forall>w \<in> set (l_workers (life_of s)). w = WExit"
    using assms(3,4) by (auto simp: life_of_simps)
  have ph: "client_ids (client_phase q (Answered y)) = [] \<and>
      (client_phase q (Answered y) = CStranded i \<longrightarrow> y = AddFailed i \<or> y = SubmitPanicked i)" for q y
    by (cases y) simp_all
  have c: "\<forall>c \<in> set (l_clients (life_of s)). client_ids c = []"
  proof
    fix c
    assume "c \<in> set (l_clients (life_of s))"
    then obtain x where x: "x \<in> set (s_clients s)" "c = client_phase (s_queue s) x" by (auto simp: life_of_simps)
    then obtain y where "x = Answered y" using assms(5) by metis
    with x(2) show "client_ids c = []" using ph [of "s_queue s" y] by simp
  qed
  have "l_states (life_of s) i = Some (r_State r)" using assms(6) by (simp add: life_of_simps states_of_def)
  from all_left [OF inv w c this] show ?thesis
  proof
    assume "r_State r = StateQueued \<and> CStranded i \<in> set (l_clients (life_of s))"
    then obtain x where "x \<in> set (s_clients s)" "client_phase (s_queue s) x = CStranded i"
      "r_State r = StateQueued" by (auto simp: life_of_simps)
    moreover from this assms(5) obtain y where "x = Answered y" by metis
    ultimately show ?thesis using ph [of "s_queue s" y] by auto
  qed simp
qed

text \<open>The system the witnesses use: one worker and one finished run.\<close>

definition one_done :: store where
  "one_done = NewStore\<lparr>runs := [(''b'', left_done)]\<rparr>"

lemma recovered_one_done: "recovered one_done"
  by (simp add: recovered_def one_done_def NewStore_def Get_def left_done_def)

definition quiet_call :: call where
  "quiet_call = \<lparr>c_now = 9, c_persist = working_disk ''a'', c_pid = None, c_said = [],
     c_outcome = \<lparr>oc_ExitCode = 0, oc_State = StateErrored, oc_Err = None\<rparr>, c_found = (None, [])\<rparr>"

theorem state_moves_witness:
  "\<exists>s' r'. sys_step JobsClose (sys_start one_done ''/r'' 1 1) = Some s' \<and>
     Get (q_store (s_queue s')) ''b'' = Some r' \<and> may_move StateSucceeded (r_State r')"
proof -
  obtain s' where s': "sys_step JobsClose (sys_start one_done ''/r'' 1 1) = Some s'" by simp
  have "Get (q_store (s_queue (sys_start one_done ''/r'' 1 1))) ''b'' = Some left_done"
    by (simp add: sys_start_def NewQueue_def one_done_def Get_def)
  from state_moves [OF recovered_one_done sys_init s' this] s' show ?thesis by (auto simp: left_done_def)
qed

theorem executed_once_witness:
  "distinct (s_started (sys_start one_done ''/r'' 1 1))"
  using executed_once [OF recovered_one_done sys_init] by blast

theorem stop_finishes_all_witness:
  "\<exists>s. sys_reach (sys_start one_done ''/r'' 1 1) s \<and> s_workers s = [Exited] \<and>
     Get (q_store (s_queue s)) ''b'' = Some left_done \<and> Terminal (r_State left_done)"
proof -
  obtain s where s: "sys_run [JobsClose, WorkerMoves 0 quiet_call] (sys_start one_done ''/r'' 1 1) = Some s"
    "s_workers s = [Exited]" "s_clients s = []" "Get (q_store (s_queue s)) ''b'' = Some left_done"
    by (simp add: sys_start_def NewQueue_def one_done_def Get_def receive_def close_jobs_def)
  have r: "sys_reach (sys_start one_done ''/r'' 1 1) s" by (rule sys_run_reach [OF s(1) sys_init])
  from stop_finishes_all [OF recovered_one_done r _ _ _ s(4)] s r show ?thesis by auto
qed

section \<open>The workers come to an end\<close>

text \<open>A buffer on which neither \<open>Append\<close> nor \<open>Close\<close> panics.\<close>

definition buf_ok :: "buffer \<Rightarrow> bool" where
  "buf_ok b \<longleftrightarrow> chans_ok b \<and> (\<exists>h. holds b h)"

lemma buf_ok_Append: "buf_ok b \<Longrightarrow> \<exists>b'. Append t b = Some b' \<and> buf_ok b'"
proof (cases "buffer.closed b")
  case True
  assume "buf_ok b"
  with True show ?thesis by (simp add: Append_closed)
next
  case False
  assume "buf_ok b"
  then obtain h where "chans_ok b" "holds b h" by (auto simp: buf_ok_def)
  from Append_open [OF this False, of t] show ?thesis by (auto simp: buf_ok_def)
qed

lemma buf_ok_Close: "buf_ok b \<Longrightarrow> \<exists>b'. Close b = Some b' \<and> buf_ok b'"
proof (cases "buffer.closed b")
  case True
  assume "buf_ok b"
  with True show ?thesis by (simp add: Close_def)
next
  case False
  assume "buf_ok b"
  then obtain h where "chans_ok b" "holds b h" by (auto simp: buf_ok_def)
  moreover from Close_ok [OF this(1)] Close_result [OF this(1) False]
  obtain m where "Close b = Some (b\<lparr>closed := True, chans := m, subs := []\<rparr>)"
    "chans_ok (b\<lparr>closed := True, chans := m, subs := []\<rparr>)" by auto
  ultimately show ?thesis by (auto simp: buf_ok_def holds_def)
qed

lemma buf_ok_New: "buf_ok (logbuf_New c)"
  using New_open by (auto simp: open_buffer_def buf_ok_def)

definition bufs_ok :: "queue \<Rightarrow> bool" where
  "bufs_ok q \<longleftrightarrow> (\<forall>j \<in> set (q_heap q). buf_ok (j_buf j))"

lemma buf_ok_write_all: "buf_ok b \<Longrightarrow> write_all Append ts b = Some b' \<Longrightarrow> buf_ok b'"
proof (induction ts arbitrary: b)
  case (Cons t ts)
  obtain b1 where "Append t b = Some b1" "buf_ok b1" using buf_ok_Append [OF Cons.prems(1)] by blast
  with Cons show ?case by simp
qed simp

lemma bufs_ok_set_job:
  assumes "bufs_ok q" "\<And>j. buf_ok (j_buf j) \<Longrightarrow> buf_ok (j_buf (f j))"
  shows "bufs_ok (set_job a f q)"
proof (cases "a < length (q_heap q)")
  case True
  then have "set ((q_heap q)[a := f (job_of q a)]) \<subseteq> insert (f (job_of q a)) (set (q_heap q))"
    "job_of q a \<in> set (q_heap q)"
    by (simp_all add: set_update_subset_insert job_of_def)
  then show ?thesis using assms unfolding bufs_ok_def set_job_def by auto
qed (use assms(1) in \<open>simp add: bufs_ok_def set_job_def list_update_beyond\<close>)

lemma bufs_ok_heap: "q_heap q' = q_heap q \<Longrightarrow> bufs_ok q \<Longrightarrow> bufs_ok q'"
  by (simp add: bufs_ok_def)

lemma bufs_ok_job: "bufs_ok q \<Longrightarrow> a < length (q_heap q) \<Longrightarrow> buf_ok (j_buf (job_of q a))"
  by (simp add: bufs_ok_def job_of_def)

lemma bufs_ok_simps [simp]:
  "bufs_ok (in_mem i f q) = bufs_ok q" "bufs_ok (fst (on_disk e r q)) = bufs_ok q"
  "bufs_ok (finish_remove a q) = bufs_ok q" "bufs_ok (close_jobs q) = bufs_ok q"
  "bufs_ok (q\<lparr>q_jobs := js\<rparr>) = bufs_ok q" "bufs_ok (q\<lparr>q_store := s\<rparr>) = bufs_ok q"
  "bufs_ok (q\<lparr>q_cancelled := cs\<rparr>) = bufs_ok q" "bufs_ok (q\<lparr>q_ctxDone := x\<rparr>) = bufs_ok q"
  "bufs_ok (q\<lparr>q_live := lv, q_bufs := bf\<rparr>) = bufs_ok q"
  by (simp_all add: bufs_ok_def finish_remove_def Let_def close_jobs_def)

lemma bufs_ok_store_buf: "bufs_ok q \<Longrightarrow> buf_ok b \<Longrightarrow> bufs_ok (set_job a (\<lambda>j. j\<lparr>j_buf := b\<rparr>) q)"
  by (rule bufs_ok_set_job) simp_all

lemma bufs_ok_logs:
  assumes "bufs_ok q" "a < length (q_heap q)"
  shows "say_all a ts q = Some q' \<Longrightarrow> bufs_ok q'" "finish_log a out q = Some q' \<Longrightarrow> bufs_ok q'"
    "submit_rollback a q = Some q' \<Longrightarrow> bufs_ok q'" "\<exists>q'. finish_log a out q = Some q'"
proof -
  note b = bufs_ok_job [OF assms]
  show "say_all a ts q = Some q' \<Longrightarrow> bufs_ok q'"
    using buf_ok_write_all [OF b] assms(1) by (auto simp: say_all_def intro!: bufs_ok_store_buf)
  obtain b1 where b1: "Append (''[server] run '' @ oc_State out) (j_buf (job_of q a)) = Some b1" "buf_ok b1"
    using buf_ok_Append [OF b] by blast
  obtain b2 where b2: "Close b1 = Some b2" "buf_ok b2" using buf_ok_Close [OF b1(2)] by blast
  have f: "finish_log a out q = Some (set_job a (\<lambda>j. j\<lparr>j_buf := b2\<rparr>) q)"
    unfolding finish_log_def b1(1) bind.bind_lunit b2(1) by simp
  show "\<exists>q'. finish_log a out q = Some q'" using f by blast
  show "finish_log a out q = Some q' \<Longrightarrow> bufs_ok q'"
    using f bufs_ok_store_buf [OF assms(1) b2(2), of a] by simp
  obtain b3 where "Close (j_buf (job_of q a)) = Some b3" "buf_ok b3" using buf_ok_Close [OF b] by blast
  then show "submit_rollback a q = Some q' \<Longrightarrow> bufs_ok q'"
    using assms(1) by (auto simp: submit_rollback_def Let_def intro!: bufs_ok_store_buf)
qed

lemma worker_bufs:
  assumes "worker_step c w q = Some (w', q')" "bufs_ok q" "\<forall>a \<in> set (worker_addr w). a < length (q_heap q)"
  shows "bufs_ok q'"
  using assms bufs_ok_logs(1,2) [OF assms(2)]
  by (cases w)
    (auto simp: receive_def update_run_def set_cancelFn_def bufs_ok_set_job
      split: list.splits if_splits option.splits)

lemma client_bufs:
  assumes "client_step c x q = Some (x', q')" "bufs_ok q" "\<forall>a \<in> set (client_addr x). a < length (q_heap q)"
  shows "bufs_ok q'"
  using assms
proof (cases x)
  case (Submitting r w env)
  then have "set (q_heap q') = insert (new_job q r w env) (set (q_heap q))"
    using assms(1) by (auto simp: submit_register_def Let_def)
  then show ?thesis using assms(2) by (auto simp: bufs_ok_def new_job_def buf_ok_New)
next
  case (AddPersist r w env)
  with assms have "q' = fst (on_disk (c_persist c) (the (Get (q_store q) (r_ID r))) q)"
    by (auto split: prod.splits option.splits)
  with assms(2) show ?thesis by simp
next
  case (CancelPersist i r)
  with assms have "q' = fst (on_disk (c_persist c) r q)" by (auto split: prod.splits option.splits)
  with assms(2) show ?thesis by simp
next
  case (RollingBack a)
  then show ?thesis using assms bufs_ok_logs(3) [OF assms(2)] by auto
qed (auto simp: submit_send_def cancel_flag_def cancel_running_def update_run_def bufs_ok_set_job
    split: if_splits option.splits prod.splits)

lemma sys_bufs:
  assumes "sys_step e s = Some s'" "addr_ok s" "bufs_ok (s_queue s)"
  shows "bufs_ok (s_queue s')"
proof (cases e)
  case (ClientMoves k c)
  then obtain x' q' where "k < length (s_clients s)" "client_step c (s_clients s ! k) (s_queue s) = Some (x', q')"
    "s_queue s' = q'" using assms(1) by (auto split: if_splits)
  then show ?thesis using client_bufs assms(2,3) nth_mem unfolding addr_ok_def by metis
next
  case (WorkerMoves k c)
  then obtain x' q' where "k < length (s_workers s)" "worker_step c (s_workers s ! k) (s_queue s) = Some (x', q')"
    "s_queue s' = q'" using assms(1) by (auto split: if_splits)
  then show ?thesis using worker_bufs assms(2,3) nth_mem unfolding addr_ok_def by metis
qed (use assms in \<open>auto split: if_splits\<close>)

lemma sys_reach_bufs:
  "sys_reach s0 s \<Longrightarrow> sys_inv s0 \<Longrightarrow> bufs_ok (s_queue s0) \<Longrightarrow> bufs_ok (s_queue s)"
proof (induction rule: sys_reach.induct)
  case (sys_next s e s')
  then have "addr_ok s" using sys_reach_inv by (simp add: sys_inv_def)
  with sys_next sys_bufs show ?case by blast
qed

text \<open>How far a worker is from the end of its loop body.\<close>

fun worker_left :: "worker \<Rightarrow> nat" where
  "worker_left Exited = 0"
| "worker_left Idle = 1"
| "worker_left (Removing a) = 2"
| "worker_left (Logging a out) = 3"
| "worker_left (FinishPersist a out r) = 4"
| "worker_left (Finishing a out) = 5"
| "worker_left (Skipping a) = 5"
| "worker_left (Executing a) = 6"
| "worker_left (PidPersist a r) = 7"
| "worker_left (Launching a) = 8"
| "worker_left (MarkPersist a r) = 9"
| "worker_left (Marking a) = 10"
| "worker_left (Starting a) = 11"
| "worker_left (Picked a) = 12"

definition work_left :: "sys \<Rightarrow> nat" where
  "work_left s = 20 * length (q_jobs (s_queue s)) + sum_list (map worker_left (s_workers s))"

lemma worker_step_left:
  assumes "worker_step c w q = Some (w', q')"
  shows "20 * length (q_jobs q') + worker_left w' < 20 * length (q_jobs q) + worker_left w"
  using assms
  by (cases w)
    (auto simp: receive_def update_run_def set_cancelFn_def finish_remove_def Let_def
      dest!: buffer_steps split: list.splits if_splits option.splits)

lemma sum_list_update_less:
  "k < length xs \<Longrightarrow> sum_list (map f (xs[k := y])) + f (xs ! k) = sum_list (map f xs) + (f y :: nat)"
  by (induction xs arbitrary: k) (auto split: nat.splits)

lemma worker_can_move:
  assumes "bufs_ok q" "\<forall>a \<in> set (worker_addr w). a < length (q_heap q)" "w \<noteq> Exited" "q_closed q"
  shows "\<exists>c. worker_step c w q \<noteq> None"
proof -
  let ?c = "quiet_call\<lparr>c_outcome := \<lparr>oc_ExitCode = 1, oc_State = StateErrored, oc_Err = None\<rparr>\<rparr>"
  have "worker_step ?c w q \<noteq> None"
    using assms bufs_ok_logs(4) [OF assms(1)]
    by (cases w)
      (auto simp: receive_def update_run_def outcome_ok_def say_all_def quiet_call_def
        split: list.splits option.splits if_splits)
  then show ?thesis by blast
qed

lemma client_jobs:
  assumes "client_step c x q = Some (x', q')" "q_closed q"
  shows "q_jobs q' = q_jobs q"
  using assms
proof (cases x)
  case (Submitting r w env)
  then obtain a where "submit_register r w env q = (a, q')" using assms by (auto split: prod.splits)
  from register_simps [OF this] show ?thesis by simp
next
  case (AddPersist r w env)
  with assms have "q' = fst (on_disk (c_persist c) (the (Get (q_store q) (r_ID r))) q)"
    by (auto split: prod.splits option.splits)
  then show ?thesis by simp
next
  case (CancelPersist i r)
  with assms have "q' = fst (on_disk (c_persist c) r q)" by (auto split: prod.splits option.splits)
  then show ?thesis by simp
qed (auto simp: submit_send_def cancel_flag_def cancel_running_def update_run_def
    dest!: buffer_steps split: if_splits option.splits prod.splits)

lemma work_left_step:
  assumes "sys_step e s = Some s'" "q_closed (s_queue s)"
  shows "work_left s' \<le> work_left s \<and> ((\<exists>k c. e = WorkerMoves k c) \<longrightarrow> work_left s' < work_left s)"
proof (cases e)
  case (WorkerMoves k c)
  then obtain w' q' where k: "k < length (s_workers s)"
    and st: "worker_step c (s_workers s ! k) (s_queue s) = Some (w', q')"
    and s': "s_queue s' = q'" "s_workers s' = (s_workers s)[k := w']"
    using assms(1) by (auto split: if_splits)
  have "work_left s' < work_left s"
    using worker_step_left [OF st] sum_list_update_less [OF k, of worker_left w']
    by (simp add: work_left_def s')
  then show ?thesis by simp
next
  case (ClientMoves k c)
  then show ?thesis
    using assms client_jobs [OF _ assms(2)] by (auto simp: work_left_def split: if_splits)
qed (use assms in \<open>auto simp: work_left_def close_jobs_def split: if_splits\<close>)

text \<open>
  C11. \<open>Stop\<close> returns: once the channel is closed, every step of a worker leaves less to do and no
  other step adds any work, and as long as a worker is in its loop some worker can go on, provided
  that \<open>Execute\<close> returns (theorem \<open>execute_returns\<close>).
\<close>

theorem stop_returns:
  assumes "recovered st" "sys_reach (sys_start st d n depth) s" "q_closed (s_queue s)"
  shows "(\<forall>e s'. sys_step e s = Some s' \<longrightarrow>
       q_closed (s_queue s') \<and> work_left s' \<le> work_left s \<and>
       ((\<exists>k c. e = WorkerMoves k c) \<longrightarrow> work_left s' < work_left s)) \<and>
    ((\<forall>w \<in> set (s_workers s). w = Exited) \<or> (\<exists>k c s'. sys_step (WorkerMoves k c) s = Some s'))"
proof (intro conjI allI impI)
  have ad: "addr_ok s" using reach_inv [OF assms(1,2)] by (simp add: sys_inv_def)
  have bo: "bufs_ok (s_queue s)"
    using sys_reach_bufs [OF assms(2)] sys_start_inv assms(1)
    by (simp add: recovered_def sys_start_def NewQueue_def bufs_ok_def)
  show "(\<forall>w \<in> set (s_workers s). w = Exited) \<or> (\<exists>k c s'. sys_step (WorkerMoves k c) s = Some s')"
  proof (rule disjCI)
    assume no: "\<not> (\<exists>k c s'. sys_step (WorkerMoves k c) s = Some s')"
    show "\<forall>w \<in> set (s_workers s). w = Exited"
    proof (rule ccontr)
      assume "\<not> (\<forall>w \<in> set (s_workers s). w = Exited)"
      then obtain k where k: "k < length (s_workers s)" "s_workers s ! k \<noteq> Exited" by (metis in_set_conv_nth)
      then have "\<forall>a \<in> set (worker_addr (s_workers s ! k)). a < length (q_heap (s_queue s))"
        using ad nth_mem unfolding addr_ok_def by metis
      from worker_can_move [OF bo this k(2) assms(3)] obtain c
        where "worker_step c (s_workers s ! k) (s_queue s) \<noteq> None" ..
      then have "\<exists>s'. sys_step (WorkerMoves k c) s = Some s'" using k(1) by auto
      with no show False by blast
    qed
  qed
next
  fix e s'
  assume st: "sys_step e s = Some s'"
  show "q_closed (s_queue s')" using st assms(3)
    by (cases e) (auto simp: close_jobs_def dest!: client_frame worker_frame split: if_splits)
  show "work_left s' \<le> work_left s" "\<exists>k c. e = WorkerMoves k c \<Longrightarrow> work_left s' < work_left s"
    using st work_left_step [OF st assms(3)] by blast+
qed

theorem stop_returns_witness:
  "\<exists>s k c s'. q_closed (s_queue s) \<and> sys_step (WorkerMoves k c) s = Some s' \<and> work_left s' < work_left s"
proof -
  obtain s where s: "sys_run [JobsClose] (sys_start one_done ''/r'' 1 1) = Some s"
    "s_workers s = [Idle]" "q_closed (s_queue s)"
    by (simp add: sys_start_def NewQueue_def close_jobs_def)
  have r: "sys_reach (sys_start one_done ''/r'' 1 1) s" by (rule sys_run_reach [OF s(1) sys_init])
  from stop_returns [OF recovered_one_done r s(3)] s(2)
  obtain k c s' where st: "sys_step (WorkerMoves k c) s = Some s'" by auto
  with stop_returns [OF recovered_one_done r s(3)] s(3) show ?thesis by blast
qed

end
