(* ===== verification/Races.thy ===== *)
theory Races
  imports Schedule
begin

text \<open>
  Executions of the system of Interleave that show what the locking of \<open>queue.go\<close> and \<open>store.go\<close>
  does not prevent. Each is a list of events from the start of a server with one worker and a
  queue of depth one; what is observed at its end is computed by the kernel.
\<close>

section \<open>The stage\<close>

definition asked_run :: run where
  "asked_run = zero_run\<lparr>r_ID := ''a'', r_State := StateQueued\<rparr>"

definition ok_call :: call where
  "ok_call = quiet_call\<lparr>c_pid := Some 7,
     c_outcome := \<lparr>oc_ExitCode = 0, oc_State = StateSucceeded, oc_Err = None\<rparr>\<rparr>"

definition fresh :: sys where
  "fresh = sys_start NewStore ''/r'' 1 1"

definition requests :: "nat \<Rightarrow> nat \<Rightarrow> event list" where
  "requests n k = replicate n (ClientMoves k ok_call)"

definition works :: "nat \<Rightarrow> event list" where
  "works n = replicate n (WorkerMoves 0 ok_call)"

definition submits :: event where
  "submits = Arrives (Adding asked_run sample_workflow [])"

definition cancels :: event where
  "cancels = Arrives (CancelCheck ''a'')"

text \<open>What is looked at: the answers, the state in memory and in \<open>meta.json\<close>, the lines of the log.\<close>

definition answers :: "sys \<Rightarrow> answer list" where
  "answers s = List.map_filter (\<lambda>x. case x of Answered y \<Rightarrow> Some y | _ \<Rightarrow> None) (s_clients s)"

definition mem_state :: "sys \<Rightarrow> state option" where
  "mem_state s = map_option r_State (Get (q_store (s_queue s)) ''a'')"

definition disk_state :: "sys \<Rightarrow> state option" where
  "disk_state s =
     Option.bind (map_of (disk (q_store (s_queue s))) ''a'')
       (\<lambda>d. case meta d of Meta r \<Rightarrow> Some (r_State r) | _ \<Rightarrow> None)"

definition log_lines :: "sys \<Rightarrow> go_string list" where
  "log_lines s = (case Buffer (s_queue s) ''a'' of None \<Rightarrow> [] | Some b \<Rightarrow> map line_Text (lines b))"

lemma observed:
  assumes "map_option f (sys_run es fresh) = Some v"
  shows "\<exists>s. sys_reach fresh s \<and> f s = v"
  using assms sys_run_reach [OF _ sys_init] by (auto simp: map_option_eq_Some)

section \<open>The races\<close>


text \<open>
  C0. A finished run can be overwritten: a \<open>Cancel\<close> that found the run queued records \<open>cancelled\<close>
  after the run has been executed and has succeeded.
\<close>

theorem cancel_overwrites_success:
  "\<exists>s s'. sys_reach fresh s \<and> mem_state s = Some StateSucceeded \<and>
     sys_step (ClientMoves 1 ok_call) s = Some s' \<and> mem_state s' = Some StateCancelled"
proof -
  have "\<exists>s. sys_reach fresh s \<and>
      (mem_state s, Option.bind (sys_step (ClientMoves 1 ok_call) s) mem_state) =
      (Some StateSucceeded, Some StateCancelled)"
    by (rule observed [of _ "submits # requests 4 0 @ works 2 @ cancels # requests 3 1 @ works 8"]) code_simp
  then show ?thesis by (auto simp: bind_eq_Some_conv)
qed

text \<open>
  The disk can be left behind: the writes of \<open>meta.json\<close> are ordered by another lock than the
  updates they come from, so after everything has ended the file can hold an older state than the
  memory, and that state is what a restart recovers.
\<close>

theorem disk_left_behind:
  "\<exists>s. sys_reach fresh s \<and> s_workers s = [Idle] \<and>
     (answers s, mem_state s, disk_state s) =
     ([Accepted ''a'', CancelAccepted ''a''], Some StateSucceeded, Some StateCancelled)"
proof -
  have "\<exists>s. sys_reach fresh s \<and>
      (s_workers s, answers s, mem_state s, disk_state s) =
      ([Idle], [Accepted ''a'', CancelAccepted ''a''], Some StateSucceeded, Some StateCancelled)"
    by (rule observed [of _ "submits # requests 4 0 @ works 2 @ cancels # requests 4 1 @ works 10 @ requests 1 1"])
      code_simp
  then show ?thesis by auto
qed

text \<open>
  A cancellation can be refused and still take effect: between \<open>store.Add\<close> and the registration
  in \<open>live\<close>, \<open>Cancel\<close> answers that there is no such run, but has flagged it, so that the run,
  accepted afterwards, is skipped and ends cancelled without being executed.
\<close>

theorem refused_cancel_takes_effect:
  "\<exists>s. sys_reach fresh s \<and>
     (answers s, s_started s, mem_state s) =
     ([Accepted ''a'', CancelRefused ''a'' ErrNotFound], [], Some StateCancelled)"
  by (rule observed [of _ "submits # requests 2 0 @ cancels # requests 2 1 @ requests 2 0 @ works 3"]) code_simp

text \<open>
  A submission after \<open>Stop\<close> panics: the channel is closed while the handler is between the table
  and the channel, the send panics, and the run stays queued although no worker is left.
\<close>

theorem submit_after_stop_panics:
  "\<exists>s. sys_reach fresh s \<and> s_workers s = [Exited] \<and>
     (answers s, mem_state s) = ([SubmitPanicked ''a''], Some StateQueued)"
proof -
  have "\<exists>s. sys_reach fresh s \<and>
      (s_workers s, answers s, mem_state s) = ([Exited], [SubmitPanicked ''a''], Some StateQueued)"
    by (rule observed [of _ "submits # requests 3 0 @ JobsClose # works 1 @ requests 1 0"]) code_simp
  then show ?thesis by auto
qed

text \<open>
  A terminal state does not mean a complete log: \<open>finish\<close> updates the table before it appends the
  last line, so a client that stops polling when it sees a terminal state misses that line.
\<close>

theorem terminal_before_last_line:
  "\<exists>s s'. sys_reach fresh s \<and> mem_state s = Some StateSucceeded \<and> log_lines s = [] \<and>
     sys_reach s s' \<and> log_lines s' = [''[server] run succeeded'']"
proof -
  have "\<exists>s. sys_reach fresh s \<and>
      (mem_state s, log_lines s, map_option log_lines (sys_run (works 1) s)) =
      (Some StateSucceeded, [], Some [''[server] run succeeded''])"
    by (rule observed [of _ "submits # requests 4 0 @ works 10"]) code_simp
  then obtain s s' where s: "sys_reach fresh s" "mem_state s = Some StateSucceeded" "log_lines s = []"
    "sys_run (works 1) s = Some s'" "log_lines s' = [''[server] run succeeded'']"
    by (auto simp: map_option_eq_Some)
  have "sys_reach s s'" by (rule sys_run_reach [OF s(4) sys_init])
  with s show ?thesis by blast
qed

end
