(* ===== verification/Cancelling.thy ===== *)
theory Cancelling
  imports Races
begin

text \<open>
  Cancelling a run that waits, in every interleaving (\<open>Cancel\<close> and \<open>worker\<close> of \<open>queue.go\<close>): once the flag of a
  run whose job is in the channel is set, no worker ever begins to execute it. The flag is removed only by the worker that
  finished the run; that no such worker is left while the job waits is the invariant \<open>ended_ok\<close>.
\<close>

section \<open>Workers that are about to execute, and workers that have finished\<close>

text \<open>The run a worker has picked, has decided to execute, and has finished.\<close>

definition picked :: "queue \<Rightarrow> worker \<Rightarrow> go_string list" where
  "picked q w = (case w of Picked a \<Rightarrow> [id_of q a] | _ \<Rightarrow> [])"

definition hot :: "queue \<Rightarrow> worker \<Rightarrow> go_string list" where
  "hot q w = (case w of Starting a \<Rightarrow> [id_of q a] | Marking a \<Rightarrow> [id_of q a] | _ \<Rightarrow> [])"

definition ending :: "queue \<Rightarrow> worker \<Rightarrow> go_string list" where
  "ending q w = (case w of FinishPersist a out r \<Rightarrow> [id_of q a] | Logging a out \<Rightarrow> [id_of q a]
     | Removing a \<Rightarrow> [id_of q a] | _ \<Rightarrow> [])"

lemmas [simp] = picked_def hot_def ending_def

lemma phases_same_ids:
  assumes "same_ids q q'" "\<forall>a \<in> set (worker_addr w). a < length (q_heap q)"
  shows "picked q' w = picked q w" "hot q' w = hot q w" "ending q' w = ending q w"
  using assms by (cases w; simp add: same_ids_def)+

lemma picked_waits: "i \<in> set (picked q w) \<Longrightarrow> i \<in> set (worker_ids (worker_phase q w))"
  by (cases w) simp_all

text \<open>What one step of a worker does to the three, and to the flags.\<close>

lemma worker_step_ids:
  assumes "worker_step c w q = Some (w', q')"
    and "same_ids q q'" "queue_addr_ok q" "\<forall>a \<in> set (worker_addr w). a < length (q_heap q)"
  shows "i \<in> set (picked q' w') \<Longrightarrow> i \<in> set (map (id_of q) (q_jobs q))"
    "i \<in> set (hot q' w') \<Longrightarrow> i \<in> set (hot q w) \<or> i \<in> set (picked q w) \<and> i \<notin> q_cancelled q"
    "i \<in> set (ending q' w') \<Longrightarrow>
       i \<in> set (ending q w) \<or> i \<in> set (worker_ids (worker_phase q w)) \<and> worker_phase q' w' = WFree"
    "i \<in> q_cancelled q \<Longrightarrow> i \<in> q_cancelled q' \<or> i \<in> set (ending q w)"
  using assms
  by (cases w; auto simp: receive_def update_run_def set_cancelFn_def finish_remove_def Let_def
      skip_job_def same_ids_def queue_addr_ok_def id_of_def
      dest!: buffer_steps split: list.splits if_splits option.splits)+

lemma client_cancelled:
  assumes "client_step c x q = Some (x', q')"
  shows "q_cancelled q \<subseteq> q_cancelled q'"
  using assms
proof (cases x)
  case (Submitting r w env)
  then show ?thesis using assms by (auto simp: submit_register_def Let_def)
next
  case (AddPersist r w env)
  with assms have "q' = fst (on_disk (c_persist c) (the (Get (q_store q) (r_ID r))) q)"
    by (auto split: prod.splits option.splits)
  then show ?thesis by simp
next
  case (CancelPersist i r)
  with assms have "q' = fst (on_disk (c_persist c) r q)" by (auto split: prod.splits option.splits)
  then show ?thesis by simp
qed (auto simp: submit_send_def cancel_flag_def cancel_running_def update_run_def
    dest!: buffer_steps split: if_splits option.splits prod.splits)

section \<open>What a step of the machine leaves to whom\<close>

lemma in_concat_update: "x \<in> set (concat (map f (xs[k := y]))) \<Longrightarrow> x \<in> set (concat (map f xs)) \<or> x \<in> set (f y)"
  using set_update_subset_insert [of xs k y] by auto

lemma in_concat_nth: "k < length xs \<Longrightarrow> xs ! k = y \<Longrightarrow> x \<in> set (f y) \<Longrightarrow> x \<in> set (concat (map f xs))"
  by auto

lemma life_step_owners:
  assumes "life_step l l'"
  shows "i \<in> set (owned l') \<Longrightarrow> i \<in> set (owned l) \<or> l_states l i = None"
    "i \<in> set (concat (map client_ids (l_clients l'))) \<Longrightarrow>
       i \<in> set (concat (map client_ids (l_clients l))) \<or> l_states l i = None"
    "i \<in> set (l_chan l') \<Longrightarrow> i \<in> set (l_chan l) \<or> i \<in> set (concat (map client_ids (l_clients l)))"
    "l_states l i \<noteq> None \<Longrightarrow> l_states l' i \<noteq> None"
  using assms
  by (induction; auto simp: owned_def simp del: set_concat dest!: in_concat_update intro: in_concat_nth
      split: if_splits)+

text \<open>The state of a run that no request owns and that is never begun.\<close>

definition uncalled :: "go_string \<Rightarrow> life \<Rightarrow> bool" where
  "uncalled i l \<longleftrightarrow> i \<notin> set (concat (map client_ids (l_clients l))) \<and> CStranded i \<notin> set (l_clients l) \<and>
     l_states l i \<in> {Some StateQueued, Some StateCancelled}"

lemma in_set_update: "x \<in> set (xs[k := y]) \<Longrightarrow> x \<in> set xs \<or> x = y"
  using set_update_subset_insert [of xs k y] by blast

lemma uncalled_step:
  assumes "life_step l l'" "life_inv l" "i \<notin> set (l_started l')" "uncalled i l"
  shows "uncalled i l'"
proof -
  have no: "i \<notin> set (concat (map client_ids (l_clients l)))" "CStranded i \<notin> set (l_clients l)"
    "l_states l i \<noteq> None" using assms(4) unfolding uncalled_def by auto
  have cl: "\<forall>k < length (l_clients l). l_clients l ! k \<noteq> CNew i \<and> l_clients l ! k \<noteq> COwn i"
    using no(1) nth_mem by fastforce
  have "i \<notin> set (concat (map client_ids (l_clients l')))"
    using life_step_owners(2) [OF assms(1), of i] no(1,3) by metis
  moreover have "CStranded i \<notin> set (l_clients l')"
    using assms(1) no(2) cl by cases (auto simp del: set_concat dest!: in_set_update)
  moreover have "l_states l' i \<in> {Some StateQueued, Some StateCancelled}"
  proof -
    have "i \<notin> set (l_started l)" using assms(1,3) by cases auto
    then have wk: "\<forall>k < length (l_workers l). l_workers l ! k \<noteq> WRun i"
      using assms(2) nth_mem by (fastforce simp: life_inv_def worker_inv_def)
    show ?thesis using assms(1,3,4) cl wk by cases (auto simp: uncalled_def simp del: set_concat)
  qed
  ultimately show ?thesis unfolding uncalled_def by blast
qed

section \<open>Who has finished a run no longer shares it\<close>

definition ended_ok :: "sys \<Rightarrow> bool" where
  "ended_ok s \<longleftrightarrow> (\<forall>w \<in> set (s_workers s). \<forall>i \<in> set (ending (s_queue s) w).
     i \<notin> set (owned (life_of s)) \<and> Get (q_store (s_queue s)) i \<noteq> None)"

lemma l_states_None: "l_states (life_of s) i = None \<longleftrightarrow> Get (q_store (s_queue s)) i = None"
  by (simp add: life_of_simps states_of_def)

text \<open>The lemmas on the machine, read on a step of the system.\<close>

lemma sys_step_owners:
  assumes "sys_inv s" "sys_step e s = Some s'" "Get (q_store (s_queue s)) i \<noteq> None"
  shows "i \<in> set (owned (life_of s')) \<Longrightarrow> i \<in> set (owned (life_of s))"
    "i \<in> set (concat (map client_ids (l_clients (life_of s')))) \<Longrightarrow>
       i \<in> set (concat (map client_ids (l_clients (life_of s))))"
    "i \<in> set (l_chan (life_of s')) \<Longrightarrow>
       i \<in> set (l_chan (life_of s)) \<or> i \<in> set (concat (map client_ids (l_clients (life_of s))))"
    "Get (q_store (s_queue s')) i \<noteq> None"
  using sys_sim [OF assms(1,2)] life_step_owners [of "life_of s" "life_of s'" i] assms(3) l_states_None
  by metis+

text \<open>A worker that is done with its run was the last to own it.\<close>

lemma done_with:
  assumes inv: "sys_inv s" and st: "sys_step (WorkerMoves k c) s = Some s'" and k: "k < length (s_workers s)"
    and i: "i \<in> set (worker_ids (worker_phase (s_queue s) (s_workers s ! k)))"
    and free: "worker_phase (s_queue s') (s_workers s' ! k) = WFree"
  shows "i \<notin> set (owned (life_of s')) \<and> Get (q_store (s_queue s)) i \<noteq> None"
proof -
  let ?l = "life_of s" and ?q = "s_queue s" and ?q' = "s_queue s'"
  have kl: "k < length (l_workers ?l)" "i \<in> set (worker_ids (l_workers ?l ! k))"
    using k i by (simp_all add: life_of_simps)
  have d: "distinct (owned ?l)" and wi: "worker_inv ?l (l_workers ?l ! k)"
    using inv kl(1) by (auto simp: sys_inv_def life_inv_def)
  note ex = worker_exclusive [OF d kl]
  have "l_states ?l i \<noteq> None"
    using wi kl(2) by (cases "l_workers ?l ! k") (auto simp: worker_inv_def waiting_def)
  then have g: "Get (q_store ?q) i \<noteq> None" by (simp add: l_states_None)
  note own = sys_step_owners [OF inv st g]
  have ids: "same_ids ?q ?q'" and ad: "addr_ok s"
    using addr_step [OF _ st] inv unfolding sys_inv_def by blast+
  have ws: "s_workers s' = (s_workers s)[k := s_workers s' ! k]" using st k by auto
  have "i \<notin> set (worker_ids (worker_phase ?q' w))" if "w \<in> set (s_workers s')" for w
  proof -
    from that obtain j where j: "j < length (s_workers s)" "w = s_workers s' ! j"
      using ws by (metis in_set_conv_nth length_list_update)
    show ?thesis
    proof (cases "j = k")
      case False
      then have w: "w = s_workers s ! j" using j ws by (metis nth_list_update_neq)
      then have "\<forall>a \<in> set (worker_addr w). a < length (q_heap ?q)" using ad j(1) nth_mem unfolding addr_ok_def by metis
      with ex(4) [of j] j(1) False w show ?thesis by (simp add: life_of_simps phase_same_ids(1) [OF ids])
    qed (use j free in simp)
  qed
  then have "i \<notin> set (concat (map worker_ids (l_workers (life_of s'))))" by (auto simp: life_of_simps)
  moreover have "i \<notin> set (concat (map client_ids (l_clients ?l)))" using ex(3) by auto
  ultimately show ?thesis using own(2,3) ex(2) g by (auto simp: owned_def simp del: set_concat)
qed

text \<open>What one step of the system does to the workers and the flags.\<close>

lemma idle_step_workers:
  assumes "sys_inv s" "sys_step e s = Some s'" "\<And>k c. e \<noteq> WorkerMoves k c"
  shows "s_workers s' = s_workers s" "s_started s' = s_started s" "q_cancelled (s_queue s) \<subseteq> q_cancelled (s_queue s')"
    "\<forall>w \<in> set (s_workers s). picked (s_queue s') w = picked (s_queue s) w \<and> hot (s_queue s') w = hot (s_queue s) w \<and>
       ending (s_queue s') w = ending (s_queue s) w"
proof -
  show "s_workers s' = s_workers s" "s_started s' = s_started s"
    using assms(2,3) by (cases e; auto split: if_splits)+
  show "q_cancelled (s_queue s) \<subseteq> q_cancelled (s_queue s')"
    using assms(2,3) client_cancelled by (cases e) (fastforce simp: close_jobs_def split: if_splits)+
  have "addr_ok s" "same_ids (s_queue s) (s_queue s')"
    using addr_step [OF _ assms(2)] assms(1) unfolding sys_inv_def by blast+
  then show "\<forall>w \<in> set (s_workers s). picked (s_queue s') w = picked (s_queue s) w \<and>
      hot (s_queue s') w = hot (s_queue s) w \<and> ending (s_queue s') w = ending (s_queue s) w"
    using phases_same_ids [of "s_queue s" "s_queue s'"] unfolding addr_ok_def by blast
qed

lemma worker_move:
  assumes "sys_inv s" "sys_step (WorkerMoves k c) s = Some s'"
  obtains "k < length (s_workers s)" "s_workers s' = (s_workers s)[k := s_workers s' ! k]"
    "worker_step c (s_workers s ! k) (s_queue s) = Some (s_workers s' ! k, s_queue s')"
    "s_started s' = s_started s @ begun (s_queue s) (s_workers s ! k)"
    "same_ids (s_queue s) (s_queue s')" "queue_addr_ok (s_queue s)"
    "\<forall>a \<in> set (worker_addr (s_workers s ! k)). a < length (q_heap (s_queue s))"
    "\<And>w. w \<in> set (s_workers s') \<Longrightarrow> w = s_workers s' ! k \<or> w \<in> set (s_workers s) \<and>
       picked (s_queue s') w = picked (s_queue s) w \<and> hot (s_queue s') w = hot (s_queue s) w \<and>
       ending (s_queue s') w = ending (s_queue s) w"
proof -
  have k: "k < length (s_workers s)" using assms(2) by (simp split: if_splits)
  then obtain w' q' where st: "worker_step c (s_workers s ! k) (s_queue s) = Some (w', q')"
    "s' = s\<lparr>s_queue := q', s_workers := (s_workers s)[k := w'],
       s_started := s_started s @ begun (s_queue s) (s_workers s ! k)\<rparr>"
    using assms(2) by auto
  have ad: "addr_ok s" and ids: "same_ids (s_queue s) (s_queue s')"
    using addr_step [OF _ assms(2)] assms(1) unfolding sys_inv_def by blast+
  have w: "w = w' \<or> w \<in> set (s_workers s)" if "w \<in> set (s_workers s')" for w
    using that st(2) set_update_subset_insert [of "s_workers s" k w'] by auto
  show thesis
  proof (rule that)
    fix w
    assume "w \<in> set (s_workers s')"
    then show "w = s_workers s' ! k \<or> w \<in> set (s_workers s) \<and>
       picked (s_queue s') w = picked (s_queue s) w \<and> hot (s_queue s') w = hot (s_queue s) w \<and>
       ending (s_queue s') w = ending (s_queue s) w"
      using w k st(2) phases_same_ids [OF ids] ad unfolding addr_ok_def by fastforce
  qed (use k st ids ad nth_mem [OF k] in \<open>auto simp: addr_ok_def\<close>)
qed

text \<open>The invariant of the workers that have finished.\<close>

lemma ended_step:
  assumes "sys_inv s" "ended_ok s" "sys_step e s = Some s'"
  shows "ended_ok s'"
  unfolding ended_ok_def
proof (intro ballI)
  fix w i
  assume w: "w \<in> set (s_workers s')" "i \<in> set (ending (s_queue s') w)"
  let ?goal = "i \<notin> set (owned (life_of s')) \<and> Get (q_store (s_queue s')) i \<noteq> None"
  note keep = sys_step_owners [OF assms(1,3), of i]
  have old: ?goal if "v \<in> set (s_workers s)" "i \<in> set (ending (s_queue s) v)" for v
    using that assms(2) keep unfolding ended_ok_def by blast
  show ?goal
  proof (cases "\<exists>k c. e = WorkerMoves k c")
    case False
    then show ?thesis using idle_step_workers [OF assms(1,3)] w old by metis
  next
    case True
    then obtain k c where e: "e = WorkerMoves k c" by blast
    note st = assms(3) [unfolded e]
    show ?thesis
    proof (cases rule: worker_move [OF assms(1) st])
      case 1
      show ?thesis
      proof (cases "w = s_workers s' ! k")
        case True
        with worker_step_ids(3) [OF 1(3,5,6,7)] w(2)
        have "i \<in> set (ending (s_queue s) (s_workers s ! k)) \<or>
            i \<in> set (worker_ids (worker_phase (s_queue s) (s_workers s ! k))) \<and>
            worker_phase (s_queue s') (s_workers s' ! k) = WFree" by blast
        then show ?thesis
          using old [OF nth_mem [OF 1(1)]] done_with [OF assms(1) st 1(1)] keep(4) by blast
      qed (use 1(8) [OF w(1)] old w(2) in metis)
    qed
  qed
qed

lemma ended_reach: "sys_reach s0 s \<Longrightarrow> sys_inv s0 \<Longrightarrow> ended_ok s0 \<Longrightarrow> ended_ok s"
  unfolding sys_reach_moves by (erule threads.reach_also) (auto intro: ended_step)

section \<open>A cancelled job is spared\<close>

text \<open>Nobody is about to execute the run, and whoever may still pick its job finds the flag.\<close>

definition spared :: "go_string \<Rightarrow> sys \<Rightarrow> bool" where
  "spared i s \<longleftrightarrow>
     i \<notin> set (s_started s) \<and> Get (q_store (s_queue s)) i \<noteq> None \<and>
     i \<notin> set (concat (map client_ids (l_clients (life_of s)))) \<and>
     (\<forall>w \<in> set (s_workers s). i \<notin> set (hot (s_queue s) w)) \<and>
     (i \<in> set (l_chan (life_of s)) \<or> (\<exists>w \<in> set (s_workers s). i \<in> set (picked (s_queue s) w)) \<longrightarrow>
        i \<in> q_cancelled (s_queue s))"

lemma waits_owned:
  assumes "i \<in> set (l_chan (life_of s)) \<or> (\<exists>w \<in> set (s_workers s). i \<in> set (picked (s_queue s) w))"
  shows "i \<in> set (owned (life_of s))"
  using assms picked_waits [of i "s_queue s"] by (auto simp: owned_def life_of_simps)

text \<open>The flag of a run that waits is not removed.\<close>

lemma flag_stays:
  assumes "sys_inv s" "ended_ok s" "sys_step e s = Some s'" "i \<in> q_cancelled (s_queue s)" "i \<in> set (owned (life_of s))"
  shows "i \<in> q_cancelled (s_queue s')"
proof (cases "\<exists>k c. e = WorkerMoves k c")
  case False
  then show ?thesis using idle_step_workers(3) [OF assms(1,3)] assms(4) by blast
next
  case True
  then obtain k c where st: "sys_step (WorkerMoves k c) s = Some s'" using assms(3) by blast
  show ?thesis
  proof (cases rule: worker_move [OF assms(1) st])
    case 1
    then show ?thesis
      using worker_step_ids(4) [OF 1(3,5,6,7) assms(4)] assms(2,5) nth_mem [OF 1(1)]
      unfolding ended_ok_def by blast
  qed
qed

lemma spared_step:
  assumes inv: "sys_inv s" and "ended_ok s" and st: "sys_step e s = Some s'" and sp: "spared i s"
  shows "spared i s'"
proof -
  have sp': "i \<notin> set (s_started s)" "Get (q_store (s_queue s)) i \<noteq> None"
    "i \<notin> set (concat (map client_ids (l_clients (life_of s))))"
    "\<forall>w \<in> set (s_workers s). i \<notin> set (hot (s_queue s) w)"
    and flag: "i \<in> set (l_chan (life_of s)) \<or> (\<exists>w \<in> set (s_workers s). i \<in> set (picked (s_queue s) w)) \<Longrightarrow>
      i \<in> q_cancelled (s_queue s)"
    using sp unfolding spared_def by blast+
  note keep = sys_step_owners [OF inv st sp'(2)]
  note stays = flag_stays [OF inv assms(2) st flag waits_owned]
  have "i \<notin> set (s_started s') \<and> (\<forall>w \<in> set (s_workers s'). i \<notin> set (hot (s_queue s') w)) \<and>
    ((\<exists>w \<in> set (s_workers s'). i \<in> set (picked (s_queue s') w)) \<longrightarrow>
       i \<in> set (l_chan (life_of s)) \<or> (\<exists>w \<in> set (s_workers s). i \<in> set (picked (s_queue s) w)))"
  proof (cases "\<exists>k c. e = WorkerMoves k c")
    case False
    then show ?thesis using idle_step_workers [OF inv st] sp' by (metis (no_types, lifting))
  next
    case True
    then obtain k c where stk: "sys_step (WorkerMoves k c) s = Some s'" using st by blast
    show ?thesis
    proof (cases rule: worker_move [OF inv stk])
      case 1
      let ?w = "s_workers s ! k" and ?w' = "s_workers s' ! k"
      have wk: "?w \<in> set (s_workers s)" using 1(1) by simp
      note ids = worker_step_ids [OF 1(3,5,6,7), of i]
      have "i \<notin> set (hot (s_queue s') ?w')" using ids(2) sp'(4) wk flag by blast
      moreover have "i \<in> set (picked (s_queue s') ?w') \<Longrightarrow> i \<in> set (l_chan (life_of s))"
        using ids(1) by (simp add: life_of_simps)
      moreover have "i \<notin> set (begun (s_queue s) ?w)"
        using sp'(4) wk by (cases ?w) (auto simp: begun_def dest!: bspec [of _ _ ?w])
      ultimately show ?thesis using 1(4,8) sp'(1,4) by (metis Un_iff set_append)
    qed
  qed
  with keep stays sp'(3) show ?thesis unfolding spared_def by blast
qed

text \<open>A job in the channel belongs to no thread, and its run has not begun.\<close>

lemma waiting_spared:
  assumes "sys_inv s" "i \<in> set (l_chan (life_of s))" "i \<in> q_cancelled (s_queue s)"
  shows "spared i s"
proof -
  have li: "life_inv (life_of s)" using assms(1) by (simp add: sys_inv_def)
  then have d: "distinct (owned (life_of s))" and w: "waiting (life_of s) i"
    using assms(2) by (auto simp: life_inv_def)
  have no: "i \<notin> set (concat (map client_ids (l_clients (life_of s))))"
    "i \<notin> set (concat (map worker_ids (l_workers (life_of s))))"
    using d assms(2) unfolding owned_def by (auto simp del: set_concat)
  have "i \<notin> set (hot (s_queue s) v)" if "v \<in> set (s_workers s)" for v
    using no(2) that by (cases v) (auto simp: life_of_simps)
  with no(1) w assms(3) show ?thesis
    by (auto simp: spared_def waiting_def life_of_simps states_of_def)
qed

lemma waiting_uncalled:
  assumes "sys_inv s" "i \<in> set (l_chan (life_of s))"
  shows "uncalled i (life_of s)"
proof -
  have li: "life_inv (life_of s)" using assms(1) by (simp add: sys_inv_def)
  then have d: "distinct (owned (life_of s))" and w: "waiting (life_of s) i"
    and "CStranded i \<notin> set (l_clients (life_of s))"
    using assms(2) by (auto simp: life_inv_def owned_def)
  moreover have "i \<notin> set (concat (map client_ids (l_clients (life_of s))))"
    using d assms(2) unfolding owned_def by (auto simp del: set_concat)
  ultimately show ?thesis unfolding uncalled_def waiting_def by blast
qed

text \<open>A queued run that no request holds is in the channel or with a worker.\<close>

lemma waits_somewhere:
  assumes "sys_inv s" "uncalled i (life_of s)" "Get (q_store (s_queue s)) i = Some r" "r_State r = StateQueued"
  shows "i \<in> set (l_chan (life_of s)) \<or> (\<exists>w \<in> set (s_workers s). i \<in> set (map (id_of (s_queue s)) (worker_addr w)))"
proof -
  have "account (life_of s) i" using assms(1) by (simp add: sys_inv_def life_inv_def accounted_def)
  then have "i \<in> set (owned (life_of s))"
    using assms(2-4) by (auto simp: account_def uncalled_def life_of_simps states_of_def)
  then have "i \<in> set (l_chan (life_of s)) \<or> i \<in> set (concat (map worker_ids (l_workers (life_of s))))"
    using assms(2) unfolding owned_def uncalled_def by (auto simp del: set_concat)
  moreover have "set (worker_ids (worker_phase (s_queue s) w)) \<subseteq> set (map (id_of (s_queue s)) (worker_addr w))" for w
    by (cases w) simp_all
  ultimately show ?thesis by (fastforce simp: life_of_simps)
qed

lemma sys_step_uncalled:
  assumes "sys_inv s" "sys_step e s = Some s'" "i \<notin> set (s_started s')" "uncalled i (life_of s)"
  shows "uncalled i (life_of s')"
  using sys_sim [OF assms(1,2)] uncalled_step [of "life_of s" "life_of s'" i] assms
  by (auto simp: sys_inv_def life_of_simps)

lemma spared_uncalled:
  assumes "sys_reach s s'" "sys_inv s" "ended_ok s" "spared i s" "uncalled i (life_of s)"
  shows "spared i s' \<and> uncalled i (life_of s')"
  using assms
proof (induction rule: sys_reach.induct)
  case (sys_next t e t')
  then have t: "sys_inv t" "ended_ok t" "spared i t" "uncalled i (life_of t)"
    using sys_reach_inv ended_reach by blast+
  then have "spared i t'" using sys_next.hyps(2) spared_step by blast
  with t sys_step_uncalled [OF t(1) sys_next.hyps(2)] show ?case by (simp add: spared_def)
qed simp

section \<open>The property\<close>

text \<open>
  C6. Cancelling a run that waits works in every interleaving: if a cancellation has set the flag while the run's job
  is in the channel, then no worker ever executes it, whatever else happens afterwards, and its state is
  \<open>cancelled\<close>, or still \<open>queued\<close> with its job in the channel or in the hands of a worker.
\<close>

theorem cancelled_while_waiting:
  assumes "recovered st" "sys_reach (sys_start st d n depth) s"
    and "i \<in> set (map (id_of (s_queue s)) (q_jobs (s_queue s)))" "i \<in> q_cancelled (s_queue s)" "sys_reach s s'"
  shows "i \<notin> set (s_started s') \<and>
    (\<exists>r. Get (q_store (s_queue s')) i = Some r \<and>
       (r_State r = StateCancelled \<or>
        r_State r = StateQueued \<and>
          (i \<in> set (map (id_of (s_queue s')) (q_jobs (s_queue s'))) \<or>
           (\<exists>w \<in> set (s_workers s'). i \<in> set (map (id_of (s_queue s')) (worker_addr w))))))"
proof -
  have inv: "sys_inv s" "sys_inv s'" using reach_inv [OF assms(1,2)] sys_reach_inv [OF assms(5)] by blast+
  have "ended_ok (sys_start st d n depth)" by (simp add: ended_ok_def sys_start_def)
  then have "ended_ok s" using ended_reach [OF assms(2)] sys_start_inv assms(1) by (simp add: recovered_def)
  moreover have "spared i s" "uncalled i (life_of s)"
    using waiting_spared [OF inv(1)] waiting_uncalled [OF inv(1)] assms(3,4) by (simp_all add: life_of_simps)
  ultimately have sp: "spared i s'" "uncalled i (life_of s')" using spared_uncalled [OF assms(5) inv(1)] by blast+
  obtain r where r: "Get (q_store (s_queue s')) i = Some r" "r_State r \<in> {StateQueued, StateCancelled}"
    using sp(2) by (auto simp: uncalled_def life_of_simps states_of_def)
  have "i \<in> set (l_chan (life_of s')) \<or> (\<exists>w \<in> set (s_workers s'). i \<in> set (map (id_of (s_queue s')) (worker_addr w)))"
    if "r_State r = StateQueued" using waits_somewhere [OF inv(2) sp(2)] r(1) that by blast
  with sp(1) r show ?thesis by (auto simp: spared_def life_of_simps)
qed

text \<open>A job in the channel, its cancellation, and the worker that then picks the job.\<close>

theorem cancelled_while_waiting_witness:
  "\<exists>s s'. sys_reach fresh s \<and> sys_reach s s' \<and> map (id_of (s_queue s)) (q_jobs (s_queue s)) = [''a''] \<and>
     mem_state s' = Some StateCancelled \<and> ''a'' \<notin> set (s_started s')"
proof -
  let ?later = "requests 3 1 @ works 6"
  let ?seen = "\<lambda>s. (map (id_of (s_queue s)) (q_jobs (s_queue s)), ''a'' \<in> q_cancelled (s_queue s),
    Option.bind (sys_run ?later s) mem_state)"
  have "\<exists>s. sys_reach fresh s \<and> ?seen s = ([''a''], True, Some StateCancelled)"
    by (rule observed [of _ "submits # requests 4 0 @ cancels # requests 2 1"]) code_simp
  then obtain s where s: "sys_reach fresh s" "map (id_of (s_queue s)) (q_jobs (s_queue s)) = [''a'']"
    "''a'' \<in> q_cancelled (s_queue s)" "Option.bind (sys_run ?later s) mem_state = Some StateCancelled" by auto
  then obtain s' where s': "sys_run ?later s = Some s'" "mem_state s' = Some StateCancelled"
    by (cases "sys_run ?later s") auto
  have r: "sys_reach s s'" by (rule sys_run_reach [OF s'(1) sys_init])
  have "''a'' \<notin> set (s_started s')"
    using cancelled_while_waiting [OF recovered_New, of "''/r''" 1 1 s "''a''" s'] s(1-3) r
    by (simp add: fresh_def)
  with s(1,2) s'(2) r show ?thesis by (intro exI [of _ s] exI [of _ s'] conjI)
qed

end
