(* ===== verification/Csv.thy ===== *)
theory Csv
  imports Prelude
begin

text \<open>
  The reader of \<open>encoding/csv\<close> as the upload handler uses it: the comma as delimiter, no comments, no lazy
  quotes, no trimming and any number of fields per record. It reads line by line: a carriage return
  before the line feed, or before the end of the input, is dropped, and lines that are then empty
  are skipped between records but not inside a quoted field.
\<close>

section \<open>The reader\<close>

abbreviation LF :: char where "LF \<equiv> CHR 0x0A"
abbreviation cr :: char where "cr \<equiv> CHR 0x0D"
abbreviation quote :: char where "quote \<equiv> CHR 0x22"
abbreviation comma :: char where "comma \<equiv> CHR '',''"

text \<open>\<open>readLine\<close>: a line with its line feed, the carriage return in front of it removed.\<close>

fun csv_lines :: "go_string \<Rightarrow> go_string list" where
  "csv_lines [] = []"
| "csv_lines (c # cs) =
     (if c = LF then [LF] # csv_lines cs
      else if c = cr \<and> cs = [] then [[]]
      else if c = cr \<and> hd cs = LF then csv_lines cs
      else case csv_lines cs of [] \<Rightarrow> [[c]] | l # ls \<Rightarrow> (c # l) # ls)"

datatype csv_error = ErrBareQuote | ErrQuote

definition strip_nl :: "go_string \<Rightarrow> go_string" where
  "strip_nl l = (if l \<noteq> [] \<and> last l = LF then butlast l else l)"

definition add_field :: "go_string \<Rightarrow> csv_error + go_string list \<times> go_string list \<Rightarrow>
    csv_error + go_string list \<times> go_string list" where
  "add_field f r = (case r of Inl e \<Rightarrow> Inl e | Inr (fs, rest) \<Rightarrow> Inr (f # fs, rest))"

text \<open>
  \<open>readRecord\<close> from the start of a field in \<open>line\<close>, and from inside a quoted field of which \<open>acc\<close>
  has been read; \<open>rest\<close> are the lines after it.
\<close>

function parse_fields :: "go_string \<Rightarrow> go_string list \<Rightarrow> csv_error + go_string list \<times> go_string list"
  and parse_quoted ::
    "go_string \<Rightarrow> go_string \<Rightarrow> go_string list \<Rightarrow> csv_error + go_string list \<times> go_string list"
where
  "parse_fields line rest =
     (if take 1 line = [quote] then parse_quoted [] (tl line) rest
      else
        let field = takeWhile (\<lambda>c. c \<noteq> comma) line; more = dropWhile (\<lambda>c. c \<noteq> comma) line in
        if quote \<in> set field then Inl ErrBareQuote
        else if more = [] then Inr ([strip_nl field], rest)
        else add_field field (parse_fields (tl more) rest))"
| "parse_quoted acc line rest =
     (let part = takeWhile (\<lambda>c. c \<noteq> quote) line; more = dropWhile (\<lambda>c. c \<noteq> quote) line; after = tl more in
      if more \<noteq> [] then
        (if take 1 after = [quote] then parse_quoted (acc @ part @ [quote]) (tl after) rest
         else if take 1 after = [comma] then add_field (acc @ part) (parse_fields (tl after) rest)
         else if after = [] \<or> after = [LF] then Inr ([acc @ part], rest)
         else Inl ErrQuote)
      else if line \<noteq> [] then
        (case rest of [] \<Rightarrow> Inl ErrQuote | l # ls \<Rightarrow> parse_quoted (acc @ line) l ls)
      else Inl ErrQuote)"
  by pat_completeness auto

lemma length_dropWhile_tl: "dropWhile P xs \<noteq> [] \<Longrightarrow> length (tl (dropWhile P xs)) < length xs"
  using length_dropWhile_le [of P xs] by (cases "dropWhile P xs") auto

lemma take1_tl: "take 1 xs = [c] \<Longrightarrow> length (tl xs) < length xs"
  by (cases xs) auto

termination parse_fields
proof (relation "measure (\<lambda>x. case x of Inl (l, r) \<Rightarrow> length l + length (concat r) + length r
    | Inr (a, l, r) \<Rightarrow> length l + length (concat r) + length r)", goal_cases)
  case (4 acc line rest part more after)
  then show ?case using length_dropWhile_tl [of "\<lambda>c. c \<noteq> quote" line] by (auto dest!: take1_tl)
next
  case (5 acc line rest part more after)
  then show ?case using length_dropWhile_tl [of "\<lambda>c. c \<noteq> quote" line] by (auto dest!: take1_tl)
next
  case (2 line rest)
  then show ?case using take1_tl [of line quote] by auto
next
  case (3 line rest field more)
  then show ?case using length_dropWhile_tl [of "\<lambda>c. c \<noteq> comma" line] by auto
qed auto

declare parse_fields.simps [simp del] parse_quoted.simps [simp del]

lemma add_field_Inr: "add_field f r = Inr (fs, rest) \<longleftrightarrow> (\<exists>gs. fs = f # gs \<and> r = Inr (gs, rest))"
  by (auto simp: add_field_def split: sum.splits prod.splits)

lemma parse_rest_length:
  "parse_fields line rest = Inr (fs, rest') \<Longrightarrow> length rest' \<le> length rest"
  "parse_quoted acc line rest = Inr (fs, rest') \<Longrightarrow> length rest' \<le> length rest"
proof (induction line rest and acc line rest arbitrary: fs and fs rule: parse_fields_parse_quoted.induct)
  case (1 line rest)
  show ?case
    using 1 unfolding parse_fields.simps [of line rest]
    by (auto simp: Let_def add_field_Inr split: if_splits)
next
  case (2 acc line rest)
  show ?case
    using 2 unfolding parse_quoted.simps [of acc line rest]
    by (fastforce simp: Let_def add_field_Inr split: if_splits list.splits)
qed

text \<open>\<open>ReadAll\<close>, over the lines.\<close>

function read_records :: "go_string list \<Rightarrow> csv_error + go_string list list" where
  "read_records [] = Inr []"
| "read_records (l # ls) =
     (if l = [] \<or> l = [LF] then read_records ls
      else
        case parse_fields l ls of
          Inl e \<Rightarrow> Inl e
        | Inr (fs, rest) \<Rightarrow>
            (case read_records rest of Inl e \<Rightarrow> Inl e | Inr rows \<Rightarrow> Inr (fs # rows)))"
  by pat_completeness auto

termination read_records
  by (relation "measure length") (auto dest: parse_rest_length)

definition ReadAll :: "go_string \<Rightarrow> csv_error + go_string list list" where
  "ReadAll text = read_records (csv_lines text)"

section \<open>A reference writer\<close>

text \<open>Every field in quotes, a quote doubled, one line feed after each record.\<close>

definition escape_quotes :: "go_string \<Rightarrow> go_string" where
  "escape_quotes f = concat (map (\<lambda>c. if c = quote then [quote, quote] else [c]) f)"

definition csv_field :: "go_string \<Rightarrow> go_string" where
  "csv_field f = quote # escape_quotes f @ [quote]"

definition csv_row :: "go_string list \<Rightarrow> go_string" where
  "csv_row fs = join_with [comma] (map csv_field fs) @ [LF]"

definition csv_text :: "go_string list list \<Rightarrow> go_string" where
  "csv_text rows = concat (map csv_row rows)"

definition no_cr :: "go_string list \<Rightarrow> bool" where
  "no_cr fs \<longleftrightarrow> list_all (\<lambda>f. cr \<notin> set f) fs"

section \<open>Lines\<close>

lemma csv_lines_Nil_iff [simp]: "csv_lines t = [] \<longleftrightarrow> t = []"
  by (induction t rule: csv_lines.induct) (auto split: list.splits)

lemma csv_lines_nonempty: "cr \<notin> set t \<Longrightarrow> l \<in> set (csv_lines t) \<Longrightarrow> l \<noteq> []"
proof (induction t arbitrary: l)
  case (Cons c t)
  then have "c \<noteq> cr" "cr \<notin> set t" by auto
  with Cons show ?case by (cases "csv_lines t") (auto split: if_splits)
qed simp

lemma csv_lines_Cons: "t \<noteq> [] \<Longrightarrow> \<exists>l ls. csv_lines t = l # ls"
  by (cases "csv_lines t") auto

lemma csv_lines_char:
  "c \<noteq> LF \<Longrightarrow> c \<noteq> cr \<Longrightarrow> csv_lines t = l # ls \<Longrightarrow> csv_lines (c # t) = (c # l) # ls"
  by simp

section \<open>Steps inside a quoted field\<close>

lemma quoted_char:
  assumes "c \<noteq> quote" "l \<noteq> []"
  shows "parse_quoted acc (c # l) ls = parse_quoted (acc @ [c]) l ls"
proof -
  have w: "takeWhile (\<lambda>x. x \<noteq> quote) (c # l) = c # takeWhile (\<lambda>x. x \<noteq> quote) l"
    "dropWhile (\<lambda>x. x \<noteq> quote) (c # l) = dropWhile (\<lambda>x. x \<noteq> quote) l"
    using assms(1) by simp_all
  show ?thesis
    unfolding parse_quoted.simps [of acc "c # l" ls] parse_quoted.simps [of "acc @ [c]" l ls] w Let_def
    using assms(2) by (simp only: append_assoc append_Cons append_Nil if_True list.simps simp_thms)
qed

lemma quoted_end_of_line: "parse_quoted acc [LF] (l # ls) = parse_quoted (acc @ [LF]) l ls"
  by (subst parse_quoted.simps) simp

lemma quoted_pair: "parse_quoted acc (quote # quote # l) ls = parse_quoted (acc @ [quote]) l ls"
  by (subst parse_quoted.simps) simp

lemma quoted_comma: "parse_quoted acc (quote # comma # l) ls = add_field acc (parse_fields l ls)"
  by (subst parse_quoted.simps) simp

lemma quoted_stop: "parse_quoted acc [quote, LF] ls = Inr ([acc], ls)"
  by (subst parse_quoted.simps) simp

lemma fields_quote: "parse_fields (quote # l) ls = parse_quoted [] l ls"
  by (subst parse_fields.simps) simp

lemmas quoted_steps = quoted_end_of_line quoted_pair quoted_comma quoted_stop fields_quote

lemma escape_quotes_simps [simp]:
  "escape_quotes [] = []"
  "escape_quotes (c # f) = (if c = quote then [quote, quote] else [c]) @ escape_quotes f"
  by (simp_all add: escape_quotes_def)

lemma escape_quotes_cr [simp]: "cr \<in> set (escape_quotes f) \<longleftrightarrow> cr \<in> set f"
  by (induction f) auto

lemma quoted_field:
  assumes "cr \<notin> set f" "cr \<notin> set u" "csv_lines u = m # ms"
    "csv_lines (escape_quotes f @ quote # u) = l # ls"
  shows "parse_quoted acc l ls = parse_quoted (acc @ f) (quote # m) ms"
  using assms(1,4)
proof (induction f arbitrary: acc l ls)
  case Nil
  then show ?case using csv_lines_char [OF _ _ assms(3), of quote] by simp
next
  case (Cons c f)
  obtain k ks where k: "csv_lines (escape_quotes f @ quote # u) = k # ks"
    by (cases "csv_lines (escape_quotes f @ quote # u)") auto
  then have "k \<noteq> []"
    using csv_lines_nonempty [of "escape_quotes f @ quote # u" k] Cons.prems(1) assms(2) by auto
  have IH: "parse_quoted (acc @ [c]) k ks = parse_quoted (acc @ c # f) (quote # m) ms"
    using Cons.IH [of k ks "acc @ [c]"] Cons.prems(1) k by simp
  show ?case
  proof (cases "c = quote")
    case True
    with Cons.prems(2) k have "l = quote # quote # k \<and> ls = ks" by simp
    with True IH show ?thesis by (simp add: quoted_pair)
  next
    case False
    show ?thesis
    proof (cases "c = LF")
      case True
      with Cons.prems(2) k have "l = [LF] \<and> ls = k # ks" by simp
      with True IH show ?thesis by (simp add: quoted_end_of_line)
    next
      case nl: False
      moreover have "c \<noteq> cr" using Cons.prems(1) by auto
      ultimately have "csv_lines (c # escape_quotes f @ quote # u) = (c # k) # ks"
        by (rule csv_lines_char) (rule k)
      with Cons.prems(2) False have "l = c # k \<and> ls = ks" by simp
      with False IH \<open>k \<noteq> []\<close> show ?thesis by (simp add: quoted_char)
    qed
  qed
qed

section \<open>Rows\<close>

lemma csv_row_no_cr: "no_cr fs \<Longrightarrow> cr \<notin> set (csv_row fs)"
proof (induction fs rule: induct_list012)
  case (3 f g fs)
  then show ?case by (simp add: csv_row_def no_cr_def csv_field_def)
qed (simp_all add: csv_row_def no_cr_def csv_field_def)

lemma csv_text_no_cr: "list_all no_cr rows \<Longrightarrow> cr \<notin> set (csv_text rows)"
  by (induction rows) (auto simp: csv_text_def csv_row_no_cr)

lemma csv_row_quote: "fs \<noteq> [] \<Longrightarrow> \<exists>t. csv_row fs = quote # t \<and> t \<noteq> []"
  by (cases fs; cases "tl fs") (auto simp: csv_row_def csv_field_def)

lemma lines_quote:
  assumes "csv_lines (quote # t) = l # ls" "t \<noteq> []"
  obtains k where "l = quote # k" "csv_lines t = k # ls"
  using assms by (cases "csv_lines t") auto

lemma parse_row:
  assumes "fs \<noteq> []" "no_cr fs" "cr \<notin> set t" "csv_lines (csv_row fs @ t) = l # ls"
  shows "parse_fields l ls = Inr (fs, csv_lines t)"
  using assms(1,2,4)
proof (induction fs arbitrary: l ls rule: induct_list012)
  case (2 f)
  have "csv_lines (quote # (escape_quotes f @ quote # LF # t)) = l # ls"
    using "2.prems"(3) by (simp add: csv_row_def csv_field_def)
  then obtain k where k: "l = quote # k" "csv_lines (escape_quotes f @ quote # LF # t) = k # ls"
    by (rule lines_quote) simp_all
  have "parse_quoted [] k ls = parse_quoted f [quote, LF] (csv_lines t)"
    using quoted_field [OF _ _ _ k(2)] "2.prems"(2) assms(3) by (simp add: no_cr_def)
  with k(1) show ?case by (simp add: quoted_steps)
next
  case (3 f g fs)
  let ?u = "csv_row (g # fs) @ t"
  have "csv_lines (quote # (escape_quotes f @ quote # comma # ?u)) = l # ls"
    using "3.prems"(3) by (simp add: csv_row_def csv_field_def)
  then obtain k where k: "l = quote # k" "csv_lines (escape_quotes f @ quote # comma # ?u) = k # ls"
    by (rule lines_quote) simp_all
  obtain m ms where m: "csv_lines ?u = m # ms"
    by (cases "csv_lines ?u") (auto simp: csv_row_def)
  have "no_cr (g # fs)" "cr \<notin> set f" using "3.prems"(2) by (simp_all add: no_cr_def)
  then have "parse_quoted [] k ls = parse_quoted f (quote # comma # m) ms"
    using quoted_field [OF _ _ _ k(2)] csv_lines_char [OF _ _ m, of comma] csv_row_no_cr assms(3) by simp
  moreover have "parse_fields m ms = Inr (g # fs, csv_lines t)"
    using "3.IH"(2) [OF _ \<open>no_cr (g # fs)\<close> m] by simp
  ultimately show ?case using k(1) by (simp add: quoted_steps add_field_def)
qed simp

lemma ReadAll_text:
  assumes "list_all (\<lambda>fs. fs \<noteq> []) rows" "list_all no_cr rows"
  shows "ReadAll (csv_text rows) = Inr rows"
  using assms
proof (induction rows)
  case (Cons fs rows)
  have t: "csv_text (fs # rows) = csv_row fs @ csv_text rows" by (simp add: csv_text_def)
  obtain u where u: "csv_row fs = quote # u" "u \<noteq> []" using csv_row_quote Cons.prems(1) by auto
  obtain l ls where l: "csv_lines (csv_row fs @ csv_text rows) = l # ls"
    using csv_lines_Cons [of "csv_row fs @ csv_text rows"] u(1) by auto
  then obtain k where "l = quote # k" using u lines_quote [of "u @ csv_text rows" l ls] by auto
  moreover have "parse_fields l ls = Inr (fs, csv_lines (csv_text rows))"
    using parse_row [OF _ _ _ l] Cons.prems csv_text_no_cr by simp
  ultimately show ?case using Cons l by (simp add: ReadAll_def t)
qed (simp add: ReadAll_def csv_text_def)

text \<open>A byte order mark in front of a quoted field.\<close>

definition BOM :: go_string where
  "BOM = [CHR 0xEF, CHR 0xBB, CHR 0xBF]"

lemma ReadAll_BOM:
  assumes "fs \<noteq> []"
  shows "ReadAll (BOM @ csv_text (fs # rows)) = Inl ErrBareQuote"
proof -
  obtain u where u: "csv_row fs = quote # u" "u \<noteq> []" using csv_row_quote assms by auto
  obtain l ls where l: "csv_lines (csv_text (fs # rows)) = l # ls"
    using csv_lines_Cons [of "csv_text (fs # rows)"] u(1) by (auto simp: csv_text_def)
  then obtain k where k: "l = quote # k"
    using u lines_quote [of "u @ csv_text rows" l ls] by (auto simp: csv_text_def)
  have "csv_lines (BOM @ csv_text (fs # rows)) = (BOM @ l) # ls" using l by (simp add: BOM_def)
  moreover have "parse_fields (BOM @ quote # k) ls = Inl ErrBareQuote"
    by (subst parse_fields.simps) (simp add: BOM_def)
  ultimately show ?thesis by (simp add: ReadAll_def k) (simp add: BOM_def)
qed

lemmas csv_facts = ReadAll_text ReadAll_BOM

end
