(* ===== verification/Receipts.thy ===== *)
theory Receipts
  imports Catalog Strconv
begin

text \<open>
  The package \<open>internal/receipts\<close>: the listing of the attachment library, the test whether a name is
  in it, and the validator of a listing. What \<open>os.ReadDir\<close>, \<open>Info\<close> and \<open>os.Stat\<close> answer is an
  argument; a modification time is its \<open>UnixNano\<close>.
\<close>

section \<open>Operations\<close>

record receipt =
  rc_Name :: go_string
  rc_Size :: int
  rc_ModifiedAt :: int

record library_entry =
  le_Name :: go_string
  le_IsDir :: bool
  le_Info :: "(int \<times> int) option"

datatype listing = NoDirectory | ListingFailed go_string | Entries "library_entry list"

definition skip_receipt :: "go_string \<Rightarrow> bool" where
  "skip_receipt name \<longleftrightarrow> has_prefix name ''.'' \<or> EqualFold name ''README.md''"

definition receipt_of :: "library_entry \<Rightarrow> receipt list" where
  "receipt_of e =
     (if le_IsDir e \<or> skip_receipt (le_Name e) then []
      else
        case le_Info e of
          None \<Rightarrow> []
        | Some (sz, mtime) \<Rightarrow> [\<lparr>rc_Name = le_Name e, rc_Size = sz, rc_ModifiedAt = mtime\<rparr>])"

definition receipts_List :: "listing \<Rightarrow> go_string + receipt list" where
  "receipts_List l =
     (case l of
        NoDirectory \<Rightarrow> Inr []
      | ListingFailed e \<Rightarrow> Inl (''reading receipts dir: '' @ e)
      | Entries es \<Rightarrow> Inr (sort_key rc_Name (concat (map receipt_of es))))"

text \<open>\<open>stat\<close> gives \<open>None\<close> for an error and otherwise whether the path is a directory.\<close>

definition Has :: "(go_string \<Rightarrow> bool option) \<Rightarrow> go_string \<Rightarrow> go_string \<Rightarrow> bool" where
  "Has stat dir name =
     (if name = [] \<or> list_ex (\<lambda>c. c = CHR ''/'' \<or> c = CHR 0x5C) name then False
      else stat (dir @ [slash] @ name) = Some False)"

fun newest_of :: "int \<Rightarrow> receipt list \<Rightarrow> int" where
  "newest_of newest [] = newest"
| "newest_of newest (r # rs) =
     newest_of (if rc_ModifiedAt r > newest then rc_ModifiedAt r else newest) rs"

definition ETag :: "receipt list \<Rightarrow> go_string" where
  "ETag rs = [CHR ''W'', CHR ''/'', CHR 0x22] @ itoa (int (length rs)) @ ''-'' @ itoa (newest_of 0 rs) @ [CHR 0x22]"

section \<open>Lemmas\<close>

lemma newest_of_eq: "newest_of n rs = Max (insert n (rc_ModifiedAt ` set rs))"
proof (induction n rs rule: newest_of.induct)
  case (2 newest r rs)
  let ?m = "if rc_ModifiedAt r > newest then rc_ModifiedAt r else newest"
  have "newest_of newest (r # rs) = Max (insert ?m (rc_ModifiedAt ` set rs))" using 2 by simp
  also have "\<dots> = Max (insert newest (insert (rc_ModifiedAt r) (rc_ModifiedAt ` set rs)))"
    by (cases "set rs = {}") (auto simp: max_def)
  finally show ?case by simp
qed simp

lemma newest_of_ge: "n \<le> newest_of n rs"
  by (simp add: newest_of_eq)

lemma dec_inject: "dec m = dec n \<longleftrightarrow> m = n"
  using digits_val_dec0 by (metis option.inject)

lemma itoa_nat: "itoa (int n) = dec n"
  by (simp add: itoa_def)

lemma itoa_split:
  assumes "itoa (int m) @ ''-'' @ s = itoa (int n) @ ''-'' @ t"
  shows "m = n \<and> s = t"
proof -
  have nodash: "CHR ''-'' \<notin> set (dec k)" for k
    by (auto simp: is_digit_def dest!: dec_digits)
  have "split_on (CHR ''-'') (dec m @ CHR ''-'' # s) = split_on (CHR ''-'') (dec n @ CHR ''-'' # t)"
    using assms by (simp add: itoa_nat)
  then have "dec m = dec n"
    using split_on_append [OF nodash, of m s] split_on_append [OF nodash, of n t] by simp
  with assms show ?thesis by (simp add: itoa_nat dec_inject)
qed

lemma ETag_split: "ETag rs = ETag ss \<longleftrightarrow> length rs = length ss \<and> newest_of 0 rs = newest_of 0 ss"
proof
  assume "ETag rs = ETag ss"
  then have "itoa (int (length rs)) @ ''-'' @ (itoa (newest_of 0 rs) @ [CHR 0x22]) =
      itoa (int (length ss)) @ ''-'' @ (itoa (newest_of 0 ss) @ [CHR 0x22])"
    by (simp add: ETag_def)
  then have l: "length rs = length ss"
    and "itoa (newest_of 0 rs) @ [CHR 0x22] = itoa (newest_of 0 ss) @ [CHR 0x22]"
    by (blast dest: itoa_split)+
  then have "itoa (newest_of 0 rs) = itoa (newest_of 0 ss)" by simp
  then have "nat (newest_of 0 rs) = nat (newest_of 0 ss)"
    using newest_of_ge [of 0 rs] newest_of_ge [of 0 ss] by (simp add: itoa_def dec_inject)
  with l show "length rs = length ss \<and> newest_of 0 rs = newest_of 0 ss"
    using newest_of_ge [of 0 rs] newest_of_ge [of 0 ss] by (metis int_nat_eq)
qed (simp add: ETag_def)

lemma receipt_of_iff:
  "r \<in> set (receipt_of e) \<longleftrightarrow> \<not> le_IsDir e \<and> \<not> skip_receipt (le_Name e) \<and>
     le_Info e = Some (rc_Size r, rc_ModifiedAt r) \<and> rc_Name r = le_Name e"
  by (cases r) (auto simp: receipt_of_def split: option.splits)

lemma receipts_listed:
  "receipts_List (Entries es) = Inr rs \<Longrightarrow> r \<in> set rs \<longleftrightarrow> (\<exists>e \<in> set es. r \<in> set (receipt_of e))"
  by (auto simp: receipts_List_def)

lemma receipts_names:
  "set (map rc_Name (concat (map receipt_of es))) \<subseteq> set (map le_Name es)"
  by (auto simp: receipt_of_iff)

lemma receipts_distinct:
  "distinct (map le_Name es) \<Longrightarrow> distinct (map rc_Name (concat (map receipt_of es)))"
proof (induction es)
  case (Cons e es)
  have "distinct (map rc_Name (receipt_of e))"
    by (simp add: receipt_of_def split: option.splits)
  moreover have "set (map rc_Name (receipt_of e)) \<inter> set (map rc_Name (concat (map receipt_of es))) = {}"
    using receipts_names [of es] Cons.prems by (auto simp: receipt_of_iff)
  ultimately show ?case using Cons by auto
qed simp

lemma receipts_sorted:
  assumes "receipts_List (Entries es) = Inr rs" "distinct (map le_Name es)"
  shows "sorted_wrt (<) (map rc_Name rs)"
proof -
  have rs: "rs = sort_key rc_Name (concat (map receipt_of es))" using assms(1) by (simp add: receipts_List_def)
  have "distinct (map rc_Name rs)"
    using receipts_distinct [OF assms(2)] by (simp add: rs distinct_map)
  moreover have "sorted (map rc_Name rs)" by (simp add: rs)
  ultimately show ?thesis by (simp add: strict_sorted_iff)
qed

section \<open>Properties\<close>

text \<open>
  The listing of the library holds exactly the plain entries that are not hidden, not the README
  and whose metadata could be read, each with the size and time of its entry; it is in strictly
  increasing order of the names, so no attachment is listed twice.
\<close>

theorem receipts_listing_exact:
  assumes "receipts_List (Entries es) = Inr rs" "distinct (map le_Name es)"
  shows "sorted_wrt (<) (map rc_Name rs) \<and>
    (r \<in> set rs \<longleftrightarrow>
      (\<exists>e. e \<in> set es \<and> \<not> le_IsDir e \<and> \<not> skip_receipt (le_Name e) \<and>
        le_Info e = Some (rc_Size r, rc_ModifiedAt r) \<and> rc_Name r = le_Name e))"
  using receipts_sorted [OF assms] receipts_listed [OF assms(1)] by (auto simp: receipt_of_iff)

definition sample_library :: "library_entry list" where
  "sample_library =
     [\<lparr>le_Name = ''taxi.pdf'', le_IsDir = False, le_Info = Some (5, 9)\<rparr>,
      \<lparr>le_Name = ''readme.MD'', le_IsDir = False, le_Info = Some (1, 7)\<rparr>,
      \<lparr>le_Name = ''old'', le_IsDir = True, le_Info = Some (0, 8)\<rparr>,
      \<lparr>le_Name = ''gone.pdf'', le_IsDir = False, le_Info = None\<rparr>,
      \<lparr>le_Name = ''hotel.pdf'', le_IsDir = False, le_Info = Some (6, 4)\<rparr>]"

theorem receipts_listing_exact_witness:
  "receipts_List (Entries sample_library) =
     Inr [\<lparr>rc_Name = ''hotel.pdf'', rc_Size = 6, rc_ModifiedAt = 4\<rparr>,
          \<lparr>rc_Name = ''taxi.pdf'', rc_Size = 5, rc_ModifiedAt = 9\<rparr>] \<and>
   sorted_wrt (<) (map rc_Name [\<lparr>rc_Name = ''hotel.pdf'', rc_Size = 6, rc_ModifiedAt = 4\<rparr>,
          \<lparr>rc_Name = ''taxi.pdf'', rc_Size = 5, rc_ModifiedAt = 9\<rparr>])"
proof -
  have l: "receipts_List (Entries sample_library) =
     Inr [\<lparr>rc_Name = ''hotel.pdf'', rc_Size = 6, rc_ModifiedAt = 4\<rparr>,
          \<lparr>rc_Name = ''taxi.pdf'', rc_Size = 5, rc_ModifiedAt = 9\<rparr>]" by code_simp
  have d: "distinct (map le_Name sample_library)" by code_simp
  show ?thesis using l receipts_listing_exact [OF l d] by blast
qed

text \<open>
  The test at upload time is wider than the listing: where \<open>stat\<close> and the directory agree on an
  entry, a name is accepted exactly when it is a plain entry without a backslash, be it hidden, the
  README, or one whose metadata cannot be read; so a name that the listing offers is accepted unless it has a
  backslash, and a hidden file is accepted though it is never offered.
\<close>

theorem has_wider_than_listing:
  assumes "e \<in> set es"
    and "le_Name e \<noteq> []" "slash \<notin> set (le_Name e)"
    and "stat (dir @ [slash] @ le_Name e) = Some (le_IsDir e)"
    and "distinct (map le_Name es)"
    and l: "receipts_List (Entries es) = Inr rs"
  shows "(Has stat dir (le_Name e) \<longleftrightarrow> \<not> le_IsDir e \<and> CHR 0x5C \<notin> set (le_Name e)) \<and>
    (le_Name e \<in> set (map rc_Name rs) \<longleftrightarrow>
       \<not> le_IsDir e \<and> \<not> skip_receipt (le_Name e) \<and> le_Info e \<noteq> None)"
proof
  show "Has stat dir (le_Name e) \<longleftrightarrow> \<not> le_IsDir e \<and> CHR 0x5C \<notin> set (le_Name e)"
    using assms by (auto simp: Has_def list_ex_iff)
  have same: "e' = e" if "e' \<in> set es" "le_Name e' = le_Name e" for e'
    using assms(1,5) that by (auto simp: distinct_map dest: inj_onD)
  have "le_Name e \<in> set (map rc_Name rs) \<longleftrightarrow> (\<exists>r. r \<in> set rs \<and> rc_Name r = le_Name e)"
    by force
  also have "\<dots> \<longleftrightarrow> (\<exists>r e'. e' \<in> set es \<and> r \<in> set (receipt_of e') \<and> le_Name e' = le_Name e)"
    unfolding receipts_listed [OF l] by (metis receipt_of_iff)
  also have "\<dots> \<longleftrightarrow> (\<exists>r. r \<in> set (receipt_of e))"
    using same assms(1) by blast
  also have "\<dots> \<longleftrightarrow> \<not> le_IsDir e \<and> \<not> skip_receipt (le_Name e) \<and> le_Info e \<noteq> None"
    by (cases "le_Info e") (auto simp: receipt_of_def)
  finally show "le_Name e \<in> set (map rc_Name rs) \<longleftrightarrow>
        \<not> le_IsDir e \<and> \<not> skip_receipt (le_Name e) \<and> le_Info e \<noteq> None" .
qed

theorem has_wider_than_listing_witness:
  "Has (\<lambda>p. if p = ''/r/.secret'' then Some False else None) ''/r'' ''.secret'' \<and>
   ''.secret'' \<notin> set (map rc_Name [])"
proof -
  let ?e = "\<lparr>le_Name = ''.secret'', le_IsDir = False, le_Info = Some (3, 4)\<rparr>"
  let ?stat = "\<lambda>p. if p = ''/r/.secret'' then Some False else None"
  have l: "receipts_List (Entries [?e]) = Inr []" by code_simp
  have n: "slash \<notin> set (le_Name ?e)" by code_simp
  have s: "skip_receipt (le_Name ?e)" by code_simp
  have t: "?stat (''/r'' @ [slash] @ le_Name ?e) = Some (le_IsDir ?e)" by simp
  show ?thesis
    using has_wider_than_listing [of ?e "[?e]" ?stat "''/r''" "[]"] n t l s by simp
qed

text \<open>
  The validator of a listing is a function of the number of attachments and of the newest
  modification time after the epoch only: two listings have the same validator exactly when these
  agree, so a file that is replaced by an older one, or renamed, leaves it unchanged.
\<close>

theorem etag_equal_iff:
  "ETag rs = ETag ss \<longleftrightarrow>
     length rs = length ss \<and>
     Max (insert 0 (rc_ModifiedAt ` set rs)) = Max (insert 0 (rc_ModifiedAt ` set ss))"
  by (simp only: ETag_split newest_of_eq)

end
