(* ===== verification/Upload.thy ===== *)
theory Upload
  imports Catalog Csv Receipts "HOL-Library.Multiset"
begin

text \<open>
  The checks of an uploaded CSV in \<open>internal/httpapi/handlers.go\<close>: \<open>findHeaderRow\<close> and
  \<open>validateCSV\<close>. The messages of the refusals are the constructors of a datatype. \<open>TrimSpace\<close>
  removes the characters of \<open>unicode.IsSpace\<close>, given by their UTF-8 bytes.
\<close>

section \<open>Cells\<close>

definition space_bytes :: "go_string list" where
  "space_bytes =
     [[CHR 0x09], [CHR 0x0A], [CHR 0x0B], [CHR 0x0C], [CHR 0x0D], [CHR 0x20],
      [CHR 0xC2, CHR 0x85], [CHR 0xC2, CHR 0xA0], [CHR 0xE1, CHR 0x9A, CHR 0x80]] @
     map (\<lambda>c. [CHR 0xE2, CHR 0x80, c])
       [CHR 0x80, CHR 0x81, CHR 0x82, CHR 0x83, CHR 0x84, CHR 0x85, CHR 0x86, CHR 0x87, CHR 0x88,
        CHR 0x89, CHR 0x8A, CHR 0xA8, CHR 0xA9, CHR 0xAF] @
     [[CHR 0xE2, CHR 0x81, CHR 0x9F], [CHR 0xE3, CHR 0x80, CHR 0x80]]"

function trim_start :: "go_string list \<Rightarrow> go_string \<Rightarrow> go_string" where
  "trim_start sps s =
     (case List.find (\<lambda>sp. sp \<noteq> [] \<and> has_prefix s sp) sps of
        None \<Rightarrow> s
      | Some sp \<Rightarrow> trim_start sps (drop (length sp) s))"
  by pat_completeness auto

termination trim_start
proof (relation "measure (\<lambda>(sps, s). length s)")
  fix sps :: "go_string list" and s sp
  assume "List.find (\<lambda>sp. sp \<noteq> [] \<and> has_prefix s sp) sps = Some sp"
  then have "sp \<noteq> []" "has_prefix s sp" by (auto simp: find_Some_iff)
  then show "((sps, drop (length sp) s), (sps, s)) \<in> measure (\<lambda>(sps, s). length s)"
    by (auto simp: has_prefix_iff)
qed simp

declare trim_start.simps [simp del]

definition TrimSpace :: "go_string \<Rightarrow> go_string" where
  "TrimSpace s = rev (trim_start (map rev space_bytes) (rev (trim_start space_bytes s)))"

definition header_name :: "go_string \<Rightarrow> go_string" where
  "header_name h = TrimSpace (trim_prefix h BOM)"

section \<open>findHeaderRow\<close>

fun row_cols :: "nat \<Rightarrow> go_string list \<Rightarrow> (go_string, nat) gomap \<Rightarrow> (go_string, nat) gomap" where
  "row_cols j [] cols = cols"
| "row_cols j (h # hs) cols = row_cols (Suc j) hs (AList.update (header_name h) j cols)"

definition header_score :: "(go_string, nat) gomap \<Rightarrow> go_string list \<Rightarrow> int" where
  "header_score cols want = int (length (filter (\<lambda>w. map_of cols w \<noteq> None) want))"

record best_row =
  b_Idx :: int
  b_Score :: int
  b_Present :: "(go_string, nat) gomap"

fun scan_rows :: "go_string list \<Rightarrow> nat \<Rightarrow> go_string list list \<Rightarrow> best_row \<Rightarrow> best_row" where
  "scan_rows want i [] best = best"
| "scan_rows want i (row # rows) best =
     (let cols = row_cols 0 row []; score = header_score cols want;
          best' = (if score > b_Score best
                   then \<lparr>b_Idx = int i, b_Score = score, b_Present = cols\<rparr> else best)
      in if score = int (length want) then best' else scan_rows want (Suc i) rows best')"

definition headerScanRows :: nat where "headerScanRows = 10"

definition findHeaderRow ::
  "go_string list list \<Rightarrow> go_string list \<Rightarrow> int \<times> (go_string, nat) gomap \<times> go_string list" where
  "findHeaderRow rows want =
     (let best = scan_rows want 0 (take (min (length rows) headerScanRows) rows)
                   \<lparr>b_Idx = -1, b_Score = -1, b_Present = []\<rparr>
      in if b_Idx best < 0 \<or> b_Score best = 0 then (-1, [], [])
         else (b_Idx best, b_Present best, filter (\<lambda>w. map_of (b_Present best) w = None) want))"

section \<open>validateCSV\<close>

datatype csv_problem =
    UnknownSchemaOf go_string go_string
  | InvalidCSV go_string csv_error
  | EmptyCSV go_string
  | NoHeaderRow go_string go_string
  | MissingColumns go_string "go_string list" go_string
  | UnknownReceipt go_string go_string

text \<open>The first name in the column \<open>k\<close> that the library does not have; \<open>seen\<close> are those already asked for.\<close>

fun check_receipts ::
  "(go_string \<Rightarrow> bool) \<Rightarrow> nat \<Rightarrow> go_string set \<Rightarrow> go_string list list \<Rightarrow> go_string option" where
  "check_receipts has k seen [] = None"
| "check_receipts has k seen (row # rows) =
     (if k \<ge> length row then check_receipts has k seen rows
      else
        let name = TrimSpace (row ! k) in
        if name = [] \<or> name \<in> seen then check_receipts has k seen rows
        else if \<not> has name then Some name
        else check_receipts has k (insert name seen) rows)"

fun check_columns ::
  "(go_string \<Rightarrow> bool) \<Rightarrow> (go_string, nat) gomap \<Rightarrow> go_string list list \<Rightarrow> go_string list \<Rightarrow> go_string option" where
  "check_columns has present rows [] = None"
| "check_columns has present rows (col # cols) =
     (case map_of present col of
        None \<Rightarrow> check_columns has present rows cols
      | Some k \<Rightarrow>
          (case check_receipts has k {} rows of
             Some name \<Rightarrow> Some name
           | None \<Rightarrow> check_columns has present rows cols))"

definition attachment_columns :: "go_string list" where
  "attachment_columns = [''attName'', ''attachmentFile'']"

definition validateCSV ::
  "catalog \<Rightarrow> (go_string \<Rightarrow> bool) \<Rightarrow> input \<Rightarrow> go_string \<Rightarrow> csv_problem option" where
  "validateCSV cat has i data =
     (case Schema cat (in_Schema i) of
        None \<Rightarrow> Some (UnknownSchemaOf (in_Name i) (in_Schema i))
      | Some schema \<Rightarrow>
          (case ReadAll data of
             Inl e \<Rightarrow> Some (InvalidCSV (in_Name i) e)
           | Inr rows \<Rightarrow>
               if rows = [] then Some (EmptyCSV (in_Name i))
               else
                 (case findHeaderRow rows (sch_Headers schema) of
                    (hdrIdx, present, missing) \<Rightarrow>
                      if hdrIdx < 0 then Some (NoHeaderRow (in_Name i) (in_Schema i))
                      else if missing \<noteq> [] then Some (MissingColumns (in_Name i) missing (in_Schema i))
                      else
                        map_option (UnknownReceipt (in_Name i))
                          (check_columns has present (drop (nat hdrIdx + 1) rows) attachment_columns))))"

section \<open>Lemmas\<close>

definition row_names :: "go_string list \<Rightarrow> go_string list" where
  "row_names row = map header_name row"


lemma row_cols_dom:
  "map_of (row_cols j hs cols) w \<noteq> None \<longleftrightarrow> w \<in> set (row_names hs) \<or> map_of cols w \<noteq> None"
  by (induction j hs cols rule: row_cols.induct) (auto simp: row_names_def update_conv')

lemma row_cols_value:
  "map_of (row_cols j hs cols) w = Some k \<Longrightarrow>
     map_of cols w = Some k \<or> (j \<le> k \<and> k < j + length hs \<and> header_name (hs ! (k - j)) = w)"
proof (induction j hs cols rule: row_cols.induct)
  case (2 j h hs cols)
  have "map_of (AList.update (header_name h) j cols) w = Some k \<or>
      (Suc j \<le> k \<and> k < Suc j + length hs \<and> header_name (hs ! (k - Suc j)) = w)"
    using "2.IH" "2.prems" by simp
  then show ?case
  proof
    assume "map_of (AList.update (header_name h) j cols) w = Some k"
    then show ?thesis by (auto simp: update_conv' split: if_splits)
  next
    assume "Suc j \<le> k \<and> k < Suc j + length hs \<and> header_name (hs ! (k - Suc j)) = w"
    then show ?thesis by (auto simp: nth_Cons' Suc_diff_le)
  qed
qed simp

definition row_score :: "go_string list \<Rightarrow> go_string list \<Rightarrow> int" where
  "row_score want row = int (length (filter (\<lambda>w. w \<in> set (row_names row)) want))"

lemma header_score_row: "header_score (row_cols 0 row []) want = row_score want row"
proof -
  have "(\<lambda>w. map_of (row_cols 0 row []) w \<noteq> None) = (\<lambda>w. w \<in> set (row_names row))"
    using row_cols_dom [of 0 row "[]"] by (simp add: fun_eq_iff)
  then show ?thesis by (simp add: header_score_def row_score_def)
qed

lemma row_score_bounds: "0 \<le> row_score want row" "row_score want row \<le> int (length want)"
  by (simp_all add: row_score_def)

definition row_best :: "go_string list \<Rightarrow> int \<Rightarrow> go_string list \<Rightarrow> best_row" where
  "row_best want i row = \<lparr>b_Idx = i, b_Score = row_score want row, b_Present = row_cols 0 row []\<rparr>"

lemma scan_rows_Cons:
  "scan_rows want i (row # rows) best =
     (let best' = (if row_score want row > b_Score best then row_best want (int i) row else best)
      in if row_score want row = int (length want) then best' else scan_rows want (Suc i) rows best')"
  by (simp add: header_score_row row_best_def Let_def)

declare scan_rows.simps(2) [simp del]

text \<open>The earliest of the rows with the greatest score, if it beats the best one so far.\<close>

definition first_best :: "go_string list \<Rightarrow> go_string list list \<Rightarrow> nat \<Rightarrow> bool" where
  "first_best want rows k \<longleftrightarrow> k < length rows \<and>
     (\<forall>j < length rows. row_score want (rows ! j) \<le> row_score want (rows ! k)) \<and>
     (\<forall>j < k. row_score want (rows ! j) < row_score want (rows ! k))"

lemma first_best_0:
  "(\<And>r. r \<in> set rows \<Longrightarrow> row_score want r \<le> row_score want row) \<Longrightarrow> first_best want (row # rows) 0"
  by (auto simp: first_best_def nth_Cons split: nat.splits)

lemma first_best_Suc:
  "first_best want rows k \<Longrightarrow> row_score want row < row_score want (rows ! k) \<Longrightarrow>
     first_best want (row # rows) (Suc k)"
  by (auto simp: first_best_def nth_Cons split: nat.splits)

text \<open>What a scan that began with \<open>best\<close> at row \<open>i\<close> may return.\<close>

definition scanned ::
  "go_string list \<Rightarrow> nat \<Rightarrow> go_string list list \<Rightarrow> best_row \<Rightarrow> best_row \<Rightarrow> bool" where
  "scanned want i rows best out \<longleftrightarrow>
     (out = best \<and> (\<forall>r \<in> set rows. row_score want r \<le> b_Score best)) \<or>
     (\<exists>k. first_best want rows k \<and> b_Score best < row_score want (rows ! k) \<and>
        out = row_best want (int (i + k)) (rows ! k))"

lemma scanned_keep: "(\<And>r. r \<in> set rows \<Longrightarrow> row_score want r \<le> b_Score best) \<Longrightarrow> scanned want i rows best best"
  by (simp add: scanned_def)

lemma scanned_here:
  "b_Score best < row_score want row \<Longrightarrow> (\<And>r. r \<in> set rows \<Longrightarrow> row_score want r \<le> row_score want row) \<Longrightarrow>
   scanned want i (row # rows) best (row_best want (int i) row)"
  unfolding scanned_def by (intro disjI2 exI [of _ 0]) (simp add: first_best_0)

lemma scanned_full:
  assumes "row_score want row = int (length want)"
  shows "scanned want i (row # rows) best (if row_score want row > b_Score best then row_best want (int i) row else best)"
proof -
  have top: "row_score want r \<le> row_score want row" for r
    using row_score_bounds(2) [of want r] assms by simp
  show ?thesis using scanned_here [OF _ top] scanned_keep order_trans [OF top] by simp
qed

lemma scanned_next:
  assumes "scanned want (Suc i) rows (if row_score want row > b_Score best then row_best want (int i) row else best) out"
  shows "scanned want i (row # rows) best out"
  using assms unfolding scanned_def [of want "Suc i"]
proof (elim disjE conjE exE)
  assume a: "out = (if row_score want row > b_Score best then row_best want (int i) row else best)"
    "\<forall>r \<in> set rows. row_score want r \<le>
       b_Score (if row_score want row > b_Score best then row_best want (int i) row else best)"
  show ?thesis
  proof (cases "row_score want row > b_Score best")
    case True
    with a show ?thesis by (auto simp: row_best_def intro: scanned_here [unfolded row_best_def])
  next
    case False
    with a show ?thesis by (auto intro!: scanned_keep)
  qed
next
  fix k assume k: "first_best want rows k" "out = row_best want (int (Suc i + k)) (rows ! k)"
    "b_Score (if row_score want row > b_Score best then row_best want (int i) row else best) < row_score want (rows ! k)"
  then have lt: "row_score want row < row_score want (rows ! k)" "b_Score best < row_score want (rows ! k)"
    by (auto simp: row_best_def split: if_splits)
  with k show ?thesis
    unfolding scanned_def by (intro disjI2 exI [of _ "Suc k"]) (simp add: first_best_Suc)
qed

lemma scan_rows_best: "scanned want i rows best (scan_rows want i rows best)"
proof (induction rows arbitrary: i best)
  case (Cons row rows)
  then show ?case using scanned_full scanned_next by (auto simp: scan_rows_Cons Let_def)
qed (simp add: scanned_def)

text \<open>The rows that are looked at.\<close>

definition head_rows :: "go_string list list \<Rightarrow> go_string list list" where
  "head_rows rows = take 10 rows"

lemma findHeaderRow_rows:
  "findHeaderRow rows want =
     (let best = scan_rows want 0 (head_rows rows) \<lparr>b_Idx = -1, b_Score = -1, b_Present = []\<rparr>
      in if b_Idx best < 0 \<or> b_Score best = 0 then (-1, [], [])
         else (b_Idx best, b_Present best, filter (\<lambda>w. map_of (b_Present best) w = None) want))"
  by (simp add: findHeaderRow_def headerScanRows_def head_rows_def min_def)

lemma row_score_0: "row_score want row = 0 \<longleftrightarrow> (\<forall>w \<in> set want. w \<notin> set (row_names row))"
  by (auto simp: row_score_def filter_empty_conv)

lemma row_score_full: "row_score want row = int (length want) \<longleftrightarrow> set want \<subseteq> set (row_names row)"
proof -
  have "length (filter P xs) = length xs \<longleftrightarrow> (\<forall>x \<in> set xs. P x)" for P and xs :: "go_string list"
    using length_filter_less [of _ xs P] by (metis filter_True less_irrefl)
  then show ?thesis by (auto simp: row_score_def)
qed

lemma absent_names: "(\<lambda>w. map_of (row_cols 0 row []) w = None) = (\<lambda>w. w \<notin> set (row_names row))"
proof
  fix w
  show "(map_of (row_cols 0 row []) w = None) = (w \<notin> set (row_names row))"
    using row_cols_dom [of 0 row "[]" w] by (simp del: not_None_eq) blast
qed

lemma findHeaderRow_cases:
  obtains (absent) "findHeaderRow rows want = (-1, [], [])"
      "\<And>row w. row \<in> set (head_rows rows) \<Longrightarrow> w \<in> set want \<Longrightarrow> w \<notin> set (row_names row)"
  | (found) k where "first_best want (head_rows rows) k" "0 < row_score want (head_rows rows ! k)"
      "findHeaderRow rows want =
        (int k, row_cols 0 (head_rows rows ! k) [],
         filter (\<lambda>w. w \<notin> set (row_names (head_rows rows ! k))) want)"
proof -
  let ?b0 = "\<lparr>b_Idx = -1, b_Score = -1, b_Present = []\<rparr>"
  consider (none) "scan_rows want 0 (head_rows rows) ?b0 = ?b0"
      "\<forall>r \<in> set (head_rows rows). row_score want r \<le> - 1"
    | (some) k where "first_best want (head_rows rows) k"
      "scan_rows want 0 (head_rows rows) ?b0 = row_best want (int k) (head_rows rows ! k)"
    using scan_rows_best [of want 0 "head_rows rows" ?b0] unfolding scanned_def by force
  then show thesis
  proof cases
    case none
    then have "r \<notin> set (head_rows rows)" for r using row_score_bounds(1) [of want r] by force
    then have "head_rows rows = []" by (cases "head_rows rows") auto
    with none(1) show thesis by (intro absent) (simp_all add: findHeaderRow_rows)
  next
    case (some k)
    show thesis
    proof (cases "row_score want (head_rows rows ! k) = 0")
      case True
      have z: "row_score want r = 0" if "r \<in> set (head_rows rows)" for r
        using that some(1) True row_score_bounds(1) [of want r]
        by (fastforce simp: first_best_def in_set_conv_nth)
      with some True show thesis
        by (intro absent) (auto simp: findHeaderRow_rows row_best_def row_score_0)
    next
      case False
      then have "0 < row_score want (head_rows rows ! k)"
        using row_score_bounds(1) [of want] by (simp add: less_le)
      moreover have "findHeaderRow rows want = (int k, row_cols 0 (head_rows rows ! k) [],
         filter (\<lambda>w. w \<notin> set (row_names (head_rows rows ! k))) want)"
        using some(2) False by (simp add: findHeaderRow_rows row_best_def absent_names)
      ultimately show thesis by (rule found [OF some(1)])
    qed
  qed
qed

section \<open>Receipts\<close>

lemma check_receipts_None:
  "check_receipts has k seen rows = None \<longleftrightarrow>
     (\<forall>row \<in> set rows. k < length row \<longrightarrow> TrimSpace (row ! k) = [] \<or> TrimSpace (row ! k) \<in> seen \<or>
        has (TrimSpace (row ! k)))"
  by (induction has k seen rows rule: check_receipts.induct) (auto simp: Let_def not_le)

lemma check_receipts_Some:
  "check_receipts has k seen rows = Some name \<Longrightarrow>
     \<not> has name \<and> name \<noteq> [] \<and> (\<exists>row \<in> set rows. k < length row \<and> name = TrimSpace (row ! k))"
  by (induction has k seen rows rule: check_receipts.induct) (auto simp: Let_def split: if_splits)

lemma check_columns_None:
  "check_columns has present rows cols = None \<longleftrightarrow>
     (\<forall>col \<in> set cols. \<forall>k. map_of present col = Some k \<longrightarrow> check_receipts has k {} rows = None)"
  by (induction has present rows cols rule: check_columns.induct) (auto split: option.splits)

text \<open>The column of a name: the last one of the row that has it.\<close>

definition column_of :: "go_string list \<Rightarrow> go_string \<Rightarrow> nat option" where
  "column_of row w = map_of (rev (zip (row_names row) [0..<length row])) w"

lemma row_cols_map:
  "map_of (row_cols j hs cols) = map_of (rev (zip (row_names hs) [j..<j + length hs]) @ cols)"
proof (induction j hs cols rule: row_cols.induct)
  case (2 j h hs cols)
  have "[j..<j + length (h # hs)] = j # [Suc j..<Suc j + length hs]" by (simp add: upt_conv_Cons del: upt_Suc)
  with 2 show ?case by (simp add: row_names_def update_conv' map_add_def fun_eq_iff)
qed (simp add: row_names_def)

lemma row_cols_column: "map_of (row_cols 0 row []) w = column_of row w"
  by (simp add: row_cols_map column_of_def)

text \<open>What an accepted table is.\<close>

definition attachments_ok :: "(go_string \<Rightarrow> bool) \<Rightarrow> go_string list \<Rightarrow> go_string list list \<Rightarrow> bool" where
  "attachments_ok has header body \<longleftrightarrow>
     (\<forall>col \<in> set attachment_columns. \<forall>c. column_of header col = Some c \<longrightarrow>
       (\<forall>row \<in> set body. c < length row \<longrightarrow> TrimSpace (row ! c) = [] \<or> has (TrimSpace (row ! c))))"

lemma check_columns_ok:
  "check_columns has (row_cols 0 header []) body attachment_columns = None \<longleftrightarrow> attachments_ok has header body"
  by (auto simp: check_columns_None check_receipts_None attachments_ok_def row_cols_column)

definition table_ok ::
  "(go_string \<Rightarrow> bool) \<Rightarrow> go_string list \<Rightarrow> go_string list list \<Rightarrow> nat \<Rightarrow> bool" where
  "table_ok has headers rows k \<longleftrightarrow>
     headers \<noteq> [] \<and> k < 10 \<and> k < length rows \<and> set headers \<subseteq> set (row_names (rows ! k)) \<and>
     (\<forall>j < k. \<not> set headers \<subseteq> set (row_names (rows ! j))) \<and>
     attachments_ok has (rows ! k) (drop (k + 1) rows)"

lemma first_best_full:
  assumes "first_best want rows k" "set want \<subseteq> set (row_names (rows ! k))" "j < k"
  shows "\<not> set want \<subseteq> set (row_names (rows ! j))"
proof
  assume "set want \<subseteq> set (row_names (rows ! j))"
  then have "row_score want (rows ! j) = int (length want)" by (simp only: row_score_full)
  moreover have "row_score want (rows ! k) = int (length want)" using assms(2) by (simp only: row_score_full)
  moreover have "row_score want (rows ! j) < row_score want (rows ! k)"
    using assms(1,3) by (simp add: first_best_def)
  ultimately show False by simp
qed

lemma first_best_unique:
  "first_best want rows k \<Longrightarrow> first_best want rows l \<Longrightarrow> k = l"
  by (metis first_best_def leD less_trans linorder_neqE_nat)

lemma full_first_best:
  assumes "k < length rows" "set want \<subseteq> set (row_names (rows ! k))"
    "\<forall>j < k. \<not> set want \<subseteq> set (row_names (rows ! j))"
  shows "first_best want rows k"
proof -
  have k: "row_score want (rows ! k) = int (length want)" using assms(2) by (simp add: row_score_full)
  have "row_score want (rows ! j) < row_score want (rows ! k)" if "j < k" for j
  proof -
    have "row_score want (rows ! j) \<noteq> int (length want)" using assms(3) that row_score_full by blast
    with k row_score_bounds(2) [of want "rows ! j"] show ?thesis by linarith
  qed
  with assms(1) k row_score_bounds(2) [of want] show ?thesis by (simp add: first_best_def)
qed

lemma head_rows_nth: "k < length (head_rows rows) \<Longrightarrow> head_rows rows ! k = rows ! k \<and> k < 10 \<and> k < length rows"
  by (simp add: head_rows_def)

lemma findHeaderRow_full:
  assumes "headers \<noteq> []" "k < 10" "k < length rows" "set headers \<subseteq> set (row_names (rows ! k))"
    "\<forall>j < k. \<not> set headers \<subseteq> set (row_names (rows ! j))"
  shows "findHeaderRow rows headers = (int k, row_cols 0 (rows ! k) [], [])"
proof -
  have k: "k < length (head_rows rows)" "head_rows rows ! k = rows ! k"
    using assms(2,3) by (simp_all add: head_rows_def)
  have fb: "first_best headers (head_rows rows) k"
    using k assms(2,4,5) by (intro full_first_best) (simp_all add: head_rows_def)
  show ?thesis
  proof (cases rows headers rule: findHeaderRow_cases)
    case absent
    then show ?thesis using k assms(1,4) absent(2) [of "rows ! k"] nth_mem [OF k(1)] by (cases headers) auto
  next
    case (found l)
    then have "l = k" using fb first_best_unique by blast
    with found(3) k assms(4) show ?thesis by (auto simp: filter_empty_conv)
  qed
qed

lemma validateCSV_None:
  "validateCSV cat has i data = None \<longleftrightarrow>
     (\<exists>schema rows k. Schema cat (in_Schema i) = Some schema \<and> ReadAll data = Inr rows \<and>
        table_ok has (sch_Headers schema) rows k)" (is "?l \<longleftrightarrow> ?r")
proof
  assume l: ?l
  obtain schema rows where sr: "Schema cat (in_Schema i) = Some schema" "ReadAll data = Inr rows"
    using l by (auto simp: validateCSV_def split: option.splits sum.splits)
  let ?h = "sch_Headers schema"
  show ?r
  proof (cases rows ?h rule: findHeaderRow_cases)
    case absent
    then show ?thesis using l sr by (auto simp: validateCSV_def split: if_splits)
  next
    case (found k)
    have k: "head_rows rows ! k = rows ! k" "k < 10" "k < length rows"
      using found(1) head_rows_nth [of k rows] by (auto simp: first_best_def)
    have c: "set ?h \<subseteq> set (row_names (rows ! k))"
      "check_columns has (row_cols 0 (rows ! k) []) (drop (k + 1) rows) attachment_columns = None"
      using l sr found(3) k(1)
      by (auto simp: validateCSV_def filter_empty_conv nat_add_distrib split: if_splits)
    have "?h \<noteq> []" using found(2) by (auto simp: row_score_def)
    moreover have "\<not> set ?h \<subseteq> set (row_names (rows ! j))" if "j < k" for j
      using first_best_full [OF found(1) _ that] c(1) k that found(1) head_rows_nth [of j rows]
      by (simp add: first_best_def)
    ultimately have "table_ok has ?h rows k"
      using c k by (simp add: table_ok_def check_columns_ok)
    with sr show ?thesis by blast
  qed
next
  assume ?r
  then obtain schema rows k where r: "Schema cat (in_Schema i) = Some schema" "ReadAll data = Inr rows"
    "table_ok has (sch_Headers schema) rows k" by blast
  then have "findHeaderRow rows (sch_Headers schema) = (int k, row_cols 0 (rows ! k) [], [])"
    by (intro findHeaderRow_full) (auto simp: table_ok_def)
  moreover have "check_columns has (row_cols 0 (rows ! k) []) (drop (k + 1) rows) attachment_columns = None"
    using r(3) by (simp only: check_columns_ok table_ok_def)
  moreover have "rows \<noteq> []" using r(3) by (auto simp: table_ok_def)
  ultimately show ?l using r(1,2) by (simp add: validateCSV_def nat_add_distrib)
qed

section \<open>Properties\<close>

text \<open>
  C37. The header row found is the earliest of the first ten rows with the most wanted columns, names compared
  after removing a byte order mark and surrounding space; what is reported missing is exactly the
  wanted names that the row does not have, each column is the last of its name, and no row is found exactly
  when none of the ten has any wanted name.
\<close>

theorem header_row_exact:
  assumes "findHeaderRow rows want = (hdr, present, missing)"
  shows "(hdr < 0 \<longleftrightarrow> (\<forall>row \<in> set (take 10 rows). set want \<inter> set (row_names row) = {})) \<and>
    (0 \<le> hdr \<longrightarrow> first_best want (take 10 rows) (nat hdr) \<and>
       missing = filter (\<lambda>w. w \<notin> set (row_names (rows ! nat hdr))) want \<and>
       map_of present = column_of (rows ! nat hdr))"
proof (cases rows want rule: findHeaderRow_cases)
  case absent
  with assms show ?thesis by (auto simp: head_rows_def)
next
  case (found k)
  have l: "k < length (head_rows rows)" using found(1) by (simp add: first_best_def)
  then have k: "head_rows rows ! k = rows ! k" "rows ! k \<in> set (take 10 rows)"
    using head_rows_nth [OF l] nth_mem [OF l] by (simp_all add: head_rows_def)
  have "set want \<inter> set (row_names (rows ! k)) \<noteq> {}"
    using found(2) k(1) row_score_0 [of want "rows ! k"] by auto
  then have "\<not> (\<forall>row \<in> set (take 10 rows). set want \<inter> set (row_names row) = {})" using k(2) by blast
  moreover have "hdr = int k \<and> present = row_cols 0 (rows ! k) [] \<and>
    missing = filter (\<lambda>w. w \<notin> set (row_names (rows ! k))) want"
    using assms found(3) k(1) by auto
  moreover have "map_of (row_cols 0 (rows ! k) []) = column_of (rows ! k)"
    by (simp add: row_cols_column fun_eq_iff)
  ultimately show ?thesis using found(1) by (simp add: head_rows_def)
qed

definition sample_rows :: "go_string list list" where
  "sample_rows = [[''Scenario'', []], [BOM @ ''Group'', '' attName ''], [''g1'', ''taxi.pdf'']]"

theorem header_row_exact_witness:
  "findHeaderRow sample_rows [''Group'', ''Mode''] = (1, [(''Group'', 0), (''attName'', 1)], [''Mode'']) \<and>
   first_best [''Group'', ''Mode''] (take 10 sample_rows) 1"
proof -
  have f: "findHeaderRow sample_rows [''Group'', ''Mode''] = (1, [(''Group'', 0), (''attName'', 1)], [''Mode''])"
    by code_simp
  show ?thesis using header_row_exact [OF f] f by simp
qed

text \<open>
  C20. An upload passes exactly when the schema is known, the bytes are a CSV table, one of its first ten rows has all the
  headers of the schema (the first such row is the header) and every name that a row below
  it has in the last column called \<open>attName\<close> or \<open>attachmentFile\<close> is blank or in the library; rows too short for
  the column are passed over.
\<close>

theorem validate_csv_exact:
  "validateCSV cat has i data = None \<longleftrightarrow>
     (\<exists>schema rows k. Schema cat (in_Schema i) = Some schema \<and> ReadAll data = Inr rows \<and>
        table_ok has (sch_Headers schema) rows k)"
  by (rule validateCSV_None)



end
