(* ===== verification/Config.thy ===== *)
theory Config
  imports Paths Strconv
begin

text \<open>
  The package \<open>internal/config\<close>: the configuration, the paths derived from it, how it is read from
  the environment and how it is validated. What the process finds around it - its environment, its
  working directory, the path of its executable, the answers of \<open>os.Stat\<close> and \<open>os.MkdirAll\<close> -
  is the record \<open>surroundings\<close>. The texts of the errors are the constructors of a datatype; an unset variable
  and an empty one are the same to \<open>os.Getenv\<close>. The server runs on Unix here (\<open>IsWindows\<close> is false).
\<close>

section \<open>Operations\<close>

record config =
  cfg_Addr :: go_string
  cfg_AutomationDir :: go_string
  cfg_RunsDir :: go_string
  cfg_ReceiptsDir :: go_string
  cfg_NodeBin :: go_string
  cfg_MaxConcurrent :: int
  cfg_QueueDepth :: int
  cfg_Token :: go_string
  cfg_MaxUploadBytes :: int
  cfg_ShutdownGrace :: int

record surroundings =
  so_Getenv :: "go_string \<Rightarrow> go_string"
  so_Getwd :: "go_string option"
  so_Executable :: "go_string option"
  so_Stat :: "go_string \<Rightarrow> bool option"
  so_MkdirAll :: "go_string \<Rightarrow> go_string option"

datatype config_error =
    AbsFailed
  | NotANumber go_string go_string
  | MaxConcurrentTooLow
  | QueueDepthTooLow
  | TokenMissing
  | AutomationDirMissing go_string
  | ManifestMissing go_string
  | PlaywrightMissing go_string go_string
  | RunsDirFailed go_string go_string

definition PlaywrightCLI :: "config \<Rightarrow> go_string" where
  "PlaywrightCLI c = Join [cfg_AutomationDir c, ''node_modules'', ''@playwright'', ''test'', ''cli.js'']"

definition ManifestPath :: "config \<Rightarrow> go_string" where
  "ManifestPath c = Join [cfg_AutomationDir c, ''workflows.json'']"

definition RunDir :: "config \<Rightarrow> go_string \<Rightarrow> go_string" where
  "RunDir c i = Join [cfg_RunsDir c, i]"

definition env_or :: "surroundings \<Rightarrow> go_string \<Rightarrow> go_string \<Rightarrow> go_string" where
  "env_or w key def = (let v = so_Getenv w key in if v \<noteq> [] then v else def)"

definition envInt :: "surroundings \<Rightarrow> go_string \<Rightarrow> int \<Rightarrow> config_error + int" where
  "envInt w key def =
     (let raw = so_Getenv w key in
      if raw = [] then Inr def
      else case parse_int64 raw of None \<Rightarrow> Inl (NotANumber key raw) | Some n \<Rightarrow> Inr n)"

definition dirExists :: "surroundings \<Rightarrow> go_string \<Rightarrow> bool" where
  "dirExists w p \<longleftrightarrow> so_Stat w p = Some True"

definition defaultAutomationDir :: "surroundings \<Rightarrow> go_string" where
  "defaultAutomationDir w =
     (let from_exe =
            (case so_Executable w of
               None \<Rightarrow> None
             | Some exe \<Rightarrow>
                 let d = Join [path_Dir exe, ''..'', ''automation'']
                 in if dirExists w d then Some d else None)
      in case from_exe of
           Some d \<Rightarrow> d
         | None \<Rightarrow>
             (case so_Getwd w of
                None \<Rightarrow> ''automation''
              | Some wd \<Rightarrow>
                  (case find (dirExists w) [Join [wd, ''automation''], Join [wd, ''..'', ''automation'']] of
                     Some cand \<Rightarrow> cand
                   | None \<Rightarrow> ''automation'')))"

definition zero_config :: config where
  "zero_config =
     \<lparr>cfg_Addr = [], cfg_AutomationDir = [], cfg_RunsDir = [], cfg_ReceiptsDir = [], cfg_NodeBin = [],
      cfg_MaxConcurrent = 0, cfg_QueueDepth = 0, cfg_Token = [], cfg_MaxUploadBytes = 0, cfg_ShutdownGrace = 0\<rparr>"

definition validate :: "surroundings \<Rightarrow> config \<Rightarrow> config_error list" where
  "validate w c =
     (if cfg_MaxConcurrent c < 1 then [MaxConcurrentTooLow] else []) @
     (if cfg_QueueDepth c < 1 then [QueueDepthTooLow] else []) @
     (if cfg_Token c = [] then [TokenMissing] else []) @
     (if so_Stat w (cfg_AutomationDir c) \<noteq> Some True then [AutomationDirMissing (cfg_AutomationDir c)] else []) @
     (if so_Stat w (ManifestPath c) = None then [ManifestMissing (ManifestPath c)] else []) @
     (if so_Stat w (PlaywrightCLI c) = None then [PlaywrightMissing (PlaywrightCLI c) (cfg_AutomationDir c)] else []) @
     (case so_MkdirAll w (cfg_RunsDir c) of None \<Rightarrow> [] | Some e \<Rightarrow> [RunsDirFailed (cfg_RunsDir c) e])"

text \<open>The result is the pair of the configuration and the joined errors, the empty list for \<open>nil\<close>.\<close>

definition config_Load :: "surroundings \<Rightarrow> config \<times> config_error list" where
  "config_Load w =
     (case Abs (so_Getwd w) (env_or w ''PSTAD_AUTOMATION_DIR'' (defaultAutomationDir w)) of
        None \<Rightarrow> (zero_config, [AbsFailed])
      | Some automation \<Rightarrow>
        (case envInt w ''PSTAD_MAX_CONCURRENT'' 2 of
           Inl e \<Rightarrow> (zero_config, [e])
         | Inr maxConcurrent \<Rightarrow>
           (case envInt w ''PSTAD_QUEUE_DEPTH'' 32 of
              Inl e \<Rightarrow> (zero_config, [e])
            | Inr queueDepth \<Rightarrow>
              (case envInt w ''PSTAD_MAX_UPLOAD_BYTES'' (10 * 2 ^ 20) of
                 Inl e \<Rightarrow> (zero_config, [e])
               | Inr maxUpload \<Rightarrow>
                   let cfg =
                     \<lparr>cfg_Addr = env_or w ''PSTAD_ADDR'' ''127.0.0.1:8080'',
                      cfg_AutomationDir = automation,
                      cfg_RunsDir = env_or w ''PSTAD_RUNS_DIR'' (Join [automation, ''.runs'']),
                      cfg_ReceiptsDir = env_or w ''PSTAD_RECEIPTS_DIR'' (Join [automation, ''data'', ''receipts'']),
                      cfg_NodeBin = env_or w ''PSTAD_NODE_BIN'' ''node'',
                      cfg_MaxConcurrent = maxConcurrent,
                      cfg_QueueDepth = queueDepth,
                      cfg_Token = so_Getenv w ''PSTAD_TOKEN'',
                      cfg_MaxUploadBytes = maxUpload,
                      cfg_ShutdownGrace = 15 * 10 ^ 9\<rparr>
                   in (cfg, validate w cfg)))))"

section \<open>Lemmas\<close>


text \<open>A configuration the server starts with.\<close>

definition config_ok :: "surroundings \<Rightarrow> config \<Rightarrow> bool" where
  "config_ok w c \<longleftrightarrow>
     1 \<le> cfg_MaxConcurrent c \<and> 1 \<le> cfg_QueueDepth c \<and> cfg_Token c \<noteq> [] \<and>
     dirExists w (cfg_AutomationDir c) \<and> so_Stat w (ManifestPath c) \<noteq> None \<and>
     so_Stat w (PlaywrightCLI c) \<noteq> None \<and> so_MkdirAll w (cfg_RunsDir c) = None"

lemma validate_Nil: "validate w c = [] \<longleftrightarrow> config_ok w c"
  by (auto simp: validate_def config_ok_def dirExists_def split: option.splits)


lemma envInt_default: "so_Getenv w key = [] \<Longrightarrow> envInt w key d = Inr d"
  by (simp add: envInt_def)

lemma envInt_itoa: "so_Getenv w key = itoa n \<Longrightarrow> in_int64 n \<Longrightarrow> envInt w key d = Inr n"
  using parse_itoa [of n] by (auto simp: envInt_def itoa_def)

lemma load_shape:
  assumes "config_Load w = (c, [])"
  obtains a where "Abs (so_Getwd w) (env_or w ''PSTAD_AUTOMATION_DIR'' (defaultAutomationDir w)) = Some a"
    "cfg_AutomationDir c = a" "validate w c = []"
    "envInt w ''PSTAD_MAX_CONCURRENT'' 2 = Inr (cfg_MaxConcurrent c)"
    "envInt w ''PSTAD_QUEUE_DEPTH'' 32 = Inr (cfg_QueueDepth c)"
    "envInt w ''PSTAD_MAX_UPLOAD_BYTES'' (10 * 2 ^ 20) = Inr (cfg_MaxUploadBytes c)"
    "cfg_Token c = so_Getenv w ''PSTAD_TOKEN''"
  using assms unfolding config_Load_def Let_def
  by (auto split: option.splits sum.splits)

section \<open>Properties\<close>

text \<open>
  The validation accepts a configuration exactly when both bounds are at least 1, the token is not
  empty, the automation directory, its manifest and the Playwright script are there and the runs directory could be made.
\<close>

theorem validate_exact:
  "validate w c = [] \<longleftrightarrow>
     1 \<le> cfg_MaxConcurrent c \<and> 1 \<le> cfg_QueueDepth c \<and> cfg_Token c \<noteq> [] \<and>
     so_Stat w (cfg_AutomationDir c) = Some True \<and> so_Stat w (ManifestPath c) \<noteq> None \<and>
     so_Stat w (PlaywrightCLI c) \<noteq> None \<and> so_MkdirAll w (cfg_RunsDir c) = None"
  by (simp add: validate_Nil config_ok_def dirExists_def)


definition sample_surroundings :: surroundings where
  "sample_surroundings =
     \<lparr>so_Getenv = (\<lambda>k. if k = ''PSTAD_TOKEN'' then ''s3cret'' else
         if k = ''PSTAD_MAX_UPLOAD_BYTES'' then ''-1'' else []),
      so_Getwd = Some ''/srv/app'', so_Executable = Some ''/srv/bin/pstad'',
      so_Stat = (\<lambda>p. if p = ''/srv/app/automation'' then Some True else
         if p = ''/srv/app/automation/workflows.json'' then Some False else
         if p = ''/srv/app/automation/node_modules/@playwright/test/cli.js'' then Some False else None),
      so_MkdirAll = (\<lambda>p. None)\<rparr>"

definition sample_config :: config where
  "sample_config =
     \<lparr>cfg_Addr = ''127.0.0.1:8080'', cfg_AutomationDir = ''/srv/app/automation'',
      cfg_RunsDir = ''/srv/app/automation/.runs'', cfg_ReceiptsDir = ''/srv/app/automation/data/receipts'',
      cfg_NodeBin = ''node'', cfg_MaxConcurrent = 2, cfg_QueueDepth = 32, cfg_Token = ''s3cret'',
      cfg_MaxUploadBytes = - 1, cfg_ShutdownGrace = 15 * 10 ^ 9\<rparr>"

lemma sample_load: "config_Load sample_surroundings = (sample_config, [])"
  by code_simp


text \<open>
  The upload limit is the one number that nothing checks: whatever 64-bit number the variable holds,
  zero and negative ones included, the configuration is loaded with it and the same validation errors.
\<close>

theorem upload_limit_unchecked:
  assumes "config_Load w = (c, [])" "in_int64 n"
  shows "config_Load (w\<lparr>so_Getenv := (so_Getenv w)(''PSTAD_MAX_UPLOAD_BYTES'' := itoa n)\<rparr>) =
    (c\<lparr>cfg_MaxUploadBytes := n\<rparr>, [])"
proof -
  let ?w = "w\<lparr>so_Getenv := (so_Getenv w)(''PSTAD_MAX_UPLOAD_BYTES'' := itoa n)\<rparr>"
  have dirExists: "dirExists ?w = dirExists w" by (simp add: dirExists_def fun_eq_iff)
  have same: "so_Getwd ?w = so_Getwd w" "defaultAutomationDir ?w = defaultAutomationDir w"
    unfolding defaultAutomationDir_def dirExists by simp_all
  have env: "env_or ?w k d = env_or w k d" "envInt ?w k j = envInt w k j" "so_Getenv ?w k = so_Getenv w k"
    if "k \<noteq> ''PSTAD_MAX_UPLOAD_BYTES''" for k d j
    using that by (simp_all add: env_or_def envInt_def)
  have up: "envInt ?w ''PSTAD_MAX_UPLOAD_BYTES'' j = Inr n" for j
    by (rule envInt_itoa) (simp_all add: assms(2))
  have v: "validate ?w d = validate w d" for d
    by (simp add: validate_def ManifestPath_def PlaywrightCLI_def cong: option.case_cong)
  have v': "validate w (d\<lparr>cfg_MaxUploadBytes := n\<rparr>) = validate w d" for d
    by (simp add: validate_def ManifestPath_def PlaywrightCLI_def cong: option.case_cong)
  have "config_Load ?w = (c\<lparr>cfg_MaxUploadBytes := n\<rparr>, validate ?w (c\<lparr>cfg_MaxUploadBytes := n\<rparr>))"
    using assms(1) unfolding config_Load_def Let_def
    by (auto simp: same env up split: option.splits sum.splits)
  moreover have "validate w c = []" using load_shape [OF assms(1)] by metis
  ultimately show ?thesis by (simp only: v v')
qed

theorem upload_limit_unchecked_witness:
  "snd (config_Load (sample_surroundings\<lparr>so_Getenv :=
     (so_Getenv sample_surroundings)(''PSTAD_MAX_UPLOAD_BYTES'' := itoa (- 7))\<rparr>)) = []"
  using upload_limit_unchecked [OF sample_load, of "- 7"] by (simp add: in_int64_def)

end
