(* ===== verification/Handlers.thy ===== *)
theory Handlers
  imports Upload Queue Config
begin

text \<open>
  The handlers of \<open>internal/httpapi/handlers.go\<close> as functions of the server, of what the host answers
  (file system, clock, random bytes, JSON decoder), of the request and of the queue, which holds the store. A reply is
  the queue after the request, what was done to the file system, the access log and the response; no response is
  a panic. A body is the value before its JSON encoding, and an error message that formats values
  is a constructor of \<open>message\<close>.
\<close>

section \<open>Requests, hosts and replies\<close>

record create_config =
  cc_WorkflowID :: go_string
  cc_Env :: go_string
  cc_TimeoutSeconds :: int
  cc_Trace :: bool
  cc_SubmittedBy :: go_string
  cc_Params :: "(go_string, go_string) gomap"

text \<open>
  A part of a multipart body: its form name and what reading it through \<open>io.LimitReader\<close> gives,
  an error or the bytes. The body ends properly or in an error of \<open>NextPart\<close>.
\<close>

record part =
  part_Name :: go_string
  part_Read :: "int \<Rightarrow> go_string + go_string"

record multipart =
  mp_Parts :: "part list"
  mp_End :: "go_string option"

text \<open>
  The multipart body is seen through \<open>http.MaxBytesReader\<close>, so it is a function of that limit. The
  segments are those of the cleaned path, unescaped; the last one is empty after a trailing slash.
\<close>

record request =
  rq_Method :: go_string
  rq_Path :: go_string
  rq_Segments :: "go_string list"
  rq_Header :: "go_string \<Rightarrow> go_string"
  rq_Query :: "go_string \<Rightarrow> go_string"
  rq_Multipart :: "int \<Rightarrow> go_string + multipart"
  rq_TimedOut :: bool

record server =
  srv_cfg :: config
  srv_catalog :: catalog
  srv_receipts :: go_string
  srv_version :: go_string

record host =
  ho_ReadDir :: "go_string \<Rightarrow> listing"
  ho_Stat :: "go_string \<Rightarrow> bool option"
  ho_ReadFile :: "go_string \<Rightarrow> go_string option"
  ho_Cwd :: "go_string option"
  ho_ParseObject :: "go_string \<Rightarrow> json option"
  ho_DecodeConfig :: "go_string + go_string \<Rightarrow> create_config \<Rightarrow> go_string + create_config"
  ho_Order :: "go_string list \<Rightarrow> go_string list"
  ho_Civil :: civil
  ho_Random :: "8 word list option"
  ho_Now :: int
  ho_Mkdir :: "go_string \<Rightarrow> go_string option"
  ho_WriteFile :: "go_string \<Rightarrow> go_string option"
  ho_PersistAdd :: persist_env
  ho_PersistUpdate :: persist_env

datatype message =
    Msg go_string
  | PartTooLarge go_string int
  | MissingInput go_string go_string
  | CSVRefused csv_problem
  | StoreFailed store_error
  | NoRandom

datatype payload =
    Empty
  | Null
  | Bytes go_string
  | ErrorBody message
  | HealthBody go_string nat nat int
  | WorkflowBody workflow
  | ReceiptsBody "receipt list"
  | RunBody run
  | RunsBody "run list"
  | LogBody "line list" int state go_string
  | ResultsBody go_string state "summary option" "json list" "artifact list"
  | ArtifactsBody "artifact list"
  | FileBody go_string go_string

record response =
  rs_Status :: int
  rs_Header :: "(go_string, go_string) gomap"
  rs_Body :: payload

datatype fs_action = MadeDir go_string | WroteFile go_string go_string | RemovedAll go_string

datatype log_entry = LogHTTP go_string go_string int | LogPanic go_string
  | LogRejectedPath go_string go_string path_error

record reply =
  rp_Queue :: queue
  rp_Actions :: "fs_action list"
  rp_Log :: "log_entry list"
  rp_Response :: "response option"

definition answer :: "queue \<Rightarrow> fs_action list \<Rightarrow> response \<Rightarrow> reply" where
  "answer q acts r = \<lparr>rp_Queue = q, rp_Actions = acts, rp_Log = [], rp_Response = Some r\<rparr>"

section \<open>Helpers\<close>

definition json_type :: go_string where
  "json_type = ''application/json; charset=utf-8''"

definition writeJSON :: "int \<Rightarrow> payload \<Rightarrow> response" where
  "writeJSON st v = \<lparr>rs_Status = st, rs_Header = [(''Content-Type'', json_type)], rs_Body = v\<rparr>"

definition writeError :: "int \<Rightarrow> message \<Rightarrow> response" where
  "writeError st msg = writeJSON st (ErrorBody msg)"

definition set_header :: "go_string \<Rightarrow> go_string \<Rightarrow> response \<Rightarrow> response" where
  "set_header k v r = r\<lparr>rs_Header := AList.update k v (rs_Header r)\<rparr>"

definition queryInt :: "request \<Rightarrow> go_string \<Rightarrow> int \<Rightarrow> int" where
  "queryInt rq key def =
     (let raw = rq_Query rq key in
      if raw = [] then def else case parse_int64 raw of None \<Rightarrow> def | Some n \<Rightarrow> n)"

definition queryInt64 :: "request \<Rightarrow> go_string \<Rightarrow> int \<Rightarrow> int" where
  "queryInt64 rq key def =
     (let raw = rq_Query rq key in
      if raw = [] then def else case parse_int64 raw of None \<Rightarrow> def | Some n \<Rightarrow> n)"

definition layout_of :: "server \<Rightarrow> go_string \<Rightarrow> layout" where
  "layout_of srv i = run_layout (cfg_RunsDir (srv_cfg srv)) i"

section \<open>Health, catalog, receipts, reference\<close>

definition health :: "server \<Rightarrow> queue \<Rightarrow> reply" where
  "health srv q =
     (case Counts (q_store q) of
        (running, queued) \<Rightarrow>
          answer q [] (writeJSON 200
            (HealthBody (srv_version srv) running queued (cfg_MaxConcurrent (srv_cfg srv)))))"

definition listWorkflows :: "server \<Rightarrow> queue \<Rightarrow> reply" where
  "listWorkflows srv q =
     answer q [] \<lparr>rs_Status = 200, rs_Header = [(''Content-Type'', json_type)],
       rs_Body = Bytes (Raw (srv_catalog srv))\<rparr>"

definition getWorkflow :: "server \<Rightarrow> go_string \<Rightarrow> queue \<Rightarrow> reply" where
  "getWorkflow srv i q =
     (case Workflow (srv_catalog srv) i of
        None \<Rightarrow> answer q [] (writeError 404 (Msg ''no such workflow''))
      | Some w \<Rightarrow> answer q [] (writeJSON 200 (WorkflowBody w)))"

definition listReceipts :: "server \<Rightarrow> host \<Rightarrow> request \<Rightarrow> queue \<Rightarrow> reply" where
  "listReceipts srv ho rq q =
     (case receipts_List (ho_ReadDir ho (srv_receipts srv)) of
        Inl e \<Rightarrow> answer q [] (writeError 500 (Msg e))
      | Inr rs \<Rightarrow>
          let etag = ETag rs in
          if rq_Header rq ''If-None-Match'' = etag
          then answer q [] \<lparr>rs_Status = 304, rs_Header = [], rs_Body = Empty\<rparr>
          else answer q [] (set_header ''ETag'' etag (writeJSON 200 (ReceiptsBody rs))))"

definition getReference :: "server \<Rightarrow> host \<Rightarrow> queue \<Rightarrow> reply" where
  "getReference srv ho q =
     (let p = Join [cfg_AutomationDir (srv_cfg srv), ''data'', ''shared'', ''reference'', ''ps-reference.json''] in
      case ho_ReadFile ho p of
        None \<Rightarrow> answer q [] (writeError 404 (Msg ''reference data not captured yet''))
      | Some data \<Rightarrow>
          answer q [] \<lparr>rs_Status = 200, rs_Header = [(''Content-Type'', json_type)], rs_Body = Bytes data\<rparr>)"

section \<open>Reading runs\<close>

definition listRuns :: "request \<Rightarrow> queue \<Rightarrow> reply" where
  "listRuns rq q =
     answer q [] (writeJSON 200 (RunsBody
       (List (rq_Query rq ''state'') (rq_Query rq ''workflow'') (queryInt rq ''limit'' 50) (q_store q))))"

definition no_such_run :: "queue \<Rightarrow> reply" where
  "no_such_run q = answer q [] (writeError 404 (Msg ''no such run''))"

definition getRun :: "go_string \<Rightarrow> queue \<Rightarrow> reply" where
  "getRun i q =
     (case Get (q_store q) i of
        None \<Rightarrow> no_such_run q
      | Some r \<Rightarrow>
          answer q [] (writeJSON 200 (RunBody
            (if r_State r = StateQueued then r\<lparr>r_QueuePosition := QueuePosition (r_ID r) q\<rparr> else r))))"

fun tail_loop :: "int \<Rightarrow> int \<Rightarrow> int \<Rightarrow> go_string list \<Rightarrow> line list \<Rightarrow> line list" where
  "tail_loop i from limit [] out = out"
| "tail_loop i from limit (t # ts) out =
     (if i < from then tail_loop (i + 1) from limit ts out
      else
        let out' = out @ [\<lparr>line_Seq = i, line_Text = t\<rparr>] in
        if limit > 0 \<and> int (length out') \<ge> limit then out' else tail_loop (i + 1) from limit ts out')"

definition tailFile :: "(go_string \<Rightarrow> go_string option) \<Rightarrow> go_string \<Rightarrow> int \<Rightarrow> int \<Rightarrow> line list \<times> int" where
  "tailFile readFile p from limit =
     (case readFile p of
        None \<Rightarrow> ([], from)
      | Some data \<Rightarrow>
          let all = split_on LF (trim_right_char LF data);
              out = tail_loop 0 from limit all []
          in (out, if out = [] then int (length all) else line_Seq (last out) + 1))"

definition getLog :: "server \<Rightarrow> host \<Rightarrow> request \<Rightarrow> go_string \<Rightarrow> queue \<Rightarrow> reply" where
  "getLog srv ho rq i q =
     (case Get (q_store q) i of
        None \<Rightarrow> no_such_run q
      | Some r \<Rightarrow>
          let from = queryInt64 rq ''from'' 0; limit = queryInt rq ''limit'' 2000 in
          (case Buffer q i of
             None \<Rightarrow>
               (case tailFile (ho_ReadFile ho) (LogFile (layout_of srv i)) from limit of
                  (ls, nxt) \<Rightarrow> answer q [] (writeJSON 200 (LogBody ls nxt (r_State r) ''file'')))
           | Some buf \<Rightarrow>
               (case Since from limit buf of
                  (ls, nxt) \<Rightarrow> answer q [] (writeJSON 200 (LogBody ls nxt (r_State r) ''memory'')))))"

definition cancelRun :: "host \<Rightarrow> go_string \<Rightarrow> queue \<Rightarrow> reply" where
  "cancelRun ho i q =
     (case Cancel (ho_PersistUpdate ho) (ho_Now ho) i q of
        (q', None) \<Rightarrow>
          answer q' [] (writeJSON 202 (case Get (q_store q') i of None \<Rightarrow> Null | Some r \<Rightarrow> RunBody r))
      | (q', Some ErrAlreadyFinished) \<Rightarrow> answer q' [] (writeError 409 (Msg ''run has already finished''))
      | (q', Some ErrNotFound) \<Rightarrow> answer q' [] (writeError 404 (Msg ''no such run''))
      | (q', Some (CancelStoreError e)) \<Rightarrow> answer q' [] (writeError 500 (StoreFailed e)))"

section \<open>Results and artifacts\<close>

definition output_of :: "host \<Rightarrow> layout \<Rightarrow> artifact \<Rightarrow> json list" where
  "output_of ho lay a =
     (if art_Kind a \<noteq> ArtifactOutputJSON then []
      else
        case Resolve (ho_Cwd ho) lay (art_Rel a) of
          Inl e \<Rightarrow> []
        | Inr full \<Rightarrow>
            (case ho_ReadFile ho full of
               None \<Rightarrow> []
             | Some data \<Rightarrow> (case ho_ParseObject ho data of None \<Rightarrow> [] | Some j \<Rightarrow> [j])))"

definition getResults :: "server \<Rightarrow> host \<Rightarrow> go_string \<Rightarrow> queue \<Rightarrow> reply" where
  "getResults srv ho i q =
     (case Get (q_store q) i of
        None \<Rightarrow> no_such_run q
      | Some r \<Rightarrow>
          answer q [] (writeJSON 200 (ResultsBody (r_ID r) (r_State r) (r_Summary r)
            (concat (map (output_of ho (layout_of srv i)) (r_Artifacts r))) (r_Artifacts r))))"

definition listArtifacts :: "go_string \<Rightarrow> queue \<Rightarrow> reply" where
  "listArtifacts i q =
     (case Get (q_store q) i of
        None \<Rightarrow> no_such_run q
      | Some r \<Rightarrow> answer q [] (writeJSON 200 (ArtifactsBody (r_Artifacts r))))"

text \<open>\<open>http.ServeContent\<close> for a request without range or condition: the whole file.\<close>

definition artifact_response :: "artifact \<Rightarrow> go_string \<Rightarrow> response" where
  "artifact_response a data =
     (let r = \<lparr>rs_Status = 200,
               rs_Header = [(''Content-Disposition'', ''attachment; filename='' @ [quote] @ art_Name a @ [quote]),
                            (''Content-Type'', ''application/octet-stream'')],
               rs_Body = FileBody (art_Name a) data\<rparr>
      in if art_Sensitive a then set_header ''Cache-Control'' ''no-store, private'' r else r)"

definition getArtifact :: "server \<Rightarrow> host \<Rightarrow> go_string \<Rightarrow> go_string \<Rightarrow> queue \<Rightarrow> reply" where
  "getArtifact srv ho i want q =
     (case Get (q_store q) i of
        None \<Rightarrow> no_such_run q
      | Some r \<Rightarrow>
          (case List.find (\<lambda>a. art_ID a = want) (r_Artifacts r) of
             None \<Rightarrow> answer q [] (writeError 404 (Msg ''no such artifact''))
           | Some a \<Rightarrow>
               (case Resolve (ho_Cwd ho) (layout_of srv i) (art_Rel a) of
                  Inl e \<Rightarrow>
                    (answer q [] (writeError 400 (Msg ''invalid artifact path'')))
                      \<lparr>rp_Log := [LogRejectedPath i (art_Rel a) e]\<rparr>
                | Inr full \<Rightarrow>
                    (case ho_ReadFile ho full of
                       None \<Rightarrow> answer q [] (writeError 404 (Msg ''artifact file is gone''))
                     | Some data \<Rightarrow> answer q [] (artifact_response a data)))))"

section \<open>createRun\<close>

text \<open>
  \<open>strings.ToUpper\<close> on the characters that can become an ASCII letter: the ASCII letters, the long s (bytes C5
  BF) and the dotless i (bytes C4 B1). Every other character keeps a byte beyond ASCII.
\<close>

definition upper :: "char \<Rightarrow> char" where
  "upper c = (let n = of_char c :: nat in if 97 \<le> n \<and> n \<le> 122 then char_of (n - 32) else c)"

fun ToUpper :: "go_string \<Rightarrow> go_string" where
  "ToUpper [] = []"
| "ToUpper (c # cs) =
     (if c = CHR 0xC5 \<and> take 1 cs = [CHR 0xBF] then CHR ''S'' # ToUpper (drop 1 cs)
      else if c = CHR 0xC4 \<and> take 1 cs = [CHR 0xB1] then CHR ''I'' # ToUpper (drop 1 cs)
      else upper c # ToUpper cs)"

definition validEnvs :: "go_string list" where
  "validEnvs = [''DEV'', ''TST'', ''STG'']"

definition run_env :: "create_config \<Rightarrow> go_string" where
  "run_env cc = (let e = ToUpper (cc_Env cc) in if e = [] then ''TST'' else e)"

definition run_timeout :: "create_config \<Rightarrow> workflow \<Rightarrow> int" where
  "run_timeout cc w =
     (let t = cc_TimeoutSeconds cc;
          t = (if t \<le> 0 then w_DefaultTimeoutSeconds w else t)
      in if w_MaxTimeoutSeconds w > 0 \<and> t > w_MaxTimeoutSeconds w then w_MaxTimeoutSeconds w else t)"

definition zero_create_config :: create_config where
  "zero_create_config =
     \<lparr>cc_WorkflowID = [], cc_Env = [], cc_TimeoutSeconds = 0, cc_Trace = False, cc_SubmittedBy = [],
      cc_Params = []\<rparr>"

text \<open>The loop over the parts; the state is the configuration, the uploads and \<open>gotConfig\<close>.\<close>

type_synonym part_state = "create_config \<times> (go_string, go_string) gomap \<times> bool"

fun read_parts ::
  "host \<Rightarrow> int \<Rightarrow> part list \<Rightarrow> go_string option \<Rightarrow> part_state \<Rightarrow> (int \<times> message) + part_state" where
  "read_parts ho maxBytes [] None st = Inr st"
| "read_parts ho maxBytes [] (Some e) st = Inl (400, Msg (''reading upload: '' @ e))"
| "read_parts ho maxBytes (p # ps) fin (cc, uploads, got) =
     (if part_Name p = ''config'' then
        (case ho_DecodeConfig ho (part_Read p (2 ^ 20)) cc of
           Inl e \<Rightarrow> Inl (400, Msg (''config is not valid JSON: '' @ e))
         | Inr cc' \<Rightarrow> read_parts ho maxBytes ps fin (cc', uploads, True))
      else
        (case part_Read p (wrap64 (maxBytes + 1)) of
           Inl e \<Rightarrow> Inl (400, Msg (''reading part '' @ part_Name p @ '': '' @ e))
         | Inr data \<Rightarrow>
             if int (length data) > maxBytes then Inl (413, PartTooLarge (part_Name p) maxBytes)
             else read_parts ho maxBytes ps fin (cc, AList.update (part_Name p) data uploads, got)))"

text \<open>
  The loop over the declared inputs, which fills the child's environment and the parameters and writes the
  files; every refusal removes the run directory.
\<close>

type_synonym input_state =
  "(go_string, go_string) gomap \<times> (go_string, go_string) gomap \<times> fs_action list"

fun take_inputs ::
  "server \<Rightarrow> host \<Rightarrow> layout \<Rightarrow> (go_string, go_string) gomap \<Rightarrow> (go_string, go_string) gomap \<Rightarrow>
   input list \<Rightarrow> input_state \<Rightarrow> (fs_action list \<times> int \<times> message) + input_state" where
  "take_inputs srv ho lay uploads given [] st = Inr st"
| "take_inputs srv ho lay uploads given (i # is) (env, params, acts) =
     (if in_Kind i = ''csv'' then
        (case map_of uploads (in_Name i) of
           None \<Rightarrow>
             if in_Required i
             then Inl (acts @ [RemovedAll (Root lay)], 400, MissingInput (in_Name i) (in_Label i))
             else take_inputs srv ho lay uploads given is (env, params, acts)
         | Some data \<Rightarrow>
             (case validateCSV (srv_catalog srv) (Has (ho_Stat ho) (srv_receipts srv)) i data of
                Some e \<Rightarrow> Inl (acts @ [RemovedAll (Root lay)], 400, CSVRefused e)
              | None \<Rightarrow>
                  let dest = Join [Layout.Input lay, in_Filename i] in
                  (case ho_WriteFile ho dest of
                     Some e \<Rightarrow> Inl (acts @ [RemovedAll (Root lay)], 500, Msg e)
                   | None \<Rightarrow>
                       take_inputs srv ho lay uploads given is
                         (AList.update (in_Env i) dest env, params, acts @ [WroteFile dest data]))))
      else if in_Kind i = ''int'' then
        (case (case map_of given (in_Name i) of
                 Some raw \<Rightarrow> Inr (Some raw)
               | None \<Rightarrow>
                   (case in_Default i of
                      Some d \<Rightarrow> Inr (Some (itoa d))
                    | None \<Rightarrow>
                        if in_Required i then Inl (Msg (''missing required param '' @ in_Name i)) else Inr None)) of
           Inl m \<Rightarrow> Inl (acts @ [RemovedAll (Root lay)], 400, m)
         | Inr None \<Rightarrow> take_inputs srv ho lay uploads given is (env, params, acts)
         | Inr (Some raw) \<Rightarrow>
             take_inputs srv ho lay uploads given is
               (AList.update (in_Env i) raw env, AList.update (in_Name i) raw params, acts))
      else take_inputs srv ho lay uploads given is (env, params, acts))"

definition new_run ::
  "go_string \<Rightarrow> workflow \<Rightarrow> create_config \<Rightarrow> int \<Rightarrow> (go_string, go_string) gomap \<Rightarrow> run" where
  "new_run i w cc now params =
     zero_run\<lparr>r_ID := i, r_WorkflowID := w_ID w, r_Env := run_env cc, r_SubmittedBy := cc_SubmittedBy cc,
       r_State := StateQueued, r_QueuedAt := now, r_TimeoutSeconds := run_timeout cc w, r_Params := params\<rparr>"

definition mark_queue_full :: "run \<Rightarrow> run" where
  "mark_queue_full r = r\<lparr>r_State := StateErrored, r_Error := ''queue full''\<rparr>"

text \<open>Registering and submitting; after a panic of \<open>Submit\<close> the store and the maps keep the run.\<close>

definition submit_run ::
  "host \<Rightarrow> workflow \<Rightarrow> run \<Rightarrow> (go_string, go_string) gomap \<Rightarrow> fs_action list \<Rightarrow> queue \<Rightarrow> reply" where
  "submit_run ho w r0 env acts q =
     (case Add (ho_PersistAdd ho) r0 (q_store q) of
        (s1, Some e) \<Rightarrow> answer (q\<lparr>q_store := s1\<rparr>) acts (writeError 500 (StoreFailed e))
      | (s1, None) \<Rightarrow>
          let q1 = q\<lparr>q_store := s1\<rparr> in
          (case Submit r0 w env q1 of
             None \<Rightarrow>
               \<lparr>rp_Queue = snd (submit_register r0 w env q1), rp_Actions = acts, rp_Log = [], rp_Response = None\<rparr>
           | Some (q2, Some ErrQueueFull) \<Rightarrow>
               (case Update (ho_PersistUpdate ho) (r_ID r0) mark_queue_full (q_store q2) of
                  (s3, _, _) \<Rightarrow>
                    answer (q2\<lparr>q_store := s3\<rparr>) acts
                      (set_header ''Retry-After'' ''60''
                        (writeError 429 (Msg ''run queue is full; retry shortly''))))
           | Some (q2, None) \<Rightarrow>
               answer q2 acts (set_header ''Location'' (''/v1/runs/'' @ r_ID r0) (writeJSON 202 (RunBody r0)))))"

definition start_run ::
  "server \<Rightarrow> host \<Rightarrow> create_config \<Rightarrow> workflow \<Rightarrow> (go_string, go_string) gomap \<Rightarrow> queue \<Rightarrow> reply" where
  "start_run srv ho cc w uploads q =
     (case NewID (ho_Civil ho) (ho_Random ho) of
        None \<Rightarrow> answer q [] (writeError 500 NoRandom)
      | Some i \<Rightarrow>
          let lay = layout_of srv i in
          (case Create (ho_Mkdir ho) lay of
             (made, Some e) \<Rightarrow> answer q (map MadeDir made) (writeError 500 (Msg e))
           | (made, None) \<Rightarrow>
               let env0 = (''ENV'', run_env cc) # (if cc_Trace cc then [(''PW_TRACE'', ''on'')] else []) in
               (case take_inputs srv ho lay uploads (cc_Params cc) (w_Inputs w) (env0, [], map MadeDir made) of
                  Inl (acts, st, m) \<Rightarrow> answer q acts (writeError st m)
                | Inr (env, params, acts) \<Rightarrow>
                    submit_run ho w (new_run i w cc (ho_Now ho) params) env acts q)))"

definition createRun :: "server \<Rightarrow> host \<Rightarrow> request \<Rightarrow> queue \<Rightarrow> reply" where
  "createRun srv ho rq q =
     (case rq_Multipart rq (wrap64 (cfg_MaxUploadBytes (srv_cfg srv) * 8)) of
        Inl e \<Rightarrow>
          answer q [] (writeError 400 (Msg (''expected multipart/form-data with a 'config' part: '' @ e)))
      | Inr mp \<Rightarrow>
          (case read_parts ho (cfg_MaxUploadBytes (srv_cfg srv)) (mp_Parts mp) (mp_End mp)
                  (zero_create_config, [], False) of
             Inl (st, m) \<Rightarrow> answer q [] (writeError st m)
           | Inr (cc, uploads, got) \<Rightarrow>
               if \<not> got then answer q [] (writeError 400 (Msg ''missing 'config' part''))
               else
                 (case Workflow (srv_catalog srv) (cc_WorkflowID cc) of
                    None \<Rightarrow> answer q [] (writeError 400 (Msg (''no such workflow: '' @ cc_WorkflowID cc)))
                  | Some w \<Rightarrow>
                      if run_env cc \<notin> set validEnvs
                      then answer q [] (writeError 400 (Msg ''env must be one of DEV, TST, STG''))
                      else
                        (case List.find (\<lambda>n. Input_named w n = None) (ho_Order ho (map fst uploads)) of
                           Some n \<Rightarrow> answer q [] (writeError 400 (Msg (''unknown input: '' @ n)))
                         | None \<Rightarrow> start_run srv ho cc w uploads q))))"

end
