(* ===== verification/Creation.thy ===== *)
theory Creation
  imports Handlers
begin

text \<open>
  What \<open>createRun\<close> guarantees: how the parts of an upload are read and limited, what an accepted
  run is, and what a refused request leaves behind.
\<close>

lemmas reply_simps [simp] = answer_def writeError_def writeJSON_def set_header_def

section \<open>The inputs of a run\<close>

text \<open>The value that a declared input gives to the child, if any.\<close>

definition input_value ::
  "layout \<Rightarrow> (go_string, go_string) gomap \<Rightarrow> (go_string, go_string) gomap \<Rightarrow> input \<Rightarrow> go_string option" where
  "input_value lay uploads given i =
     (if in_Kind i = ''csv''
      then map_option (\<lambda>_. Join [Layout.Input lay, in_Filename i]) (map_of uploads (in_Name i))
      else if in_Kind i = ''int''
      then (case map_of given (in_Name i) of Some raw \<Rightarrow> Some raw | None \<Rightarrow> map_option itoa (in_Default i))
      else None)"

text \<open>An input that does not stop the run.\<close>

definition input_fine ::
  "server \<Rightarrow> host \<Rightarrow> layout \<Rightarrow> (go_string, go_string) gomap \<Rightarrow> (go_string, go_string) gomap \<Rightarrow> input \<Rightarrow> bool" where
  "input_fine srv ho lay uploads given i \<longleftrightarrow>
     (in_Required i \<and> (in_Kind i = ''csv'' \<or> in_Kind i = ''int'') \<longrightarrow> input_value lay uploads given i \<noteq> None) \<and>
     (in_Kind i = ''csv'' \<longrightarrow>
       (\<forall>data. map_of uploads (in_Name i) = Some data \<longrightarrow>
         validateCSV (srv_catalog srv) (Has (ho_Stat ho) (srv_receipts srv)) i data = None \<and>
         ho_WriteFile ho (Join [Layout.Input lay, in_Filename i]) = None))"

definition bind_input :: "(input \<Rightarrow> go_string option) \<Rightarrow> (input \<Rightarrow> go_string) \<Rightarrow> input \<Rightarrow>
    (go_string, go_string) gomap \<Rightarrow> (go_string, go_string) gomap" where
  "bind_input val key i m = (case val i of None \<Rightarrow> m | Some v \<Rightarrow> AList.update (key i) v m)"

definition written :: "layout \<Rightarrow> (go_string, go_string) gomap \<Rightarrow> input \<Rightarrow> fs_action list" where
  "written lay uploads i =
     (if in_Kind i = ''csv''
      then (case map_of uploads (in_Name i) of
              None \<Rightarrow> [] | Some data \<Rightarrow> [WroteFile (Join [Layout.Input lay, in_Filename i]) data])
      else [])"

definition int_value :: "(go_string, go_string) gomap \<Rightarrow> input \<Rightarrow> go_string option" where
  "int_value given i = (if in_Kind i = ''int'' then input_value \<lparr>Root = []\<rparr> [] given i else None)"

lemma take_inputs_Inr:
  "take_inputs srv ho lay uploads given is (env, params, acts) = Inr st \<longleftrightarrow>
     (\<forall>i \<in> set is. input_fine srv ho lay uploads given i) \<and>
     st = (fold (bind_input (input_value lay uploads given) in_Env) is env,
           fold (bind_input (int_value given) in_Name) is params,
           acts @ concat (map (written lay uploads) is))"
proof (induction "is" arbitrary: env params acts)
  case (Cons i "is")
  show ?case
  proof (cases "in_Kind i = ''csv''")
    case True
    then show ?thesis
      by (cases "map_of uploads (in_Name i)")
        (auto simp: Cons.IH input_fine_def input_value_def int_value_def bind_input_def written_def Let_def
          split: option.splits)
  next
    case False
    then show ?thesis
      by (cases "in_Kind i = ''int''"; cases "map_of given (in_Name i)"; cases "in_Default i")
        (auto simp: Cons.IH input_fine_def input_value_def int_value_def bind_input_def written_def)
  qed
qed auto

lemma take_inputs_Inl:
  "take_inputs srv ho lay uploads given is (env, params, acts) = Inl (acts', st, m) \<Longrightarrow>
     (\<exists>ws. acts' = acts @ ws @ [RemovedAll (Root lay)]) \<and> (st = 400 \<or> st = 500)"
proof (induction "is" arbitrary: env params acts)
  case (Cons i "is")
  show ?case
  proof (cases "in_Kind i = ''csv''")
    case True
    with Cons.prems show ?thesis
      by (auto simp: Let_def split: option.splits if_splits dest!: Cons.IH)
  next
    case False
    with Cons.prems show ?thesis
      by (cases "in_Kind i = ''int''"; cases "map_of given (in_Name i)"; cases "in_Default i")
        (auto split: if_splits dest!: Cons.IH)
  qed
qed simp

section \<open>Bounds\<close>

lemma run_timeout_bounds:
  assumes "workflow_ok stat dir c w"
  shows "1 \<le> run_timeout cc w" "run_timeout cc w \<le> w_MaxTimeoutSeconds w"
    "1 \<le> cc_TimeoutSeconds cc \<Longrightarrow> cc_TimeoutSeconds cc \<le> w_MaxTimeoutSeconds w \<Longrightarrow>
       run_timeout cc w = cc_TimeoutSeconds cc"
  using assms by (auto simp: run_timeout_def workflow_ok_def Let_def)

section \<open>Submission\<close>

lemma Add_ok:
  "Add e r s = (s1, None) \<Longrightarrow> Get s1 (r_ID r) = Some r \<and> (\<forall>j. j \<noteq> r_ID r \<longrightarrow> Get s1 j = Get s j)"
  by (auto simp: Add_def persist_def Get_def with_meta_def Let_def go_maps split: if_splits option.splits)

lemma Add_mem: "runs (fst (Add e r s)) = AList.update (r_ID r) r (runs s)"
  by (simp add: Add_def persist_def with_meta_def Let_def split: option.splits)

lemma Submit_None: "Submit r w env q = None \<longleftrightarrow> q_closed q"
proof -
  obtain b where "Close (logbuf_New 5000) = Some b" using Close_New by blast
  then show ?thesis
    by (auto simp: Submit_def submit_register_def submit_send_def submit_rollback_def Let_def job_of_def new_job_def)
qed

lemma Submit_Sent:
  assumes "Submit r w env q = Some (q', None)"
  shows "length (q_jobs q) < q_depth q \<and> q_store q' = q_store q \<and>
    q_jobs q' = q_jobs q @ [length (q_heap q)] \<and> q_heap q' = q_heap q @ [new_job q r w env] \<and>
    Buffer q' (r_ID r) = Some (logbuf_New 5000)"
  using assms
  by (auto simp: Submit_def submit_register_def submit_send_def submit_rollback_def Let_def Buffer_def job_of_def
      new_job_def go_maps split: if_splits)

lemma Submit_Full:
  assumes "Submit r w env q = Some (q', Some e)"
  shows "\<not> q_closed q \<and> length (q_jobs q) \<ge> q_depth q \<and> q_store q' = q_store q \<and> q_jobs q' = q_jobs q"
  using assms
  by (auto simp: Submit_def submit_register_def submit_send_def submit_rollback_def Let_def split: if_splits)

lemma Submit_error: "Submit r w env q = Some (q', Some e) \<Longrightarrow> e = ErrQueueFull"
  by (cases e) simp

section \<open>The course of a request\<close>

text \<open>The request names a workflow and an environment and uploads declared inputs only.\<close>

definition request_ok ::
  "server \<Rightarrow> host \<Rightarrow> request \<Rightarrow> create_config \<Rightarrow> (go_string, go_string) gomap \<Rightarrow> workflow \<Rightarrow> bool" where
  "request_ok srv ho rq cc uploads w \<longleftrightarrow>
     (\<exists>mp. rq_Multipart rq (wrap64 (cfg_MaxUploadBytes (srv_cfg srv) * 8)) = Inr mp \<and>
        read_parts ho (cfg_MaxUploadBytes (srv_cfg srv)) (mp_Parts mp) (mp_End mp)
          (zero_create_config, [], False) = Inr (cc, uploads, True)) \<and>
     Workflow (srv_catalog srv) (cc_WorkflowID cc) = Some w \<and> run_env cc \<in> set validEnvs \<and>
     List.find (\<lambda>n. Input_named w n = None) (ho_Order ho (map fst uploads)) = None"

lemma read_parts_Inl: "read_parts ho mx ps fin st = Inl (c, m) \<Longrightarrow> c = 400 \<or> c = 413"
  by (induction ho mx ps fin st rule: read_parts.induct) (auto split: if_splits sum.splits)

lemma createRun_cases:
  obtains (refused) st m where "createRun srv ho rq q = answer q [] (writeError st m)" "st = 400 \<or> st = 413"
  | (started) cc uploads w where "request_ok srv ho rq cc uploads w"
      "createRun srv ho rq q = start_run srv ho cc w uploads q"
proof (cases "rq_Multipart rq (wrap64 (cfg_MaxUploadBytes (srv_cfg srv) * 8))")
  case (Inl e)
  then show thesis by (intro refused) (auto simp: createRun_def)
next
  case (Inr mp)
  let ?rp = "read_parts ho (cfg_MaxUploadBytes (srv_cfg srv)) (mp_Parts mp) (mp_End mp) (zero_create_config, [], False)"
  show thesis
  proof (cases ?rp)
    case (Inl e)
    then obtain c m where x: "?rp = Inl (c, m)" by (cases e) auto
    with Inr have "createRun srv ho rq q = answer q [] (writeError c m)" by (simp add: createRun_def)
    then show thesis using refused read_parts_Inl [OF x] by blast
  next
    case parts: (Inr st)
    obtain cc uploads got where st: "st = (cc, uploads, got)" by (cases st) auto
    let ?w = "Workflow (srv_catalog srv) (cc_WorkflowID cc)"
    show thesis
    proof (cases "got \<and> (\<exists>w. ?w = Some w \<and> run_env cc \<in> set validEnvs \<and>
          List.find (\<lambda>n. Input_named w n = None) (ho_Order ho (map fst uploads)) = None)")
      case True
      then obtain w where "?w = Some w" "run_env cc \<in> set validEnvs"
        "List.find (\<lambda>n. Input_named w n = None) (ho_Order ho (map fst uploads)) = None" "got" by auto
      with Inr parts st show thesis
        by (intro started [of cc uploads w]) (simp_all add: createRun_def request_ok_def)
    next
      case False
      with Inr parts st have "\<exists>m. createRun srv ho rq q = answer q [] (writeError 400 m)"
        by (auto simp: createRun_def split: option.splits)
      then show thesis using refused by blast
    qed
  qed
qed

text \<open>The state that the loop over the inputs ends in, when no input stops it.\<close>

definition run_dirs :: "layout \<Rightarrow> fs_action list" where
  "run_dirs lay = map MadeDir [Root lay, Layout.Input lay, Output lay, Report lay, Tmp lay]"

definition child_env :: "layout \<Rightarrow> create_config \<Rightarrow> (go_string, go_string) gomap \<Rightarrow> workflow \<Rightarrow>
    (go_string, go_string) gomap" where
  "child_env lay cc uploads w =
     fold (bind_input (input_value lay uploads (cc_Params cc)) in_Env) (w_Inputs w)
       ((''ENV'', run_env cc) # (if cc_Trace cc then [(''PW_TRACE'', ''on'')] else []))"

definition run_params :: "create_config \<Rightarrow> workflow \<Rightarrow> (go_string, go_string) gomap" where
  "run_params cc w = fold (bind_input (int_value (cc_Params cc)) in_Name) (w_Inputs w) []"

lemma mkdir_all_None: "mkdir_all mk ds = (made, None) \<Longrightarrow> made = ds"
  by (induction mk ds arbitrary: made rule: mkdir_all.induct) (auto split: option.splits prod.splits)

lemma Create_None: "Create mk lay = (made, None) \<Longrightarrow> map MadeDir made = run_dirs lay"
  using mkdir_all_None [of mk "[Root lay, Layout.Input lay, Output lay, Report lay, Tmp lay]" made]
  by (simp only: Create_def run_dirs_def)

lemma start_run_cases:
  obtains (early) acts m where "start_run srv ho cc w uploads q = answer q acts (writeError 500 m)"
  | (stopped) i ws st m where "NewID (ho_Civil ho) (ho_Random ho) = Some i"
      "start_run srv ho cc w uploads q =
        answer q (run_dirs (layout_of srv i) @ ws @ [RemovedAll (Root (layout_of srv i))]) (writeError st m)"
      "st = 400 \<or> st = 500"
  | (ready) i where "NewID (ho_Civil ho) (ho_Random ho) = Some i"
      "\<forall>x \<in> set (w_Inputs w). input_fine srv ho (layout_of srv i) uploads (cc_Params cc) x"
      "start_run srv ho cc w uploads q =
        submit_run ho w (new_run i w cc (ho_Now ho) (run_params cc w))
          (child_env (layout_of srv i) cc uploads w)
          (run_dirs (layout_of srv i) @ concat (map (written (layout_of srv i) uploads) (w_Inputs w))) q"
proof (cases "NewID (ho_Civil ho) (ho_Random ho)")
  case None
  then show thesis by (intro early) (simp add: start_run_def)
next
  case (Some i)
  let ?lay = "layout_of srv i"
  obtain made err where c: "Create (ho_Mkdir ho) ?lay = (made, err)" by (cases "Create (ho_Mkdir ho) ?lay")
  show thesis
  proof (cases err)
    case (Some e)
    with c \<open>NewID _ _ = Some i\<close> show thesis by (intro early) (simp add: start_run_def)
  next
    case None
    note made = Create_None [OF c [unfolded None]]
    let ?env0 = "(''ENV'', run_env cc) # (if cc_Trace cc then [(''PW_TRACE'', ''on'')] else [])"
    let ?t = "take_inputs srv ho ?lay uploads (cc_Params cc) (w_Inputs w) (?env0, [], run_dirs ?lay)"
    show thesis
    proof (cases ?t)
      case (Inl x)
      then obtain acts st m where x: "?t = Inl (acts, st, m)" by (cases x) auto
      from take_inputs_Inl [OF x] obtain ws where
        "acts = run_dirs ?lay @ ws @ [RemovedAll (Root ?lay)]" "st = 400 \<or> st = 500" by blast
      with x \<open>NewID _ _ = Some i\<close> c None made show thesis by (intro stopped [of i ws st m]) (simp_all add: start_run_def Let_def)
    next
      case (Inr st)
      from iffD1 [OF take_inputs_Inr this] Inr \<open>NewID _ _ = Some i\<close> c None made show thesis
        by (intro ready [of i]) (simp_all add: start_run_def child_env_def run_params_def Let_def)
    qed
  qed
qed

lemma submit_run_cases:
  obtains (unsaved) s1 e where "Add (ho_PersistAdd ho) r (q_store q) = (s1, Some e)"
      "submit_run ho w r env acts q = answer (q\<lparr>q_store := s1\<rparr>) acts (writeError 500 (StoreFailed e))"
  | (panicked) s1 where "Add (ho_PersistAdd ho) r (q_store q) = (s1, None)" "q_closed q"
      "rp_Response (submit_run ho w r env acts q) = None"
  | (full) s1 q2 where "Add (ho_PersistAdd ho) r (q_store q) = (s1, None)"
      "Submit r w env (q\<lparr>q_store := s1\<rparr>) = Some (q2, Some ErrQueueFull)"
      "submit_run ho w r env acts q =
        answer (q2\<lparr>q_store := fst (Update (ho_PersistUpdate ho) (r_ID r) mark_queue_full (q_store q2))\<rparr>) acts
          (set_header ''Retry-After'' ''60'' (writeError 429 (Msg ''run queue is full; retry shortly'')))"
  | (sent) s1 q2 where "Add (ho_PersistAdd ho) r (q_store q) = (s1, None)"
      "Submit r w env (q\<lparr>q_store := s1\<rparr>) = Some (q2, None)"
      "submit_run ho w r env acts q =
        answer q2 acts (set_header ''Location'' (''/v1/runs/'' @ r_ID r) (writeJSON 202 (RunBody r)))"
proof (cases "Add (ho_PersistAdd ho) r (q_store q)")
  case (Pair s1 err)
  show thesis
  proof (cases err)
    case (Some e)
    with Pair show thesis by (intro unsaved) (simp_all add: submit_run_def)
  next
    case None
    note add = Pair [unfolded None]
    show thesis
    proof (cases "Submit r w env (q\<lparr>q_store := s1\<rparr>)")
      case None
      then have "q_closed q" by (simp add: Submit_None)
      with None add show thesis by (intro panicked) (simp_all add: submit_run_def)
    next
      case (Some x)
      obtain q2 e where x: "x = (q2, e)" by (cases x)
      show thesis
      proof (cases e)
        case None
        with Some x add show thesis by (intro sent) (simp_all add: submit_run_def)
      next
        case e: (Some e')
        then have "e' = ErrQueueFull" by (cases e') simp
        with Some x add e show thesis by (intro full) (simp_all add: submit_run_def split_beta)
      qed
    qed
  qed
qed

text \<open>How a request comes to be accepted.\<close>

lemma accepted_cases:
  assumes "rp_Response (createRun srv ho rq q) = Some resp" "rs_Status resp = 202"
  obtains cc uploads w i s1 q2 where "request_ok srv ho rq cc uploads w" "NewID (ho_Civil ho) (ho_Random ho) = Some i"
    "\<forall>x \<in> set (w_Inputs w). input_fine srv ho (layout_of srv i) uploads (cc_Params cc) x"
    "Add (ho_PersistAdd ho) (new_run i w cc (ho_Now ho) (run_params cc w)) (q_store q) = (s1, None)"
    "Submit (new_run i w cc (ho_Now ho) (run_params cc w)) w (child_env (layout_of srv i) cc uploads w)
       (q\<lparr>q_store := s1\<rparr>) = Some (q2, None)"
    "createRun srv ho rq q =
       answer q2 (run_dirs (layout_of srv i) @ concat (map (written (layout_of srv i) uploads) (w_Inputs w)))
         (set_header ''Location'' (''/v1/runs/'' @ i)
           (writeJSON 202 (RunBody (new_run i w cc (ho_Now ho) (run_params cc w)))))"
proof (cases srv ho rq q rule: createRun_cases)
  case (refused st m)
  with assms show thesis by auto
next
  case (started cc uploads w)
  show thesis
  proof (cases srv ho cc w uploads q rule: start_run_cases)
    case (early acts m)
    with started(2) assms show thesis by auto
  next
    case (stopped i ws st m)
    with started(2) assms show thesis by auto
  next
    case (ready i)
    let ?lay = "layout_of srv i" and ?r = "new_run i w cc (ho_Now ho) (run_params cc w)"
    have "r_ID ?r = i" by (simp add: new_run_def)
    then show thesis
      using started ready assms
      by (cases rule: submit_run_cases [where ho = ho and r = ?r and q = q and w = w
            and env = "child_env ?lay cc uploads w"
            and acts = "run_dirs ?lay @ concat (map (written ?lay uploads) (w_Inputs w))"])
        (auto intro: that)
  qed
qed

text \<open>Every workflow a client can name is consistent, which \<open>Load\<close> ensures.\<close>

definition workflows_ok :: "(go_string \<Rightarrow> bool) \<Rightarrow> go_string \<Rightarrow> catalog \<Rightarrow> bool" where
  "workflows_ok stat dir c \<longleftrightarrow> (\<forall>i w. Workflow c i = Some w \<longrightarrow> workflow_ok stat dir c w)"

lemma Update_full:
  assumes "Get s i = Some r"
  shows "Get (fst (Update e i mark_queue_full s)) i = Some (mark_queue_full r)"
  using assms
  by (simp add: Update_def Get_def update_mem_def persist_def with_meta_def split_beta Let_def go_maps
      split: option.splits)

section \<open>Properties\<close>

text \<open>
  C13. A run that is accepted is exactly what was asked for: its workflow is in the catalog, its
  environment one of the three, its timeout between one second and the workflow's maximum, every declared input it
  needs was given and every uploaded table passed validation and was written; the store has it as queued, its job is the last of the
  waiting ones, within the depth, with the child environment of its inputs and an empty log.
\<close>

theorem create_run_accepted:
  assumes "rp_Response (createRun srv ho rq q) = Some resp" "rs_Status resp = 202"
    and "workflows_ok stat dir (srv_catalog srv)"
  shows "\<exists>cc uploads w i r q'. request_ok srv ho rq cc uploads w \<and> NewID (ho_Civil ho) (ho_Random ho) = Some i \<and>
    r = new_run i w cc (ho_Now ho) (run_params cc w) \<and> rs_Body resp = RunBody r \<and>
    1 \<le> r_TimeoutSeconds r \<and> r_TimeoutSeconds r \<le> w_MaxTimeoutSeconds w \<and> r_Env r \<in> set validEnvs \<and>
    (\<forall>x \<in> set (w_Inputs w). input_fine srv ho (layout_of srv i) uploads (cc_Params cc) x) \<and>
    rp_Actions (createRun srv ho rq q) =
      run_dirs (layout_of srv i) @ concat (map (written (layout_of srv i) uploads) (w_Inputs w)) \<and>
    q' = rp_Queue (createRun srv ho rq q) \<and> Get (q_store q') i = Some r \<and>
    q_jobs q' = q_jobs q @ [length (q_heap q)] \<and> length (q_jobs q') \<le> q_depth q \<and>
    sp_Env (j_spec (job_of q' (length (q_heap q)))) = child_env (layout_of srv i) cc uploads w \<and>
    Buffer q' i = Some (logbuf_New 5000)"
proof (cases rule: accepted_cases [OF assms(1,2)])
  case (1 cc uploads w i s1 q2)
  let ?r = "new_run i w cc (ho_Now ho) (run_params cc w)"
  have w: "workflow_ok stat dir (srv_catalog srv) w" "run_env cc \<in> set validEnvs"
    using 1(1) assms(3) by (auto simp: request_ok_def workflows_ok_def)
  have resp: "rs_Body resp = RunBody ?r" and q2: "rp_Queue (createRun srv ho rq q) = q2"
    using 1(6) assms(1) by auto
  have "Get (q_store q2) i = Some ?r"
    using Add_ok [OF 1(4)] Submit_Sent [OF 1(5)] by (simp add: new_run_def)
  with Submit_Sent [OF 1(5)] run_timeout_bounds(1,2) [OF w(1), of cc] w(2) 1(1-3,6) resp q2
  show ?thesis
    by (intro exI [of _ cc] exI [of _ uploads] exI [of _ w] exI [of _ i] exI [of _ ?r] exI [of _ q2])
      (auto simp: new_run_def job_of_def new_job_def nth_append)
qed

text \<open>A request of the sample workflow with its table, to a server with an empty queue.\<close>

definition sample_server :: server where
  "sample_server =
     \<lparr>srv_cfg = sample_config\<lparr>cfg_RunsDir := ''/r'', cfg_MaxUploadBytes := 1000\<rparr>, srv_catalog = loaded_catalog,
      srv_receipts = ''/rec'', srv_version = ''dev''\<rparr>"

definition sample_table :: go_string where
  "sample_table = csv_text [[''userid'', ''attName''], [''u1'', ''taxi.pdf'']]"

definition sample_host :: host where
  "sample_host =
     \<lparr>ho_ReadDir = (\<lambda>d. Entries sample_library),
      ho_Stat = (\<lambda>p. if p = ''/rec/taxi.pdf'' then Some False else None),
      ho_ReadFile = (\<lambda>p. None), ho_Cwd = Some ''/srv'', ho_ParseObject = (\<lambda>s. None),
      ho_DecodeConfig = (\<lambda>data cc. Inr (cc\<lparr>cc_WorkflowID := ''ta-create'', cc_Env := ''stg'', cc_TimeoutSeconds := 9000\<rparr>)),
      ho_Order = (\<lambda>ns. ns),
      ho_Civil = \<lparr>year = 2024, month = 5, day = 6, hour = 7, minute = 8, second = 9\<rparr>, ho_Random = Some [1, 2, 3],
      ho_Now = 77, ho_Mkdir = (\<lambda>p. None), ho_WriteFile = (\<lambda>p. None),
      ho_PersistAdd = working_disk ''x'', ho_PersistUpdate = working_disk ''x''\<rparr>"

definition sample_request :: "part list \<Rightarrow> request" where
  "sample_request ps =
     \<lparr>rq_Method = ''POST'', rq_Path = ''/v1/runs'', rq_Segments = [''v1'', ''runs''],
      rq_Header = (\<lambda>k. if k = ''Authorization'' then ''Bearer s3cret'' else []), rq_Query = (\<lambda>k. []),
      rq_Multipart = (\<lambda>n. Inr \<lparr>mp_Parts = ps, mp_End = None\<rparr>), rq_TimedOut = False\<rparr>"

definition sample_part :: "go_string \<Rightarrow> go_string \<Rightarrow> part" where
  "sample_part name data = \<lparr>part_Name = name, part_Read = (\<lambda>n. Inr (if n < int (length data) then take (nat n) data else data))\<rparr>"

definition sample_parts :: "part list" where
  "sample_parts = [sample_part ''config'' ''{}'', sample_part ''ta'' sample_table]"

lemma sample_reply:
  "map_option rs_Status (rp_Response (createRun sample_server sample_host (sample_request sample_parts) small_queue)) =
     Some 202"
  by code_simp

lemma sample_workflows: "workflows_ok (\<lambda>_. True) ''/a'' (srv_catalog sample_server)"
proof -
  have "cat_byID loaded_catalog = [(''ta-create'', sample_workflow)]" by code_simp
  then have "w = sample_workflow" if "Workflow (srv_catalog sample_server) i = Some w" for i w
    using that by (simp add: sample_server_def Workflow_def split: if_splits)
  then have "workflows_ok (\<lambda>_. True) ''/a'' (srv_catalog sample_server)"
    if "workflow_ok (\<lambda>_. True) ''/a'' (srv_catalog sample_server) sample_workflow"
    using that by (auto simp: workflows_ok_def)
  then show ?thesis
    by (simp add: sample_server_def loaded_catalog_def index_def workflow_ok_def inputs_ok_def kind_ok_def
        sample_catalog_def sample_workflow_def sample_input_def split_beta)
qed

theorem create_run_accepted_witness:
  "\<exists>r. r_TimeoutSeconds r \<le> 3600 \<and> r_Env r \<in> set validEnvs \<and>
     Get (q_store (rp_Queue (createRun sample_server sample_host (sample_request sample_parts) small_queue)))
       ''20240506T070809Z-010203'' = Some r"
proof -
  obtain resp where r: "rp_Response (createRun sample_server sample_host (sample_request sample_parts) small_queue) = Some resp"
    "rs_Status resp = 202"
    using sample_reply by blast
  have n: "NewID (ho_Civil sample_host) (ho_Random sample_host) = Some ''20240506T070809Z-010203''" by code_simp
  have m: "w_MaxTimeoutSeconds w = 3600" if "request_ok sample_server sample_host (sample_request sample_parts) cc u w" for cc u w
  proof -
    have "cat_byID loaded_catalog = [(''ta-create'', sample_workflow)]" by code_simp
    with that show ?thesis
      by (auto simp: request_ok_def sample_server_def Workflow_def sample_workflow_def split: if_splits)
  qed
  from create_run_accepted [OF r sample_workflows] n show ?thesis using m by fastforce
qed

text \<open>
  C19. A request that is the client's fault leaves no trace: after a 400 or a 413 the queue and the store are what they were, and
  whatever the request had created on disk, its run directory was removed as the last step.
\<close>

theorem create_run_refused_clean:
  assumes "rp_Response (createRun srv ho rq q) = Some resp" "rs_Status resp = 400 \<or> rs_Status resp = 413"
  shows "rp_Queue (createRun srv ho rq q) = q \<and>
    (rp_Actions (createRun srv ho rq q) = [] \<or>
     (\<exists>i ws. NewID (ho_Civil ho) (ho_Random ho) = Some i \<and>
        rp_Actions (createRun srv ho rq q) =
          run_dirs (layout_of srv i) @ ws @ [RemovedAll (Root (layout_of srv i))]))"
proof (cases srv ho rq q rule: createRun_cases)
  case (started cc uploads w)
  show ?thesis
  proof (cases srv ho cc w uploads q rule: start_run_cases)
    case (early acts m)
    with started(2) assms show ?thesis by auto
  next
    case (stopped i ws st m)
    with started(2) show ?thesis by simp
  next
    case (ready i)
    then show ?thesis
      using started(2) assms
      by (cases rule: submit_run_cases [where ho = ho and r = "new_run i w cc (ho_Now ho) (run_params cc w)"
            and q = q and w = w and env = "child_env (layout_of srv i) cc uploads w"
            and acts = "run_dirs (layout_of srv i) @ concat (map (written (layout_of srv i) uploads) (w_Inputs w))"])
        auto
  qed
qed simp

theorem create_run_refused_clean_witness:
  "rp_Queue (createRun sample_server sample_host (sample_request [sample_part ''config'' ''{}'']) small_queue) = small_queue"
proof -
  have "map_option rs_Status
      (rp_Response (createRun sample_server sample_host (sample_request [sample_part ''config'' ''{}'']) small_queue)) = Some 400"
    by code_simp
  then obtain resp where
    "rp_Response (createRun sample_server sample_host (sample_request [sample_part ''config'' ''{}'']) small_queue) = Some resp"
    "rs_Status resp = 400" by blast
  then show ?thesis using create_run_refused_clean by blast
qed



text \<open>
  A run whose record cannot be saved: the client gets a 500 and no id, but the run stays in the store as queued, though
  it is in no queue, so it is listed, never executed, and cannot be cancelled; its directory and uploads stay too.
\<close>

theorem unsaved_run_stays:
  assumes "Add (ho_PersistAdd ho) r (q_store q) = (s, Some e)" "r_State r = StateQueued"
    and "map_of (q_live q) (r_ID r) = None"
  shows "\<exists>q'. submit_run ho w r env acts q = answer q' acts (writeError 500 (StoreFailed e)) \<and>
    Get (q_store q') (r_ID r) = Some r \<and> q_jobs q' = q_jobs q \<and>
    (\<exists>q''. cancelRun ho (r_ID r) q' = answer q'' [] (writeError 404 (Msg ''no such run'')) \<and>
       Get (q_store q'') (r_ID r) = Some r)"
proof -
  have "runs s = AList.update (r_ID r) r (runs (q_store q))"
    using Add_mem [of "ho_PersistAdd ho" r "q_store q"] assms(1) by simp
  then have g: "Get s (r_ID r) = Some r" by (simp add: Get_def go_maps)
  have "submit_run ho w r env acts q = answer (q\<lparr>q_store := s\<rparr>) acts (writeError 500 (StoreFailed e))"
    using assms(1) by (simp add: submit_run_def)
  moreover have "Cancel (ho_PersistUpdate ho) (ho_Now ho) (r_ID r) (q\<lparr>q_store := s\<rparr>) =
      (q\<lparr>q_store := s, q_cancelled := insert (r_ID r) (q_cancelled q)\<rparr>, Some ErrNotFound)"
    using g assms(2,3) by (simp add: Cancel_def cancel_check_def cancel_flag_def)
  ultimately show ?thesis
    using g by (intro exI [of _ "q\<lparr>q_store := s\<rparr>"]) (simp add: cancelRun_def)
qed

theorem unsaved_run_stays_witness:
  "\<exists>q'. submit_run (sample_host\<lparr>ho_PersistAdd := (working_disk ''x'')\<lparr>marshal_ok := False\<rparr>\<rparr>) sample_workflow
      (zero_run\<lparr>r_ID := ''a'', r_State := StateQueued\<rparr>) [] [] small_queue =
      answer q' [] (writeError 500 (StoreFailed EncodingMeta)) \<and>
    q_jobs q' = [] \<and> Get (q_store q') ''a'' = Some (zero_run\<lparr>r_ID := ''a'', r_State := StateQueued\<rparr>)"
proof -
  let ?ho = "sample_host\<lparr>ho_PersistAdd := (working_disk ''x'')\<lparr>marshal_ok := False\<rparr>\<rparr>"
  let ?r = "zero_run\<lparr>r_ID := ''a'', r_State := StateQueued\<rparr>"
  obtain s where s: "Add (ho_PersistAdd ?ho) ?r (q_store small_queue) = (s, Some EncodingMeta)"
    by (simp add: Add_def persist_def)
  have l: "map_of (q_live small_queue) (r_ID ?r) = None" and j: "q_jobs small_queue = []"
    by (simp_all add: small_queue_def NewQueue_def)
  from unsaved_run_stays [OF s _ l, of sample_workflow "[]" "[]"] j show ?thesis by auto
qed

end
