(* ===== verification/Journey.thy ===== *)
theory Journey
  imports Creation
begin

text \<open>
  The way of a request's data through the components: from the parts of \<open>createRun\<close> over the job that \<open>Submit\<close>
  makes to the environment that \<open>buildEnv\<close> gives to the child process; and where the contents of an uploaded
  table do not go.
\<close>

section \<open>What the child is asked to use\<close>










section \<open>Properties\<close>

lemma new_run_simps [simp]:
  "r_ID (new_run i w cc now params) = i" "r_TimeoutSeconds (new_run i w cc now params) = run_timeout cc w"
  by (simp_all add: new_run_def)


fun file_after :: "go_string \<Rightarrow> fs_action list \<Rightarrow> go_string option" where
  "file_after p [] = None"
| "file_after p (a # as) =
     (case file_after p as of
        Some d \<Rightarrow> Some d
      | None \<Rightarrow> (case a of WroteFile f d \<Rightarrow> if f = p then Some d else None | _ \<Rightarrow> None))"










text \<open>The sample request, with the table of another user.\<close>

definition other_table :: go_string where
  "other_table = csv_text [[''userid'', ''attName''], [''u2'', []]]"

definition other_parts :: "part list" where
  "other_parts = [sample_part ''config'' ''{}'', sample_part ''ta'' other_table]"





section \<open>Tables with one file name\<close>

text \<open>
  What the hypothesis on the file names is for: a manifest that the validation of \<open>catalog.go\<close> accepts may give
  two tables of a workflow the same file name; the second upload then overwrites the first, and the variables of both name it.
\<close>

definition shared_workflow :: workflow where
  "shared_workflow =
     sample_workflow\<lparr>w_Inputs := [sample_input, sample_input\<lparr>in_Name := ''tb'', in_Env := ''OTHER_CSV''\<rparr>]\<rparr>"

definition shared_catalog :: catalog where
  "shared_catalog = sample_catalog\<lparr>cat_Workflows := [shared_workflow]\<rparr>"

definition shared_server :: server where
  "shared_server = sample_server\<lparr>srv_catalog := fst (index (\<lambda>_. True) ''/a'' shared_catalog)\<rparr>"

definition shared_parts :: "part list" where
  "shared_parts = other_parts @ [sample_part ''tb'' sample_table]"

theorem shared_filename_overwrites:
  "snd (index (\<lambda>_. True) ''/a'' shared_catalog) = [] \<and>
   (let rp = createRun shared_server sample_host (sample_request shared_parts) small_queue;
        path = ''/r/20240506T070809Z-010203/input/master.csv'';
        env = sp_Env (j_spec (job_of (rp_Queue rp) 0))
    in map_option rs_Status (rp_Response rp) = Some 202 \<and>
       (map_of env ''MASTER_CSV'', map_of env ''OTHER_CSV'') = (Some path, Some path) \<and>
       file_after path (rp_Actions rp) = Some sample_table)"
  by code_simp

end
