(* ===== verification/Restart.thy ===== *)
theory Restart
  imports Creation
begin

text \<open>
  What a client sees of a finished run after the server was restarted: the composition of \<open>persist\<close>, \<open>Recover\<close> and the
  handlers that serve artifacts and results.
\<close>

section \<open>The run after the restart\<close>





section \<open>Properties\<close>





end
