(* ===== verification/Reading.thy ===== *)
theory Reading
  imports Creation
begin

text \<open>
  What the reading handlers guarantee: the log of a run after its buffer is gone, and which files of the host a
  reply can depend on.
\<close>

section \<open>The tail of a log file\<close>

fun number_from :: "int \<Rightarrow> go_string list \<Rightarrow> line list" where
  "number_from i [] = []"
| "number_from i (t # ts) = \<lparr>line_Seq = i, line_Text = t\<rparr> # number_from (i + 1) ts"

lemma number_from_snoc:
  "number_from i (ts @ [t]) = number_from i ts @ [\<lparr>line_Seq = i + int (length ts), line_Text = t\<rparr>]"
  by (induction i ts rule: number_from.induct) (simp_all add: add.commute add.left_commute)

lemma number_from_0: "number_from 0 ts = number ts"
proof (induction ts rule: rev_induct)
  case Nil
  show ?case by (simp add: number_def)
qed (simp add: number_from_snoc number_snoc)

lemma tail_loop_eq:
  assumes "limit > 0 \<Longrightarrow> int (length out) < limit"
  shows "tail_loop i start limit ts out =
    out @ (if limit > 0 then take (nat limit - length out) (filter (\<lambda>l. start \<le> line_Seq l) (number_from i ts))
           else filter (\<lambda>l. start \<le> line_Seq l) (number_from i ts))"
  using assms
proof (induction ts arbitrary: i out)
  case (Cons t ts)
  let ?out = "out @ [\<lparr>line_Seq = i, line_Text = t\<rparr>]"
  consider (skip) "i < start" | (stop) "start \<le> i" "limit > 0" "int (length ?out) \<ge> limit"
    | (more) "start \<le> i" "\<not> (limit > 0 \<and> int (length ?out) \<ge> limit)" by linarith
  then show ?case
  proof cases
    case skip
    then show ?thesis using Cons by simp
  next
    case stop
    then have "nat limit - length out = Suc 0" using Cons.prems by simp
    with stop show ?thesis by simp
  next
    case more
    have l: "0 < limit \<Longrightarrow> nat limit - length out = Suc (nat limit - length ?out)" using more by simp
    have "tail_loop i start limit (t # ts) out = tail_loop (i + 1) start limit ts ?out"
      using more by (auto simp: Let_def)
    also have "\<dots> = ?out @ (if limit > 0
        then take (nat limit - length ?out) (filter (\<lambda>l. start \<le> line_Seq l) (number_from (i + 1) ts))
        else filter (\<lambda>l. start \<le> line_Seq l) (number_from (i + 1) ts))"
      using more by (intro Cons.IH) simp
    finally show ?thesis using more(1) l by simp
  qed
qed simp

lemma tail_loop_number: "tail_loop 0 start limit ts [] = clip limit (drop (nat start) (number ts))"
  using filter_number_drop [of start 0 ts] by (simp add: tail_loop_eq clip_def number_from_0)

lemma last_clip_seq:
  assumes "clip limit (drop i (number h)) \<noteq> []"
  shows "line_Seq (last (clip limit (drop i (number h)))) + 1 = int (i + length (clip limit (drop i (number h))))"
proof -
  let ?out = "clip limit (drop i (number h))"
  have "?out = take (length ?out) (drop i (number h))" by (rule clip_take)
  moreover have "i + length ?out \<le> length h"
  proof -
    have "i \<le> length h" using assms by (cases "i \<le> length h") (auto simp: clip_def split: if_splits)
    then show ?thesis using clip_shorter [of limit "drop i (number h)"] by simp
  qed
  ultimately show ?thesis using last_number_segment [of "length ?out" i h] assms by (metis diff_add_cancel length_greater_0_conv)
qed

text \<open>The bytes of a log file that holds the lines.\<close>

definition file_of :: "go_string list \<Rightarrow> go_string" where
  "file_of ls = concat (map (\<lambda>t. t @ [LF]) ls)"

lemma file_of_join: "ls \<noteq> [] \<Longrightarrow> file_of ls = join_with [LF] ls @ [LF]"
proof (induction ls)
  case (Cons t ts)
  then show ?case by (cases ts) (simp_all add: file_of_def)
qed simp

lemma join_with_last: "ls \<noteq> [] \<Longrightarrow> last ls \<noteq> [] \<Longrightarrow> join_with [LF] ls \<noteq> [] \<and> last (join_with [LF] ls) = last (last ls)"
proof (induction ls)
  case (Cons t ts)
  then show ?case by (cases ts) auto
qed simp

lemma split_file_of:
  assumes "ls \<noteq> []" "last ls \<noteq> []" "\<forall>t \<in> set ls. LF \<notin> set t"
  shows "split_on LF (trim_right_char LF (file_of ls)) = ls"
proof -
  let ?s = "join_with [LF] ls"
  have "last (last ls) \<in> set (last ls)" "last ls \<in> set ls" using assms(1,2) by simp_all
  with assms(3) have "last (last ls) \<noteq> LF" by metis
  then have s: "?s \<noteq> []" "last ?s \<noteq> LF" using join_with_last [OF assms(1,2)] by simp_all
  have "dropWhile (\<lambda>x. x = LF) (rev ?s) = rev ?s"
    unfolding dropWhile_eq_self_iff using s by (simp add: hd_rev)
  then have "trim_right_char LF (file_of ls) = ?s"
    by (simp add: trim_right_char_def file_of_join [OF assms(1)])
  with split_join_with [OF assms(1,3)] show ?thesis by simp
qed

section \<open>Files of the host\<close>

text \<open>Two hosts that differ only in files outside a directory.\<close>

definition same_inside :: "go_string \<Rightarrow> host \<Rightarrow> host \<Rightarrow> bool" where
  "same_inside d ho ho' \<longleftrightarrow>
     ho_Cwd ho' = ho_Cwd ho \<and> ho_ParseObject ho' = ho_ParseObject ho \<and>
     (\<forall>p. Layout.within d p \<longrightarrow> ho_ReadFile ho' p = ho_ReadFile ho p)"

lemma within_child: "list_all plain cs \<Longrightarrow> plain n \<Longrightarrow> Layout.within (abs_path cs) (abs_path (cs @ [n]))"
  by (auto simp: within_def path_comps_abs_path Clean_abs_path intro: exI [of _ "[n]"])

definition run_home :: "server \<Rightarrow> go_string \<Rightarrow> go_string" where
  "run_home srv i = abs_path (abs_comps (cfg_RunsDir (srv_cfg srv)) @ [i])"

definition same_run_files :: "server \<Rightarrow> go_string \<Rightarrow> host \<Rightarrow> host \<Rightarrow> bool" where
  "same_run_files srv i ho ho' \<longleftrightarrow>
     IsAbs (cfg_RunsDir (srv_cfg srv)) \<and> plain i \<and> cwd_ok (ho_Cwd ho) \<and> same_inside (run_home srv i) ho ho'"

lemma resolve_same:
  assumes "same_run_files srv i ho ho'" "Resolve (ho_Cwd ho) (layout_of srv i) rel = Inr full"
  shows "ho_ReadFile ho' full = ho_ReadFile ho full"
proof -
  have d: "IsAbs (cfg_RunsDir (srv_cfg srv))" "plain i" and cwd: "cwd_ok (ho_Cwd ho)"
    and same: "same_inside (run_home srv i) ho ho'"
    using assms(1) by (simp_all add: same_run_files_def)
  show ?thesis
    using Resolve_within [OF cwd, of "layout_of srv i" rel full] run_layout_Abs(2) [OF d] same assms(2)
    by (simp add: layout_of_def same_inside_def run_home_def)
qed

lemma log_same:
  assumes "same_run_files srv i ho ho'"
  shows "ho_ReadFile ho' (LogFile (layout_of srv i)) = ho_ReadFile ho (LogFile (layout_of srv i))"
proof -
  have d: "IsAbs (cfg_RunsDir (srv_cfg srv))" "plain i" and same: "same_inside (run_home srv i) ho ho'"
    using assms by (simp_all add: same_run_files_def)
  let ?cs = "abs_comps (cfg_RunsDir (srv_cfg srv)) @ [i]"
  have p: "list_all plain ?cs" using abs_comps_plain d(2) by simp
  have n: "plain ''run.log''" by (simp add: plain_def)
  have "Root (layout_of srv i) = abs_path ?cs"
    by (simp add: layout_of_def run_layout_def Join_abs_plain [OF d])
  then have "LogFile (layout_of srv i) = abs_path (?cs @ [''run.log''])"
    using Join_abs_plain [OF IsAbs_abs_path n, of ?cs] abs_comps_abs_path [OF p] by (simp add: LogFile_def)
  then show ?thesis
    using within_child [OF p n] same by (simp add: same_inside_def run_home_def)
qed

lemma same_run_files_parts:
  "same_run_files srv i ho ho' \<Longrightarrow> ho_Cwd ho' = ho_Cwd ho \<and> ho_ParseObject ho' = ho_ParseObject ho"
  by (simp add: same_run_files_def same_inside_def)

lemma getArtifact_same: "same_run_files srv i ho ho' \<Longrightarrow> getArtifact srv ho' i j q = getArtifact srv ho i j q"
  using resolve_same [of srv i ho ho'] same_run_files_parts [of srv i ho ho']
  by (auto simp: getArtifact_def split: option.splits sum.splits)

lemma output_same:
  "same_run_files srv i ho ho' \<Longrightarrow> output_of ho' (layout_of srv i) a = output_of ho (layout_of srv i) a"
  using resolve_same [of srv i ho ho'] same_run_files_parts [of srv i ho ho']
  by (auto simp: output_of_def split: option.splits sum.splits)

lemma getResults_same: "same_run_files srv i ho ho' \<Longrightarrow> getResults srv ho' i q = getResults srv ho i q"
  by (simp add: getResults_def output_same cong: option.case_cong map_cong)

lemma getLog_same: "same_run_files srv i ho ho' \<Longrightarrow> getLog srv ho' rq i q = getLog srv ho rq i q"
  by (simp add: getLog_def tailFile_def log_same cong: option.case_cong)

section \<open>Properties\<close>

text \<open>
  The log from the file is a window of its lines: with trailing line feeds dropped, the lines are numbered from zero, and a
  client gets at most \<open>limit\<close> of those from the number it asks for, in order and without a gap, with the number
  to go on from right after the last of them.
\<close>

theorem tail_file_exact:
  "tailFile rd p from limit =
    (case rd p of
       None \<Rightarrow> ([], from)
     | Some data \<Rightarrow>
         let ls = split_on LF (trim_right_char LF data); out = clip limit (drop (nat from) (number ls))
         in (out, if out = [] then int (length ls) else int (nat from + length out)))"
  using last_clip_seq [of limit "nat from"]
  by (simp add: tailFile_def tail_loop_number Let_def split: option.split)

text \<open>
  The two sources of a log number its lines differently: the buffer begins with the announcement of the command, which the
  file does not have. A client that has the first \<open>k\<close> lines of the buffer and goes on from \<open>k\<close> gets,
  when the server was restarted in between, the lines of the file from \<open>k\<close>, and so never the output line \<open>k - 1\<close> that the
  buffer would have given next.
\<close>

theorem log_sources_shifted:
  assumes "holds b (announced # output)" "length output < capacity b"
    and "output \<noteq> []" "last output \<noteq> []" "list_all (\<lambda>t. LF \<notin> set t) output"
    and "rd p = Some (file_of output)" "0 < k" "k \<le> length output"
  shows "map line_Text (fst (Since (int k) 0 b)) =
    output ! (k - 1) # map line_Text (fst (tailFile rd p (int k) 0))"
proof -
  have texts: "map line_Text (drop n (number h)) = drop n h" for n h
    by (rule nth_equalityI) simp_all
  have "fst (Since (int k) 0 b) = drop k (number (announced # output))"
    using Since_holds [OF assms(1), of "int k" 0] assms(2,8) by (simp add: clip_def Let_def)
  moreover have "fst (tailFile rd p (int k) 0) = drop k (number output)"
    using assms(6) split_file_of [OF assms(3,4)] assms(5)
    by (simp add: tailFile_def tail_loop_number clip_def list_all_iff Let_def)
  moreover have "drop k (announced # output) = output ! (k - 1) # drop k output"
    using assms(7,8) Cons_nth_drop_Suc [where i = "k - 1" and xs = "output"] by (cases k) simp_all
  ultimately show ?thesis by (simp add: texts)
qed

theorem log_sources_shifted_witness:
  "map line_Text (fst (Since 1 0 \<lparr>lines = number [''$ node'', ''a'', ''b''], capacity = 5, nextSeq = 3,
       closed = False, subs = [], chans = [], next_chan = 0\<rparr>)) =
   ''a'' # map line_Text (fst (tailFile (\<lambda>_. Some (file_of [''a'', ''b''])) ''/r/run.log'' 1 0))"
proof -
  let ?b = "\<lparr>lines = number [''$ node'', ''a'', ''b''], capacity = 5, nextSeq = 3,
       closed = False, subs = [], chans = [], next_chan = 0\<rparr>"
  have "holds ?b [''$ node'', ''a'', ''b'']" by (simp add: holds_def)
  from log_sources_shifted [OF this, of "\<lambda>_. Some (file_of [''a'', ''b''])" "''/r/run.log''" 1] show ?thesis
    by simp
qed

text \<open>
  C16. The files of one run only: what the artifact download, the results and the log of a run reply depends on no file outside the run's
  directory, whatever paths its artifacts were recorded with; two hosts that agree on the files inside it get the same replies.
\<close>

theorem replies_confined_to_run:
  assumes "IsAbs (cfg_RunsDir (srv_cfg srv))" "plain i" "cwd_ok (ho_Cwd ho)"
    and "same_inside (abs_path (abs_comps (cfg_RunsDir (srv_cfg srv)) @ [i])) ho ho'"
  shows "getArtifact srv ho' i j q = getArtifact srv ho i j q \<and>
    getResults srv ho' i q = getResults srv ho i q \<and> getLog srv ho' rq i q = getLog srv ho rq i q"
proof -
  have "same_run_files srv i ho ho'" using assms by (simp add: same_run_files_def run_home_def)
  then show ?thesis by (simp add: getArtifact_same getResults_same getLog_same)
qed

definition escaping_run :: run where
  "escaping_run = zero_run\<lparr>r_ID := ''a'', r_State := StateSucceeded,
     r_Artifacts := [\<lparr>art_ID = ''x'', art_Kind = ArtifactOther, art_Name = ''passwd'', art_TestTitle = [],
       art_Size = 1, art_Sensitive = False, art_Rel = ''../../etc/passwd''\<rparr>]\<rparr>"

theorem replies_confined_to_run_witness:
  "getArtifact sample_server (sample_host\<lparr>ho_ReadFile := (\<lambda>p. if p = ''/etc/passwd'' then Some ''root'' else None)\<rparr>)
     ''a'' ''x'' (small_queue\<lparr>q_store := NewStore\<lparr>runs := [(''a'', escaping_run)]\<rparr>\<rparr>) =
   getArtifact sample_server sample_host ''a'' ''x'' (small_queue\<lparr>q_store := NewStore\<lparr>runs := [(''a'', escaping_run)]\<rparr>\<rparr>)"
proof -
  let ?ho = "sample_host\<lparr>ho_ReadFile := (\<lambda>p. if p = ''/etc/passwd'' then Some ''root'' else None)\<rparr>"
  have d: "IsAbs (cfg_RunsDir (srv_cfg sample_server))" "plain ''a''" by code_simp+
  have c: "cwd_ok (ho_Cwd sample_host)" by (simp add: sample_host_def cwd_ok_def)
  have r: "path_comps (abs_path (abs_comps (cfg_RunsDir (srv_cfg sample_server)) @ [''a''])) = [''r'', ''a'']"
    and e: "path_comps ''/etc/passwd'' = [''etc'', ''passwd'']" by code_simp+
  have "same_inside (abs_path (abs_comps (cfg_RunsDir (srv_cfg sample_server)) @ [''a''])) sample_host ?ho"
    using r e by (auto simp: same_inside_def Layout.within_def sample_host_def)
  from replies_confined_to_run [OF d c this] show ?thesis by blast
qed

end
