(* ===== verification/Server.thy ===== *)
theory Server
  imports Reading
begin

text \<open>
  \<open>internal/httpapi/server.go\<close>: the router with its routes and the middleware around them - the CORS
  headers, the panic barrier, the access log, the bearer token and the time limit of the short routes. A
  request's path is given by its cleaned segments; \<open>http.ServeMux\<close> redirects the other forms.
\<close>

section \<open>Routes\<close>

datatype endpoint =
    Health
  | ListWorkflows
  | GetWorkflow go_string
  | ListReceipts
  | GetReference
  | CreateRun
  | ListRuns
  | GetRun go_string
  | GetLog go_string
  | CancelRun go_string
  | GetResults go_string
  | ListArtifacts go_string
  | GetArtifact go_string go_string

text \<open>The patterns that match the segments of a path, each with its method; a wildcard is not empty.\<close>

definition fixed_routes :: "(go_string list \<times> go_string \<times> endpoint) list" where
  "fixed_routes =
     [([''health''], ''GET'', Health), ([''workflows''], ''GET'', ListWorkflows),
      ([''receipts''], ''GET'', ListReceipts), ([''reference''], ''GET'', GetReference),
      ([''runs''], ''POST'', CreateRun), ([''runs''], ''GET'', ListRuns)]"

definition run_routes :: "go_string \<Rightarrow> go_string list \<Rightarrow> (go_string \<times> endpoint) list" where
  "run_routes i rest =
     (if i = [] then []
      else if rest = [] then [(''GET'', GetRun i)]
      else if rest = [''log''] then [(''GET'', GetLog i)]
      else if rest = [''cancel''] then [(''POST'', CancelRun i)]
      else if rest = [''results''] then [(''GET'', GetResults i)]
      else if rest = [''artifacts''] then [(''GET'', ListArtifacts i)]
      else case rest of
          [a, j] \<Rightarrow> if a = ''artifacts'' \<and> j \<noteq> [] then [(''GET'', GetArtifact i j)] else []
        | _ \<Rightarrow> [])"

definition routes_at :: "go_string list \<Rightarrow> (go_string list \<times> go_string \<times> endpoint) list \<Rightarrow> (go_string \<times> endpoint) list" where
  "routes_at p rs = map snd (filter (\<lambda>r. fst r = p) rs)"

definition routes :: "go_string list \<Rightarrow> (go_string \<times> endpoint) list" where
  "routes segs =
     (case segs of
        [] \<Rightarrow> []
      | v # p \<Rightarrow>
          if v \<noteq> ''v1'' then []
          else
            routes_at p fixed_routes @
            (case p of
               w # i # rest \<Rightarrow>
                 if w = ''runs'' then run_routes i rest
                 else if w = ''workflows'' \<and> i \<noteq> [] \<and> rest = [] then [(''GET'', GetWorkflow i)]
                 else []
             | _ \<Rightarrow> []))"

text \<open>A pattern for \<open>GET\<close> also matches \<open>HEAD\<close>.\<close>

definition method_matches :: "go_string \<Rightarrow> go_string \<Rightarrow> bool" where
  "method_matches m pat \<longleftrightarrow> m = pat \<or> (pat = ''GET'' \<and> m = ''HEAD'')"

definition allowed :: "(go_string \<times> endpoint) list \<Rightarrow> go_string" where
  "allowed rs =
     join_with '', ''
       (sort (remdups (concat (map (\<lambda>r. if fst r = ''GET'' then [''GET'', ''HEAD''] else [fst r]) rs))))"

definition short_route :: "endpoint \<Rightarrow> bool" where
  "short_route ep = (case ep of Health \<Rightarrow> False | GetReference \<Rightarrow> False | CreateRun \<Rightarrow> False
     | GetArtifact i j \<Rightarrow> False | _ \<Rightarrow> True)"

section \<open>Middleware\<close>

definition auth :: "server \<Rightarrow> request \<Rightarrow> (queue \<Rightarrow> reply) \<Rightarrow> queue \<Rightarrow> reply" where
  "auth srv rq h q =
     (if trim_prefix (rq_Header rq ''Authorization'') ''Bearer '' \<noteq> cfg_Token (srv_cfg srv)
      then answer q []
        (set_header ''WWW-Authenticate'' (''Bearer realm='' @ [quote] @ ''pstad'' @ [quote])
          (writeError 401 (Msg ''missing or invalid bearer token'')))
      else h q)"

text \<open>
  \<open>http.TimeoutHandler\<close>: the handler runs to its end in its own goroutine, but when the time is over, or the client has
  gone, its response (or its panic) is dropped.
\<close>

definition timeout_handler :: "request \<Rightarrow> (queue \<Rightarrow> reply) \<Rightarrow> queue \<Rightarrow> reply" where
  "timeout_handler rq h q =
     (if rq_TimedOut rq
      then (h q)\<lparr>rp_Response := Some \<lparr>rs_Status = 503, rs_Header = [],
        rs_Body = Bytes (''{'' @ [quote] @ ''error'' @ [quote] @ '':'' @ [quote] @ ''request timed out'' @ [quote] @ ''}'')\<rparr>\<rparr>
      else h q)"

definition handler :: "server \<Rightarrow> host \<Rightarrow> request \<Rightarrow> endpoint \<Rightarrow> queue \<Rightarrow> reply" where
  "handler srv ho rq ep =
     (case ep of
        Health \<Rightarrow> health srv
      | ListWorkflows \<Rightarrow> listWorkflows srv
      | GetWorkflow i \<Rightarrow> getWorkflow srv i
      | ListReceipts \<Rightarrow> listReceipts srv ho rq
      | GetReference \<Rightarrow> getReference srv ho
      | CreateRun \<Rightarrow> createRun srv ho rq
      | ListRuns \<Rightarrow> listRuns rq
      | GetRun i \<Rightarrow> getRun i
      | GetLog i \<Rightarrow> getLog srv ho rq i
      | CancelRun i \<Rightarrow> cancelRun ho i
      | GetResults i \<Rightarrow> getResults srv ho i
      | ListArtifacts i \<Rightarrow> listArtifacts i
      | GetArtifact i j \<Rightarrow> getArtifact srv ho i j)"

definition serve_endpoint :: "server \<Rightarrow> host \<Rightarrow> request \<Rightarrow> endpoint \<Rightarrow> queue \<Rightarrow> reply" where
  "serve_endpoint srv ho rq ep =
     (if ep = Health then handler srv ho rq ep
      else if short_route ep then timeout_handler rq (auth srv rq (handler srv ho rq ep))
      else auth srv rq (handler srv ho rq ep))"

definition plain_error :: "int \<Rightarrow> go_string \<Rightarrow> response" where
  "plain_error st msg =
     \<lparr>rs_Status = st, rs_Header = [(''Content-Type'', ''text/plain; charset=utf-8''), (''X-Content-Type-Options'', ''nosniff'')],
      rs_Body = Bytes (msg @ [LF])\<rparr>"

definition mux :: "server \<Rightarrow> host \<Rightarrow> request \<Rightarrow> queue \<Rightarrow> reply" where
  "mux srv ho rq q =
     (let rs = routes (rq_Segments rq) in
      case List.find (\<lambda>r. method_matches (rq_Method rq) (fst r)) rs of
        Some r \<Rightarrow> serve_endpoint srv ho rq (snd r) q
      | None \<Rightarrow>
          if rs = [] then answer q [] (plain_error 404 ''404 page not found'')
          else answer q [] (set_header ''Allow'' (allowed rs) (plain_error 405 ''Method Not Allowed'')))"

text \<open>The access log is written after the handler returned, so not when it panicked.\<close>

definition logRequests :: "request \<Rightarrow> (queue \<Rightarrow> reply) \<Rightarrow> queue \<Rightarrow> reply" where
  "logRequests rq h q =
     (let r = h q in
      case rp_Response r of
        None \<Rightarrow> r
      | Some resp \<Rightarrow> r\<lparr>rp_Log := rp_Log r @ [LogHTTP (rq_Method rq) (rq_Path rq) (rs_Status resp)]\<rparr>)"

definition recoverPanics :: "request \<Rightarrow> (queue \<Rightarrow> reply) \<Rightarrow> queue \<Rightarrow> reply" where
  "recoverPanics rq h q =
     (let r = h q in
      case rp_Response r of
        Some resp \<Rightarrow> r
      | None \<Rightarrow>
          r\<lparr>rp_Log := rp_Log r @ [LogPanic (rq_Path rq)],
            rp_Response := Some (writeError 500 (Msg ''internal error''))\<rparr>)"

definition cors_headers :: "(go_string \<times> go_string) list" where
  "cors_headers =
     [(''Access-Control-Allow-Origin'', ''*''), (''Access-Control-Allow-Methods'', ''GET, POST, OPTIONS''),
      (''Access-Control-Allow-Headers'', ''Authorization, Content-Type'')]"

definition with_cors :: "response \<Rightarrow> response" where
  "with_cors r = r\<lparr>rs_Header := cors_headers @ rs_Header r\<rparr>"

definition cors :: "request \<Rightarrow> (queue \<Rightarrow> reply) \<Rightarrow> queue \<Rightarrow> reply" where
  "cors rq h q =
     (if rq_Method rq = ''OPTIONS''
      then answer q [] (with_cors \<lparr>rs_Status = 204, rs_Header = [], rs_Body = Empty\<rparr>)
      else let r = h q in r\<lparr>rp_Response := map_option with_cors (rp_Response r)\<rparr>)"

definition serve :: "server \<Rightarrow> host \<Rightarrow> request \<Rightarrow> queue \<Rightarrow> reply" where
  "serve srv ho rq = cors rq (recoverPanics rq (logRequests rq (mux srv ho rq)))"

section \<open>The route of each endpoint\<close>

fun method_of :: "endpoint \<Rightarrow> go_string" where
  "method_of CreateRun = ''POST''"
| "method_of (CancelRun i) = ''POST''"
| "method_of ep = ''GET''"

fun path_of :: "endpoint \<Rightarrow> go_string list" where
  "path_of Health = [''v1'', ''health'']"
| "path_of ListWorkflows = [''v1'', ''workflows'']"
| "path_of (GetWorkflow i) = [''v1'', ''workflows'', i]"
| "path_of ListReceipts = [''v1'', ''receipts'']"
| "path_of GetReference = [''v1'', ''reference'']"
| "path_of CreateRun = [''v1'', ''runs'']"
| "path_of ListRuns = [''v1'', ''runs'']"
| "path_of (GetRun i) = [''v1'', ''runs'', i]"
| "path_of (GetLog i) = [''v1'', ''runs'', i, ''log'']"
| "path_of (CancelRun i) = [''v1'', ''runs'', i, ''cancel'']"
| "path_of (GetResults i) = [''v1'', ''runs'', i, ''results'']"
| "path_of (ListArtifacts i) = [''v1'', ''runs'', i, ''artifacts'']"
| "path_of (GetArtifact i j) = [''v1'', ''runs'', i, ''artifacts'', j]"

lemma routes_at_iff: "r \<in> set (routes_at p rs) \<longleftrightarrow> (p, r) \<in> set rs"
  by (force simp: routes_at_def)

lemma fixed_route:
  "(m, ep) \<in> set (routes_at p fixed_routes) \<longleftrightarrow>
     ep \<in> {Health, ListWorkflows, ListReceipts, GetReference, CreateRun, ListRuns} \<and>
     m = method_of ep \<and> ''v1'' # p = path_of ep"
  unfolding routes_at_iff fixed_routes_def
  by (cases ep) (simp_all, blast+)

lemma run_route:
  "(m, ep) \<in> set (run_routes i rest) \<longleftrightarrow> i \<noteq> [] \<and> m = method_of ep \<and>
     (ep = GetRun i \<and> rest = [] \<or> ep = GetLog i \<and> rest = [''log''] \<or> ep = CancelRun i \<and> rest = [''cancel''] \<or>
      ep = GetResults i \<and> rest = [''results''] \<or> ep = ListArtifacts i \<and> rest = [''artifacts''] \<or>
      (\<exists>j. j \<noteq> [] \<and> ep = GetArtifact i j \<and> rest = [''artifacts'', j]))"
proof (cases rest)
  case Nil
  then show ?thesis by (auto simp: run_routes_def)
next
  case (Cons a r)
  note a = Cons
  show ?thesis
  proof (cases r)
    case Nil
    consider "a = ''log''" | "a = ''cancel''" | "a = ''results''" | "a = ''artifacts''"
      | "a \<noteq> ''log''" "a \<noteq> ''cancel''" "a \<noteq> ''results''" "a \<noteq> ''artifacts''" by blast
    then show ?thesis by cases (auto simp: run_routes_def a Nil)
  next
    case (Cons j r')
    with a show ?thesis by (cases r') (auto simp: run_routes_def)
  qed
qed

lemma routes_v1: "segs \<noteq> [] \<Longrightarrow> hd segs \<noteq> ''v1'' \<Longrightarrow> routes segs = []"
  by (cases segs) (simp_all add: routes_def)

lemma routes_iff: "(m, ep) \<in> set (routes segs) \<longleftrightarrow> m = method_of ep \<and> segs = path_of ep \<and> [] \<notin> set segs"
proof (cases segs)
  case (Cons v p)
  show ?thesis
  proof (cases "v = ''v1''")
    case True
    have r: "(m, ep) \<in> set (routes segs) \<longleftrightarrow>
        (m, ep) \<in> set (routes_at p fixed_routes) \<or>
        (\<exists>i rest. p = ''runs'' # i # rest \<and> (m, ep) \<in> set (run_routes i rest)) \<or>
        (\<exists>i. p = [''workflows'', i] \<and> i \<noteq> [] \<and> m = ''GET'' \<and> ep = GetWorkflow i)"
    proof (cases p)
      case Nil
      with Cons True show ?thesis by (simp add: routes_def)
    next
      case (Cons w r)
      with \<open>segs = v # p\<close> True show ?thesis by (cases r) (auto simp: routes_def)
    qed
    show ?thesis
      unfolding r fixed_route run_route using Cons True by (cases ep) auto
  next
    case False
    with Cons show ?thesis by (cases ep) (auto simp: routes_def)
  qed
next
  case Nil
  then show ?thesis by (cases ep) (auto simp: routes_def)
qed

lemma routes_empty_segment: "[] \<in> set segs \<Longrightarrow> routes segs = []"
  using routes_iff [of _ _ segs] by (cases "routes segs") force+

text \<open>The route that \<open>mux\<close> takes.\<close>

lemma mux_route:
  assumes "List.find (\<lambda>r. method_matches m (fst r)) (routes segs) = Some r"
  shows "segs = path_of (snd r) \<and> method_matches m (method_of (snd r))"
proof -
  have "r \<in> set (routes segs)" "method_matches m (fst r)"
    using assms by (auto simp: find_Some_iff)
  then show ?thesis using routes_iff [of "fst r" "snd r" segs] by simp
qed

section \<open>Handlers that only read\<close>

definition reads_only :: "(queue \<Rightarrow> reply) \<Rightarrow> bool" where
  "reads_only h \<longleftrightarrow> (\<forall>q. rp_Queue (h q) = q \<and> rp_Actions (h q) = [] \<and> rp_Response (h q) \<noteq> None \<and>
     (\<forall>p. LogPanic p \<notin> set (rp_Log (h q))))"

lemma reads_only_handler: "method_of ep = ''GET'' \<Longrightarrow> reads_only (handler srv ho rq ep)"
  by (cases ep)
    (auto simp: reads_only_def handler_def health_def listWorkflows_def getWorkflow_def listReceipts_def getReference_def
      listRuns_def getRun_def getLog_def getResults_def listArtifacts_def getArtifact_def no_such_run_def
      artifact_response_def Let_def split: option.splits sum.splits prod.splits)

lemma reads_only_auth: "reads_only h \<Longrightarrow> reads_only (auth srv rq h)"
  by (auto simp: reads_only_def auth_def)

lemma reads_only_timeout: "reads_only h \<Longrightarrow> reads_only (timeout_handler rq h)"
  by (auto simp: reads_only_def timeout_handler_def)

lemma reads_only_endpoint: "method_of ep = ''GET'' \<Longrightarrow> reads_only (serve_endpoint srv ho rq ep)"
  by (auto simp: serve_endpoint_def [abs_def] reads_only_handler reads_only_auth reads_only_timeout)

lemma reads_only_mux:
  assumes "rq_Method rq \<noteq> ''POST''"
  shows "reads_only (mux srv ho rq)"
proof -
  have "method_of ep = ''GET''" if "method_matches (rq_Method rq) (method_of ep)" for ep
    using that assms by (cases ep) (auto simp: method_matches_def)
  then show ?thesis
    using mux_route [of "rq_Method rq" "rq_Segments rq"] reads_only_endpoint [of _ srv ho rq]
    by (auto simp: reads_only_def mux_def Let_def split: option.splits)
qed

lemma serve_keeps:
  "rp_Queue (serve srv ho rq q) = (if rq_Method rq = ''OPTIONS'' then q else rp_Queue (mux srv ho rq q))"
  "rp_Actions (serve srv ho rq q) = (if rq_Method rq = ''OPTIONS'' then [] else rp_Actions (mux srv ho rq q))"
  by (simp_all add: serve_def cors_def recoverPanics_def logRequests_def Let_def split: option.split)

section \<open>Panics\<close>











section \<open>Requests without the token\<close>




section \<open>Properties\<close>



text \<open>
  Which credentials pass: exactly the header \<open>Bearer\<close> followed by the token, or the bare token without the scheme, unless the token
  itself starts with the scheme; everything else is answered with 401 and the handler does not run.
\<close>

theorem auth_exact:
  "auth srv rq h q =
    (if rq_Header rq ''Authorization'' = ''Bearer '' @ cfg_Token (srv_cfg srv) \<or>
        (rq_Header rq ''Authorization'' = cfg_Token (srv_cfg srv) \<and> \<not> has_prefix (cfg_Token (srv_cfg srv)) ''Bearer '')
     then h q
     else answer q [] (set_header ''WWW-Authenticate'' (''Bearer realm='' @ [quote] @ ''pstad'' @ [quote])
            (writeError 401 (Msg ''missing or invalid bearer token''))))"
proof (cases "has_prefix (rq_Header rq ''Authorization'') ''Bearer ''")
  case True
  then obtain t where t: "rq_Header rq ''Authorization'' = ''Bearer '' @ t" unfolding has_prefix_iff by blast
  then have e: "trim_prefix (rq_Header rq ''Authorization'') ''Bearer '' = t" by (simp only: trim_prefix_append)
  have "rq_Header rq ''Authorization'' = cfg_Token (srv_cfg srv) \<Longrightarrow> has_prefix (cfg_Token (srv_cfg srv)) ''Bearer ''"
    using True by simp
  moreover have "rq_Header rq ''Authorization'' = ''Bearer '' @ cfg_Token (srv_cfg srv) \<longleftrightarrow> t = cfg_Token (srv_cfg srv)"
    unfolding t by (simp only: same_append_eq)
  ultimately show ?thesis unfolding auth_def e by auto
next
  case False
  then have e: "trim_prefix (rq_Header rq ''Authorization'') ''Bearer '' = rq_Header rq ''Authorization''"
    by (rule trim_prefix_other)
  have "rq_Header rq ''Authorization'' \<noteq> ''Bearer '' @ cfg_Token (srv_cfg srv)"
    using False by (metis has_prefix_append)
  moreover have "rq_Header rq ''Authorization'' = cfg_Token (srv_cfg srv) \<Longrightarrow>
      \<not> has_prefix (cfg_Token (srv_cfg srv)) ''Bearer ''" using False by simp
  ultimately show ?thesis unfolding auth_def e by auto
qed


text \<open>
  C35. Only a \<open>POST\<close> changes anything: any other request, whatever its path and its credentials, leaves the queue, the store and the file
  system exactly as they were.
\<close>

theorem only_post_changes:
  assumes "rq_Method rq \<noteq> ''POST''"
  shows "rp_Queue (serve srv ho rq q) = q \<and> rp_Actions (serve srv ho rq q) = []"
  using reads_only_mux [OF assms, of srv ho] by (simp add: serve_keeps reads_only_def)

theorem only_post_changes_witness:
  "rp_Queue (serve sample_server sample_host ((sample_request sample_parts)\<lparr>rq_Method := ''GET''\<rparr>) small_queue) = small_queue"
  using only_post_changes [of "(sample_request sample_parts)\<lparr>rq_Method := ''GET''\<rparr>" sample_server sample_host small_queue]
  by simp



end
