(* ===== verification/Startup.thy ===== *)
theory Startup
  imports Schedule Server
begin

text \<open>
  The composition of \<open>cmd/pstad/main.go\<close>: \<open>realMain\<close> from the flags to the started queue and the built
  server, and the shutdown as the events that end the context and close the queue. The listener and the signal are in the theory Process,
  what is printed is in the theory Report; the world is what the parts take from it.
\<close>

section \<open>realMain\<close>

record world =
  wo_around :: surroundings
  wo_ReadFile :: "go_string \<Rightarrow> go_string option"
  wo_Unmarshal :: "go_string \<Rightarrow> json option"
  wo_Marshal :: "json \<Rightarrow> go_string option"
  wo_Decode :: "go_string \<Rightarrow> catalog option"
  wo_Runs :: "(go_string, dir_entry) gomap"
  wo_ReadDir :: readdir_result
  wo_Persist :: "go_string \<Rightarrow> persist_env"
  wo_Now :: int

record flags =
  fl_check :: bool
  fl_version :: bool

definition version :: go_string where
  "version = ''dev''"

datatype booted =
    Printed go_string
  | ConfigurationFailed "config_error list"
  | CatalogFailed Catalog.load_error
  | Checked config catalog
  | RecoveryFailed store_error
  | Serving server runtime sys "int list"

definition boot_runtime :: "config \<Rightarrow> runtime" where
  "boot_runtime cfg =
     \<lparr>rt_AutomationDir = cfg_AutomationDir cfg, rt_PlaywrightCLI = PlaywrightCLI cfg, rt_NodeBin = cfg_NodeBin cfg,
      rt_ReceiptsDir = cfg_ReceiptsDir cfg\<rparr>"

text \<open>\<open>httpapi.New\<close>; the run table and the queue are threaded through the handlers instead.\<close>

definition httpapi_New :: "config \<Rightarrow> catalog \<Rightarrow> go_string \<Rightarrow> go_string \<Rightarrow> server" where
  "httpapi_New cfg cat receipts ver =
     \<lparr>srv_cfg = cfg, srv_catalog = cat, srv_receipts = receipts, srv_version = ver\<rparr>"

definition realMain :: "flags \<Rightarrow> world \<Rightarrow> booted" where
  "realMain fl w =
     (if fl_version fl then Printed version
      else
        case config_Load (wo_around w) of
          (cfg, errs) \<Rightarrow>
            if errs \<noteq> [] then ConfigurationFailed errs
            else
              (case Catalog.Load (wo_ReadFile w) (wo_Unmarshal w) (wo_Marshal w) (wo_Decode w)
                      (\<lambda>p. so_Stat (wo_around w) p \<noteq> None) (ManifestPath cfg) (cfg_AutomationDir cfg) of
                 Inl e \<Rightarrow> CatalogFailed e
               | Inr cat \<Rightarrow>
                   if fl_check fl then Checked cfg cat
                   else
                     (case Recover (wo_ReadDir w) (wo_Persist w) (wo_Now w) (NewStore\<lparr>disk := wo_Runs w\<rparr>) of
                        ((st, killed, adopted_n, orphaned), Some e) \<Rightarrow> RecoveryFailed e
                      | ((st, killed, adopted_n, orphaned), None) \<Rightarrow>
                          Serving
                            (httpapi_New cfg cat (cfg_ReceiptsDir cfg) version)
                            (boot_runtime cfg)
                            (sys_start st (cfg_RunsDir cfg) (nat (cfg_MaxConcurrent cfg)) (nat (cfg_QueueDepth cfg)))
                            killed)))"

text \<open>After the signal: the context ends first, then, after the HTTP server was shut down, the queue is closed.\<close>

definition shutdown :: "event list" where
  "shutdown = [ContextEnds, JobsClose]"

section \<open>Lemmas\<close>

lemma Recover_recovered:
  assumes "Recover rd pe now s = ((s', killed, n, m), None)" "runs s = []"
  shows "Schedule.recovered s'"
proof -
  have "\<forall>i r. Get s i = Some r \<longrightarrow> Terminal (r_State r)" using assms(2) by (simp add: Get_def)
  then have "\<forall>i r. Get s' i = Some r \<longrightarrow> Terminal (r_State r)"
    using assms(1) recover_fold_terminal [of "(s, [], 0, 0)" pe now "sort_key fst (disk s)"]
    by (auto simp: Recover_def split: readdir_result.splits)
  moreover have "gomap_ok (runs s')"
    using assms recover_fold_ok [of "(s, [], 0, 0)" pe now "sort_key fst (disk s)"]
    by (auto simp: Recover_def split: readdir_result.splits)
  ultimately show ?thesis by (simp add: Schedule.recovered_def)
qed

lemma Load_workflows_ok:
  assumes "Catalog.Load rf um ma de stat mp dir = Inr c"
  shows "workflows_ok stat dir c"
proof -
  obtain c0 where c0: "index stat dir c0 = (c, [])"
    using assms by (auto simp: Catalog.Load_def split: option.splits prod.splits if_splits)
  then have ok: "manifest_ok stat dir c0" using index_problems [of stat dir c0] by simp
  have same: "cat_Workflows c = cat_Workflows c0" "cat_Modules c = cat_Modules c0"
    "cat_CSVSchemas c = cat_CSVSchemas c0" using c0 by (auto simp: index_def split: prod.splits)
  have "workflow_ok stat dir c w" if "Workflow c i = Some w" for i w
  proof -
    have "List.find (\<lambda>w. w_ID w = i) (cat_Workflows c0) = Some w"
      using index_Workflow [OF ok, of i] c0 that by simp
    then have "w \<in> set (cat_Workflows c0)" by (auto simp: find_Some_iff)
    then show ?thesis using ok same by (simp add: manifest_ok_def workflow_ok_def)
  qed
  then show ?thesis by (simp add: workflows_ok_def)
qed

lemma realMain_Serving:
  assumes "realMain fl w = Serving srv rt s0 killed"
  obtains st n m where "config_Load (wo_around w) = (srv_cfg srv, [])"
    "Catalog.Load (wo_ReadFile w) (wo_Unmarshal w) (wo_Marshal w) (wo_Decode w)
       (\<lambda>p. so_Stat (wo_around w) p \<noteq> None) (ManifestPath (srv_cfg srv)) (cfg_AutomationDir (srv_cfg srv)) =
     Inr (srv_catalog srv)"
    "Recover (wo_ReadDir w) (wo_Persist w) (wo_Now w) (NewStore\<lparr>disk := wo_Runs w\<rparr>) = ((st, killed, n, m), None)"
    "s0 = sys_start st (cfg_RunsDir (srv_cfg srv)) (nat (cfg_MaxConcurrent (srv_cfg srv)))
       (nat (cfg_QueueDepth (srv_cfg srv)))"
  using assms by (auto simp: realMain_def httpapi_New_def split: if_splits prod.splits sum.splits option.splits)

text \<open>From any state the shutdown ends the context and closes the queue, and touches nothing else.\<close>

lemma shutdown_closes:
  "\<exists>s'. sys_run shutdown s = Some s' \<and> q_closed (s_queue s') \<and> q_ctxDone (s_queue s') \<and>
     q_store (s_queue s') = q_store (s_queue s) \<and> s_workers s' = s_workers s"
  by (simp add: shutdown_def close_jobs_def)

section \<open>Properties\<close>

text \<open>
  C9. A server that comes up is in order: its configuration is valid, every workflow that a client can name is consistent with the
  repository, the table it starts from holds finished runs only, and in every interleaving of the requests, the
  workers and the shutdown that follow there are never more running runs than \<open>MaxConcurrent\<close> nor more waiting jobs than
  \<open>QueueDepth\<close>, both at least one.
\<close>

theorem serving_in_order:
  assumes "realMain fl w = Serving srv rt s0 killed" "sys_reach s0 s"
  shows "config_ok (wo_around w) (srv_cfg srv) \<and>
    workflows_ok (\<lambda>p. so_Stat (wo_around w) p \<noteq> None) (cfg_AutomationDir (srv_cfg srv)) (srv_catalog srv) \<and>
    Schedule.recovered (q_store (s_queue s0)) \<and>
    int (fst (Counts (q_store (s_queue s)))) \<le> cfg_MaxConcurrent (srv_cfg srv) \<and>
    int (length (q_jobs (s_queue s))) \<le> cfg_QueueDepth (srv_cfg srv)"
proof -
  obtain st n m where b: "config_Load (wo_around w) = (srv_cfg srv, [])"
    "Catalog.Load (wo_ReadFile w) (wo_Unmarshal w) (wo_Marshal w) (wo_Decode w)
       (\<lambda>p. so_Stat (wo_around w) p \<noteq> None) (ManifestPath (srv_cfg srv)) (cfg_AutomationDir (srv_cfg srv)) =
     Inr (srv_catalog srv)"
    "Recover (wo_ReadDir w) (wo_Persist w) (wo_Now w) (NewStore\<lparr>disk := wo_Runs w\<rparr>) = ((st, killed, n, m), None)"
    "s0 = sys_start st (cfg_RunsDir (srv_cfg srv)) (nat (cfg_MaxConcurrent (srv_cfg srv)))
       (nat (cfg_QueueDepth (srv_cfg srv)))"
    by (rule realMain_Serving [OF assms(1)])
  have c: "config_ok (wo_around w) (srv_cfg srv)"
    using load_shape [OF b(1)] by (metis validate_Nil)
  have r: "Schedule.recovered st" by (rule Recover_recovered [OF b(3)]) (simp add: NewStore_def)
  have "fst (Counts (q_store (s_queue s))) \<le> nat (cfg_MaxConcurrent (srv_cfg srv)) \<and>
      length (q_jobs (s_queue s)) \<le> nat (cfg_QueueDepth (srv_cfg srv))"
    by (rule bounded_by_workers [OF r assms(2) [unfolded b(4)]])
  moreover have "q_store (s_queue s0) = st" by (simp add: b(4) sys_start_def NewQueue_def)
  ultimately show ?thesis
    using c r Load_workflows_ok [OF b(2)] by (simp add: config_ok_def) linarith
qed

definition sample_world :: world where
  "sample_world =
     \<lparr>wo_around = sample_surroundings\<lparr>so_Stat := (\<lambda>p. Some True)\<rparr>, wo_ReadFile = (\<lambda>p. Some ''{}''),
      wo_Unmarshal = (\<lambda>s. Some (JObj [])), wo_Marshal = (\<lambda>j. Some ''{}''), wo_Decode = (\<lambda>s. Some sample_catalog),
      wo_Runs = disk crashed_store, wo_ReadDir = ReadDirOk, wo_Persist = working_disk, wo_Now = 7\<rparr>"

theorem serving_in_order_witness:
  "\<exists>srv rt s0. realMain \<lparr>fl_check = False, fl_version = False\<rparr> sample_world = Serving srv rt s0 [42] \<and>
     int (fst (Counts (q_store (s_queue s0)))) \<le> cfg_MaxConcurrent (srv_cfg srv)"
proof -
  have "(case realMain \<lparr>fl_check = False, fl_version = False\<rparr> sample_world of
      Serving srv rt s0 killed \<Rightarrow> killed = [42] | _ \<Rightarrow> False)" by code_simp
  then obtain srv rt s0 where
    s: "realMain \<lparr>fl_check = False, fl_version = False\<rparr> sample_world = Serving srv rt s0 [42]"
    by (auto split: booted.splits)
  from serving_in_order [OF s sys_init] s show ?thesis by blast
qed

end
