(* ===== verification/Process.thy ===== *)
theory Process
  imports Startup Races
begin

text \<open>
  The life of the server process after \<open>realMain\<close> of \<open>cmd/pstad/main.go\<close> has started the queue: it serves until the listener
  fails or a signal comes, shuts the HTTP server down within the grace period, closes the queue and waits for the workers. The
  threads of the theory Interleave move in between. \<open>http.Server.Shutdown\<close> refuses new connections and returns when every
  request is answered, or with an error when its context has expired.
\<close>

section \<open>Phases\<close>

text \<open>From \<open>Stopping\<close> on, the phase tells whether \<open>Shutdown\<close> returned without an error.\<close>

datatype phase = Listening | ListenerFailed | Signalled | Draining | Stopping bool | Waiting bool | Stopped bool

record process =
  p_sys :: sys
  p_phase :: phase

datatype pevent = Threads event | Signal | ListenFails | BeginShutdown | Drained | GraceOver | CloseJobs | WorkersLeft

fun alive :: "phase \<Rightarrow> bool" where
  "alive ListenerFailed = False"
| "alive (Stopped g) = False"
| "alive _ = True"

text \<open>What the threads may do in a phase: only the main thread ends the context and closes the queue.\<close>

fun permitted :: "phase \<Rightarrow> event \<Rightarrow> bool" where
  "permitted ph (Arrives c) = (ph = Listening \<or> ph = Signalled)"
| "permitted ph ContextEnds = False"
| "permitted ph JobsClose = False"
| "permitted ph (ClientMoves k c) = alive ph"
| "permitted ph (WorkerMoves k c) = alive ph"

fun is_answered :: "client \<Rightarrow> bool" where
  "is_answered (Answered y) = True"
| "is_answered _ = False"

definition answered :: "sys \<Rightarrow> bool" where
  "answered s \<longleftrightarrow> list_all is_answered (s_clients s)"

lemma is_answered_iff: "is_answered x \<longleftrightarrow> (\<exists>y. x = Answered y)"
  by (cases x) simp_all

fun proc_step :: "pevent \<Rightarrow> process \<Rightarrow> process option" where
  "proc_step (Threads e) p =
     (if permitted (p_phase p) e then map_option (\<lambda>s. p\<lparr>p_sys := s\<rparr>) (sys_step e (p_sys p)) else None)"
| "proc_step Signal p =
     (if p_phase p = Listening
      then map_option (\<lambda>s. \<lparr>p_sys = s, p_phase = Signalled\<rparr>) (sys_step ContextEnds (p_sys p)) else None)"
| "proc_step ListenFails p =
     (if p_phase p = Listening \<or> p_phase p = Signalled then Some (p\<lparr>p_phase := ListenerFailed\<rparr>) else None)"
| "proc_step BeginShutdown p = (if p_phase p = Signalled then Some (p\<lparr>p_phase := Draining\<rparr>) else None)"
| "proc_step Drained p =
     (if p_phase p = Draining \<and> answered (p_sys p) then Some (p\<lparr>p_phase := Stopping True\<rparr>) else None)"
| "proc_step GraceOver p = (if p_phase p = Draining then Some (p\<lparr>p_phase := Stopping False\<rparr>) else None)"
| "proc_step CloseJobs p =
     (case p_phase p of
        Stopping g \<Rightarrow> map_option (\<lambda>s. \<lparr>p_sys = s, p_phase = Waiting g\<rparr>) (sys_step JobsClose (p_sys p))
      | _ \<Rightarrow> None)"
| "proc_step WorkersLeft p =
     (case p_phase p of
        Waiting g \<Rightarrow> if list_all (\<lambda>w. w = Exited) (s_workers (p_sys p)) then Some (p\<lparr>p_phase := Stopped g\<rparr>) else None
      | _ \<Rightarrow> None)"

inductive proc_reach :: "process \<Rightarrow> process \<Rightarrow> bool" for p0 where
  proc_init: "proc_reach p0 p0"
| proc_next: "proc_reach p0 p \<Longrightarrow> proc_step e p = Some p' \<Longrightarrow> proc_reach p0 p'"

fun proc_run :: "pevent list \<Rightarrow> process \<Rightarrow> process option" where
  "proc_run [] p = Some p"
| "proc_run (e # es) p = Option.bind (proc_step e p) (proc_run es)"

lemma proc_run_reach: "proc_run es p = Some p' \<Longrightarrow> proc_reach p0 p \<Longrightarrow> proc_reach p0 p'"
  by (induction es arbitrary: p) (auto split: bind_splits intro: proc_next)

definition serving :: "sys \<Rightarrow> process" where
  "serving s = \<lparr>p_sys = s, p_phase = Listening\<rparr>"

section \<open>The process is one of the interleavings\<close>

lemma proc_step_sys:
  assumes "proc_step e p = Some p'"
  shows "p_sys p' = p_sys p \<or> (\<exists>e'. sys_step e' (p_sys p) = Some (p_sys p'))"
  using assms
proof (cases e)
  case (Threads e')
  with assms show ?thesis by (auto split: if_splits)
next
  case Signal
  with assms have "sys_step ContextEnds (p_sys p) = Some (p_sys p')" by (auto split: if_splits)
  then show ?thesis by blast
next
  case CloseJobs
  with assms have "sys_step JobsClose (p_sys p) = Some (p_sys p')" by (auto split: phase.splits)
  then show ?thesis by blast
qed (auto split: if_splits phase.splits)

interpretation server: simulated proc_step "\<lambda>p. True" p_sys "moves sys_step"
  by unfold_locales (use proc_step_sys in \<open>auto simp: moves_def\<close>)

lemma proc_reach_moves: "proc_reach p0 p \<Longrightarrow> (moves proc_step)\<^sup>*\<^sup>* p0 p"
  by (induction rule: proc_reach.induct) (auto intro: rtranclp.rtrancl_into_rtrancl movesI)

lemma proc_reach_sys: "proc_reach p0 p \<Longrightarrow> sys_reach (p_sys p0) (p_sys p)"
  unfolding sys_reach_moves by (rule server.reach_sim) (auto intro: proc_reach_moves)

section \<open>The order of the shutdown\<close>

text \<open>A submission panics only on a closed queue.\<close>

lemma client_panics:
  assumes "client_step c x q = Some (Answered (SubmitPanicked i), q')"
  shows "q_closed q"
  using assms
  by (cases x) (auto simp: submit_send_def update_run_def split: if_splits option.splits prod.splits send_result.splits)

definition unpanicked :: "sys \<Rightarrow> bool" where
  "unpanicked s \<longleftrightarrow> (\<forall>i. Answered (SubmitPanicked i) \<notin> set (s_clients s))"

text \<open>Until \<open>Stop\<close> the queue is open, and after a graceful shutdown no request is left.\<close>

fun in_order :: "phase \<Rightarrow> sys \<Rightarrow> bool" where
  "in_order Listening s = (\<not> q_closed (s_queue s) \<and> unpanicked s)"
| "in_order ListenerFailed s = True"
| "in_order Signalled s = (\<not> q_closed (s_queue s) \<and> unpanicked s)"
| "in_order Draining s = (\<not> q_closed (s_queue s) \<and> unpanicked s)"
| "in_order (Stopping g) s = (\<not> q_closed (s_queue s) \<and> unpanicked s \<and> (g \<longrightarrow> answered s))"
| "in_order (Waiting g) s = (g \<longrightarrow> answered s \<and> unpanicked s)"
| "in_order (Stopped g) s = ((g \<longrightarrow> answered s \<and> unpanicked s) \<and> (\<forall>w \<in> set (s_workers s). w = Exited))"

lemma threads_open:
  assumes "sys_step e s = Some s'" "e \<noteq> JobsClose" "\<not> q_closed (s_queue s)" "unpanicked s"
  shows "\<not> q_closed (s_queue s') \<and> unpanicked s'"
proof (cases e)
  case (Arrives c)
  with assms show ?thesis
    by (cases "(s, c)" rule: arrival_ok.cases) (auto simp: unpanicked_def split: if_splits)
next
  case (ClientMoves k c)
  then obtain x' q' where st: "client_step c (s_clients s ! k) (s_queue s) = Some (x', q')"
    and s': "s' = s\<lparr>s_queue := q', s_clients := (s_clients s)[k := x']\<rparr>"
    using assms(1) by (auto split: if_splits)
  have "x' \<noteq> Answered (SubmitPanicked i)" for i using client_panics st assms(3) by blast
  with assms(4) have "unpanicked s'"
    using set_update_subset_insert [of "s_clients s" k x'] unfolding unpanicked_def s' by auto
  with client_frame [OF st] assms(3) s' show ?thesis by simp
next
  case (WorkerMoves k c)
  with assms show ?thesis by (auto simp: unpanicked_def dest!: worker_frame split: if_splits)
qed (use assms in \<open>auto simp: unpanicked_def\<close>)

lemma threads_answered:
  assumes "sys_step e s = Some s'" "\<And>c. e \<noteq> Arrives c" "answered s"
  shows "s_clients s' = s_clients s"
proof (cases e)
  case (ClientMoves k c)
  then have "k < length (s_clients s)" using assms(1) by (auto split: if_splits)
  then obtain y where "s_clients s ! k = Answered y"
    using assms(3) by (auto simp: answered_def list_all_length is_answered_iff)
  with assms(1) ClientMoves show ?thesis by (auto split: if_splits)
qed (use assms in \<open>auto split: if_splits\<close>)

lemma in_order_step:
  assumes "proc_step e p = Some p'" "in_order (p_phase p) (p_sys p)"
  shows "in_order (p_phase p') (p_sys p')"
proof (cases e)
  case (Threads e')
  then have st: "sys_step e' (p_sys p) = Some (p_sys p')" "p_phase p' = p_phase p" "permitted (p_phase p) e'"
    using assms(1) by (auto split: if_splits)
  have only: "e' \<noteq> JobsClose" "e' \<noteq> ContextEnds" "\<And>c. e' = Arrives c \<Longrightarrow> p_phase p = Listening \<or> p_phase p = Signalled"
    "alive (p_phase p)" using st(3) by (cases e'; auto)+
  note op = threads_open [OF st(1) only(1)]
  have ans: "answered (p_sys p') \<and> (unpanicked (p_sys p) \<longrightarrow> unpanicked (p_sys p'))"
    if "answered (p_sys p)" "p_phase p \<noteq> Listening" "p_phase p \<noteq> Signalled"
  proof -
    have "s_clients (p_sys p') = s_clients (p_sys p)" using threads_answered [OF st(1)] only(3) that by blast
    with that(1) show ?thesis by (simp add: answered_def unpanicked_def)
  qed
  show ?thesis
  proof (cases "p_phase p")
    case (Stopping g)
    with assms(2) st(2) op ans show ?thesis by auto
  next
    case (Waiting g)
    with assms(2) st(2) ans show ?thesis by auto
  qed (use assms(2) st(2) op only in auto)
next
  case Signal
  with assms show ?thesis by (auto simp: unpanicked_def split: if_splits)
next
  case CloseJobs
  with assms show ?thesis by (auto simp: unpanicked_def answered_def split: phase.splits)
qed (use assms in \<open>auto simp: list_all_iff split: if_splits phase.splits\<close>)

interpretation ordered: kept proc_step "\<lambda>p. in_order (p_phase p) (p_sys p)"
  by unfold_locales (rule in_order_step)

lemma in_order_reach:
  "proc_reach p0 p \<Longrightarrow> in_order (p_phase p0) (p_sys p0) \<Longrightarrow> in_order (p_phase p) (p_sys p)"
  using ordered.reach_kept proc_reach_moves by blast

text \<open>What is left of the runs when every worker has gone.\<close>

lemma left_behind:
  assumes "life_inv l" "l_workers l \<noteq> []" "\<forall>w \<in> set (l_workers l). w = WExit" "l_states l i = Some st"
  shows "l_chan l = []" "Terminal st \<or> st = StateQueued \<and> (\<exists>c \<in> set (l_clients l). i \<in> set (client_ids c) \<or> c = CStranded i)"
proof -
  obtain w where "w \<in> set (l_workers l)" using assms(2) by (cases "l_workers l") auto
  with assms(1,3) have "worker_inv l WExit" by (auto simp: life_inv_def)
  then show ch: "l_chan l = []" by (simp add: worker_inv_def)
  have "concat (map worker_ids (l_workers l)) = []" "WRun i \<notin> set (l_workers l)" using assms(3) by auto
  moreover have "account l i" using assms(1) by (simp add: life_inv_def accounted_def)
  ultimately show "Terminal st \<or> st = StateQueued \<and> (\<exists>c \<in> set (l_clients l). i \<in> set (client_ids c) \<or> c = CStranded i)"
    using assms(4) ch by (auto simp: account_def owned_def)
qed

section \<open>Properties\<close>

text \<open>What the composition of the server gives to every later state of the process.\<close>

lemma serving_reach:
  assumes "realMain fl w = Serving srv rt s0 killed" "proc_reach (serving s0) p"
  shows "life_inv (life_of (p_sys p))" "s_workers (p_sys p) \<noteq> []"
    "p_phase p = ph \<Longrightarrow> in_order ph (p_sys p)"
proof -
  obtain st n m where b: "config_Load (wo_around w) = (srv_cfg srv, [])"
    "Recover (wo_ReadDir w) (wo_Persist w) (wo_Now w) (NewStore\<lparr>disk := wo_Runs w\<rparr>) = ((st, killed, n, m), None)"
    "s0 = sys_start st (cfg_RunsDir (srv_cfg srv)) (nat (cfg_MaxConcurrent (srv_cfg srv)))
       (nat (cfg_QueueDepth (srv_cfg srv)))"
    by (rule realMain_Serving [OF assms(1)]) blast
  have r: "Schedule.recovered st" by (rule Recover_recovered [OF b(2)]) (simp add: NewStore_def)
  have "config_ok (wo_around w) (srv_cfg srv)" using load_shape [OF b(1)] by (metis validate_Nil)
  then have pos: "0 < nat (cfg_MaxConcurrent (srv_cfg srv))" by (simp add: config_ok_def)
  have reach: "sys_reach s0 (p_sys p)" using proc_reach_sys [OF assms(2)] by (simp add: serving_def)
  show "life_inv (life_of (p_sys p))" using reach_inv [OF r reach [unfolded b(3)]] by (simp add: sys_inv_def)
  have "length (s_workers (p_sys p)) = nat (cfg_MaxConcurrent (srv_cfg srv))"
    using sys_reach_depth [OF reach] by (simp add: b(3) sys_start_def)
  with pos show "s_workers (p_sys p) \<noteq> []" by auto
  show "in_order ph (p_sys p)" if "p_phase p = ph"
    using in_order_reach [OF assms(2)] that b(3)
    by (simp add: serving_def sys_start_def NewQueue_def unpanicked_def)
qed

text \<open>When every worker has left, the channel is empty.\<close>

lemma left_empty:
  assumes "life_inv (life_of s)" "s_workers s \<noteq> []" "\<forall>v \<in> set (s_workers s). v = Exited"
  shows "q_jobs (s_queue s) = []"
proof -
  have "WExit \<in> set (l_workers (life_of s))" using assms(2,3) by (cases "s_workers s") (auto simp: life_of_simps)
  with assms(1) have "worker_inv (life_of s) WExit" by (auto simp: life_inv_def)
  then show ?thesis by (simp add: worker_inv_def life_of_simps)
qed

text \<open>
  C10. How the process ends: when \<open>realMain\<close> returns after a signal, every worker has left its loop and the channel is empty, so
  no run is in the state running; if the HTTP server was shut down within the grace period, every run is finished,
  unless its record could not be written when it was created; otherwise a run that is not finished is queued
  and belongs to a request that was cut off or failed.
\<close>

theorem exit_clean:
  assumes "realMain fl w = Serving srv rt s0 killed" "proc_reach (serving s0) p" "p_phase p = Stopped g"
  shows "(\<forall>v \<in> set (s_workers (p_sys p)). v = Exited) \<and> q_jobs (s_queue (p_sys p)) = [] \<and>
    (\<forall>i r. Get (q_store (s_queue (p_sys p))) i = Some r \<longrightarrow>
       Terminal (r_State r) \<or>
       r_State r = StateQueued \<and>
         (if g then Answered (AddFailed i) \<in> set (s_clients (p_sys p))
          else \<exists>x \<in> set (s_clients (p_sys p)). i \<in> set (client_ids (client_phase (s_queue (p_sys p)) x)) \<or>
            client_phase (s_queue (p_sys p)) x = CStranded i))"
proof -
  let ?s = "p_sys p"
  note inv = serving_reach(1) [OF assms(1,2)] and ord = serving_reach(3) [OF assms]
  have ws: "s_workers ?s \<noteq> []" "\<forall>v \<in> set (s_workers ?s). v = Exited"
    using serving_reach(2) [OF assms(1,2)] ord by auto
  then have lw: "l_workers (life_of ?s) \<noteq> []" "\<forall>v \<in> set (l_workers (life_of ?s)). v = WExit"
    by (auto simp: life_of_simps)
  have left: "Terminal (r_State r) \<or> r_State r = StateQueued \<and>
      (\<exists>x \<in> set (s_clients ?s). i \<in> set (client_ids (client_phase (s_queue ?s) x)) \<or>
        client_phase (s_queue ?s) x = CStranded i)"
    if "Get (q_store (s_queue ?s)) i = Some r" for i r
    using left_behind(2) [OF inv lw, of i "r_State r"] that by (auto simp: life_of_simps states_of_def)
  have cut: "x = Answered (AddFailed i)"
    if c: "g" "x \<in> set (s_clients ?s)" "i \<in> set (client_ids (client_phase (s_queue ?s) x)) \<or> client_phase (s_queue ?s) x = CStranded i" for x i
  proof -
    obtain y where y: "x = Answered y" using ord c(1,2) by (auto simp: answered_def list_all_iff is_answered_iff)
    have "y \<noteq> SubmitPanicked i" using ord c(1,2) y by (auto simp: unpanicked_def)
    with y c(3) show ?thesis by (cases y) auto
  qed
  have empty: "q_jobs (s_queue ?s) = []" by (rule left_empty [OF inv ws])
  from left cut ws empty show ?thesis by (fastforce split: if_splits)
qed

text \<open>A request that waits at the signal and is answered; then the workers leave and the process ends.\<close>

definition orderly :: "pevent list" where
  "orderly = [Threads (Arrives (CancelCheck ''b'')), Signal, BeginShutdown, Threads (ClientMoves 0 quiet_call), Drained,
     CloseJobs, Threads (WorkerMoves 0 quiet_call), Threads (WorkerMoves 1 quiet_call), WorkersLeft]"

theorem exit_clean_witness:
  "\<exists>srv rt s0 p. realMain \<lparr>fl_check = False, fl_version = False\<rparr> sample_world = Serving srv rt s0 [42] \<and>
     proc_reach (serving s0) p \<and> p_phase p = Stopped True \<and>
     (\<forall>i r. Get (q_store (s_queue (p_sys p))) i = Some r \<longrightarrow>
        Terminal (r_State r) \<or> r_State r = StateQueued \<and> Answered (AddFailed i) \<in> set (s_clients (p_sys p)))"
proof -
  have "(case realMain \<lparr>fl_check = False, fl_version = False\<rparr> sample_world of
      Serving srv rt s0 killed \<Rightarrow>
        killed = [42] \<and> map_option p_phase (proc_run orderly (serving s0)) = Some (Stopped True)
    | _ \<Rightarrow> False)" by code_simp
  then obtain srv rt s0 p where
    s: "realMain \<lparr>fl_check = False, fl_version = False\<rparr> sample_world = Serving srv rt s0 [42]"
    and p: "proc_run orderly (serving s0) = Some p" "p_phase p = Stopped True"
    by (auto split: booted.splits)
  have r: "proc_reach (serving s0) p" by (rule proc_run_reach [OF p(1) proc_init])
  from exit_clean [OF s r p(2)] s r p(2) show ?thesis
    by (intro exI [of _ srv] exI [of _ rt] exI [of _ s0] exI [of _ p]) auto
qed

section \<open>A listener that fails\<close>

text \<open>
  When the listener fails while the server runs, \<open>realMain\<close> returns at once, without \<open>Stop\<close>: a run that is being executed is left
  in the state running, in memory and in \<open>meta.json\<close>, and its process tree is left to the next start.
\<close>

definition busy_failure :: "pevent list" where
  "busy_failure = Threads submits # map Threads (requests 4 0) @ map Threads (works 6) @ [ListenFails]"

theorem listener_failure_leaves_run:
  "\<exists>p. proc_reach (serving fresh) p \<and> p_phase p = ListenerFailed \<and> mem_state (p_sys p) = Some StateRunning \<and>
     disk_state (p_sys p) = Some StateRunning"
proof -
  have "map_option (\<lambda>p. (p_phase p, mem_state (p_sys p), disk_state (p_sys p))) (proc_run busy_failure (serving fresh)) =
      Some (ListenerFailed, Some StateRunning, Some StateRunning)" by code_simp
  then obtain p where "proc_run busy_failure (serving fresh) = Some p" "p_phase p = ListenerFailed"
    "mem_state (p_sys p) = Some StateRunning" "disk_state (p_sys p) = Some StateRunning" by auto
  then show ?thesis using proc_run_reach [OF _ proc_init] by blast
qed

end
