(* ===== verification/Encoding.thy ===== *)
theory Encoding
  imports Store Catalog "HOL-Library.Monad_Syntax"
begin

text \<open>
  The JSON of a run: what the struct tags of \<open>internal/run/run.go\<close> make \<open>json.MarshalIndent\<close> write to \<open>meta.json\<close> and to a
  response, and what \<open>json.Unmarshal\<close> makes of a file at the restart. A document is the decoded value of the theory Catalog;
  the text of an instant is a parameter, because it depends on the zone of the server.
\<close>

section \<open>Text\<close>

text \<open>
  \<open>encoding/json\<close> writes text as UTF-8 and replaces each byte that is not part of an encoded character by the replacement
  character (bytes EF BF BD). The length of the first character, 0 if it is none, is that of \<open>utf8.DecodeRune\<close>.
\<close>

definition within :: "nat \<Rightarrow> nat \<Rightarrow> go_string \<Rightarrow> nat \<Rightarrow> bool" where
  "within lo hi s k \<longleftrightarrow> k < length s \<and> lo \<le> of_char (s ! k) \<and> of_char (s ! k) \<le> (hi :: nat)"

fun rune_len :: "go_string \<Rightarrow> nat" where
  "rune_len [] = 0"
| "rune_len (c # cs) =
     (let b = of_char c :: nat in
      if b < 128 then 1
      else if 194 \<le> b \<and> b \<le> 223 then (if within 128 191 cs 0 then 2 else 0)
      else if 224 \<le> b \<and> b \<le> 239 then
        (if within (if b = 224 then 160 else 128) (if b = 237 then 159 else 191) cs 0 \<and> within 128 191 cs 1
         then 3 else 0)
      else if 240 \<le> b \<and> b \<le> 244 then
        (if within (if b = 240 then 144 else 128) (if b = 244 then 143 else 191) cs 0 \<and> within 128 191 cs 1 \<and>
            within 128 191 cs 2
         then 4 else 0)
      else 0)"

definition replacement :: go_string where
  "replacement = [CHR 0xEF, CHR 0xBF, CHR 0xBD]"

function to_valid :: "go_string \<Rightarrow> go_string" where
  "to_valid [] = []"
| "to_valid (c # cs) =
     (if rune_len (c # cs) = 0 then replacement @ to_valid cs
      else take (rune_len (c # cs)) (c # cs) @ to_valid (drop (rune_len (c # cs) - 1) cs))"
  by pat_completeness auto

termination to_valid
  by (relation "measure length") (auto simp: less_Suc_eq_le)

function valid_text :: "go_string \<Rightarrow> bool" where
  "valid_text [] = True"
| "valid_text (c # cs) = (rune_len (c # cs) \<noteq> 0 \<and> valid_text (drop (rune_len (c # cs) - 1) cs))"
  by pat_completeness auto

termination valid_text
  by (relation "measure length") (auto simp: less_Suc_eq_le)

declare rune_len.simps [simp del] to_valid.simps(2) [simp del] valid_text.simps(2) [simp del]

lemma take_drop_rune: "n \<noteq> 0 \<Longrightarrow> take n (c # cs) @ drop (n - 1) cs = c # cs"
  by (cases n) simp_all

lemma to_valid_id: "valid_text s \<Longrightarrow> to_valid s = s"
proof (induction s rule: valid_text.induct)
  case (2 c cs)
  then show ?case using take_drop_rune [of "rune_len (c # cs)" c cs] by (simp add: valid_text.simps to_valid.simps)
qed simp

text \<open>The length of the first character does not depend on what follows it.\<close>

lemma within_take: "k < m \<Longrightarrow> m \<le> length cs \<Longrightarrow> within lo hi (take m cs @ t) k = within lo hi cs k"
  by (simp add: within_def nth_append)

lemma rune_len_cases:
  assumes "rune_len (c # cs) \<noteq> 0"
  obtains "rune_len (c # cs) = 1" "of_char c < (128 :: nat)"
  | n where "rune_len (c # cs) = Suc n" "n \<le> length cs" "n \<in> {1, 2, 3}"
    "\<And>ds. (\<And>lo hi k. k < n \<Longrightarrow> within lo hi ds k = within lo hi cs k) \<Longrightarrow> rune_len (c # ds) = Suc n"
proof -
  let ?b = "of_char c :: nat"
  consider "?b < 128" | "194 \<le> ?b" "?b \<le> 223" | "224 \<le> ?b" "?b \<le> 239" | "240 \<le> ?b" "?b \<le> 244"
    using assms by (fastforce simp: rune_len.simps Let_def split: if_splits)
  then show thesis
  proof cases
    case 1
    then show thesis by (intro that(1)) (simp_all add: rune_len.simps)
  next
    case 2
    with assms have w: "within 128 191 cs 0" by (simp add: rune_len.simps split: if_splits)
    then have "1 \<le> length cs" by (cases cs) (simp_all add: within_def)
    with 2 w show thesis by (intro that(2) [of 1]) (simp_all add: rune_len.simps)
  next
    case 3
    then have w: "within (if ?b = 224 then 160 else 128) (if ?b = 237 then 159 else 191) cs 0 \<and> within 128 191 cs 1"
      using assms by (simp add: rune_len.simps Let_def split: if_splits)
    then have "2 \<le> length cs" by (simp add: within_def)
    with 3 w show thesis by (intro that(2) [of 2]) (simp_all add: rune_len.simps Let_def)
  next
    case 4
    then have w: "within (if ?b = 240 then 144 else 128) (if ?b = 244 then 143 else 191) cs 0 \<and> within 128 191 cs 1 \<and>
        within 128 191 cs 2"
      using assms by (simp add: rune_len.simps Let_def split: if_splits)
    then have "3 \<le> length cs" by (simp add: within_def)
    with 4 w show thesis by (intro that(2) [of 3]) (simp_all add: rune_len.simps Let_def)
  qed
qed

lemma rune_len_prefix:
  assumes "rune_len (c # cs) \<noteq> 0"
  shows "rune_len (take (rune_len (c # cs)) (c # cs) @ t) = rune_len (c # cs)"
    "rune_len (c # cs) \<le> Suc (length cs)"
proof (atomize (full), cases rule: rune_len_cases [OF assms])
  case 1
  then show "rune_len (take (rune_len (c # cs)) (c # cs) @ t) = rune_len (c # cs) \<and>
      rune_len (c # cs) \<le> Suc (length cs)"
    by (simp add: rune_len.simps)
next
  case (2 n)
  then show "rune_len (take (rune_len (c # cs)) (c # cs) @ t) = rune_len (c # cs) \<and>
      rune_len (c # cs) \<le> Suc (length cs)"
    using 2(4) [of "take n cs @ t"] within_take by simp
qed

lemma valid_to_valid: "valid_text (to_valid s)"
proof (induction s rule: to_valid.induct)
  case (2 c cs)
  let ?n = "rune_len (c # cs)"
  show ?case
  proof (cases "?n = 0")
    case True
    have "rune_len (replacement @ t) = 3" for t
      by (simp add: replacement_def rune_len.simps within_def)
    with 2 True show ?thesis by (simp add: to_valid.simps replacement_def valid_text.simps)
  next
    case False
    then have p: "rune_len (take ?n (c # cs) @ t) = ?n" for t by (rule rune_len_prefix(1))
    have "take ?n (c # cs) = c # take (?n - 1) cs" using False by (cases ?n) simp_all
    moreover have "length (take (?n - 1) cs) = ?n - 1" using rune_len_prefix(2) [OF False] by simp
    ultimately show ?thesis using 2 False p by (simp add: to_valid.simps valid_text.simps)
  qed
qed simp

section \<open>Encoding\<close>

text \<open>The fields of a struct that are written: a field with \<open>omitempty\<close> is absent when it is empty.\<close>

definition present :: "(go_string \<times> json option) list \<Rightarrow> (go_string \<times> json) list" where
  "present fs = List.map_filter (\<lambda>kv. map_option (Pair (fst kv)) (snd kv)) fs"

definition jstr :: "go_string \<Rightarrow> json" where
  "jstr s = JStr (to_valid s)"

definition jint :: "int \<Rightarrow> json" where
  "jint n = JNum (itoa n)"

definition omit_str :: "go_string \<Rightarrow> json option" where
  "omit_str s = (if s = [] then None else Some (jstr s))"

definition omit_int :: "int \<Rightarrow> json option" where
  "omit_int n = (if n = 0 then None else Some (jint n))"

definition artifact_fields :: "artifact \<Rightarrow> (go_string \<times> json option) list" where
  "artifact_fields a =
     [(''id'', Some (jstr (art_ID a))), (''kind'', Some (jstr (art_Kind a))), (''name'', Some (jstr (art_Name a))),
      (''testTitle'', omit_str (art_TestTitle a)), (''size'', Some (jint (art_Size a))),
      (''sensitive'', Some (JBool (art_Sensitive a)))]"

definition encode_artifact :: "artifact \<Rightarrow> json" where
  "encode_artifact a = JObj (present (artifact_fields a))"

definition test_fields :: "test_result \<Rightarrow> (go_string \<times> json option) list" where
  "test_fields t =
     [(''title'', Some (jstr (tr_Title t))), (''status'', Some (jstr (tr_Status t))),
      (''durationMs'', Some (jint (tr_Duration t))), (''error'', omit_str (tr_Error t))]"

definition encode_test :: "test_result \<Rightarrow> json" where
  "encode_test t = JObj (present (test_fields t))"

text \<open>A list without \<open>omitempty\<close> that was never appended to is \<open>nil\<close> and is written as \<open>null\<close>.\<close>

definition summary_fields :: "summary \<Rightarrow> (go_string \<times> json option) list" where
  "summary_fields s =
     [(''total'', Some (jint (sum_Total s))), (''passed'', Some (jint (sum_Passed s))),
      (''failed'', Some (jint (sum_Failed s))), (''skipped'', Some (jint (sum_Skipped s))),
      (''flaky'', Some (jint (sum_Flaky s))), (''durationMs'', Some (jint (sum_Duration s))),
      (''tests'', Some (if sum_Tests s = [] then JNull else JArr (map encode_test (sum_Tests s))))]"

definition encode_summary :: "summary \<Rightarrow> json" where
  "encode_summary s = JObj (present (summary_fields s))"

text \<open>A map is written in the order of its keys.\<close>

definition encode_params :: "(go_string, go_string) gomap \<Rightarrow> json" where
  "encode_params m = JObj (map (\<lambda>kv. (to_valid (fst kv), jstr (snd kv))) (sort_key fst m))"

definition run_fields :: "(int \<Rightarrow> go_string) \<Rightarrow> run \<Rightarrow> (go_string \<times> json option) list" where
  "run_fields tf r =
     [(''id'', Some (jstr (r_ID r))), (''workflowId'', Some (jstr (r_WorkflowID r))), (''env'', Some (jstr (r_Env r))),
      (''submittedBy'', omit_str (r_SubmittedBy r)), (''state'', Some (jstr (r_State r))),
      (''error'', omit_str (r_Error r)), (''queuedAt'', Some (JStr (tf (r_QueuedAt r)))),
      (''startedAt'', map_option (\<lambda>t. JStr (tf t)) (r_StartedAt r)),
      (''endedAt'', map_option (\<lambda>t. JStr (tf t)) (r_EndedAt r)),
      (''timeoutSeconds'', Some (jint (r_TimeoutSeconds r))), (''exitCode'', map_option jint (r_ExitCode r)),
      (''params'', if r_Params r = [] then None else Some (encode_params (r_Params r))),
      (''summary'', map_option encode_summary (r_Summary r)),
      (''artifacts'', if r_Artifacts r = [] then None else Some (JArr (map encode_artifact (r_Artifacts r)))),
      (''pid'', omit_int (r_PID r)), (''queuePosition'', omit_int (r_QueuePosition r))]"

definition encode_run :: "(int \<Rightarrow> go_string) \<Rightarrow> run \<Rightarrow> json" where
  "encode_run tf r = JObj (present (run_fields tf r))"

section \<open>Decoding\<close>

text \<open>
  A field takes the value of the last key that folds to its name; \<open>null\<close> and an absent key leave the zero value; a value
  of another type is an error. Keys without a field are ignored.
\<close>

definition field :: "(go_string \<times> json) list \<Rightarrow> go_string \<Rightarrow> 'a \<Rightarrow> (json \<Rightarrow> 'a option) \<Rightarrow> 'a option" where
  "field kvs k zero f =
     (case List.find (\<lambda>kv. EqualFold (fst kv) k) (rev kvs) of
        None \<Rightarrow> Some zero
      | Some kv \<Rightarrow> if snd kv = JNull then Some zero else f (snd kv))"

fun get_str :: "json \<Rightarrow> go_string option" where
  "get_str (JStr s) = Some s"
| "get_str _ = None"

fun get_int :: "json \<Rightarrow> int option" where
  "get_int (JNum t) = parse_int64 t"
| "get_int _ = None"

fun get_bool :: "json \<Rightarrow> bool option" where
  "get_bool (JBool b) = Some b"
| "get_bool _ = None"

fun get_time :: "(go_string \<Rightarrow> int option) \<Rightarrow> json \<Rightarrow> int option" where
  "get_time tp (JStr s) = tp s"
| "get_time tp _ = None"

fun get_list :: "(json \<Rightarrow> 'a option) \<Rightarrow> json \<Rightarrow> 'a list option" where
  "get_list f (JArr js) = those (map f js)"
| "get_list f _ = None"

text \<open>An element \<open>null\<close> of a list or a map is the zero value.\<close>

definition or_zero :: "'a \<Rightarrow> (json \<Rightarrow> 'a option) \<Rightarrow> json \<Rightarrow> 'a option" where
  "or_zero zero f j = (if j = JNull then Some zero else f j)"

fun get_params :: "json \<Rightarrow> (go_string, go_string) gomap option" where
  "get_params (JObj kvs) =
     map_option (\<lambda>vs. fold (\<lambda>kv. AList.update (fst kv) (snd kv)) (zip (map fst kvs) vs) [])
       (those (map (\<lambda>kv. or_zero [] get_str (snd kv)) kvs))"
| "get_params _ = None"

fun get_artifact :: "json \<Rightarrow> artifact option" where
  "get_artifact (JObj kvs) =
     do { i \<leftarrow> field kvs ''id'' [] get_str; k \<leftarrow> field kvs ''kind'' [] get_str; n \<leftarrow> field kvs ''name'' [] get_str;
          t \<leftarrow> field kvs ''testTitle'' [] get_str; z \<leftarrow> field kvs ''size'' 0 get_int;
          s \<leftarrow> field kvs ''sensitive'' False get_bool;
          Some \<lparr>art_ID = i, art_Kind = k, art_Name = n, art_TestTitle = t, art_Size = z, art_Sensitive = s, art_Rel = []\<rparr> }"
| "get_artifact _ = None"

fun get_test :: "json \<Rightarrow> test_result option" where
  "get_test (JObj kvs) =
     do { t \<leftarrow> field kvs ''title'' [] get_str; s \<leftarrow> field kvs ''status'' [] get_str;
          d \<leftarrow> field kvs ''durationMs'' 0 get_int; e \<leftarrow> field kvs ''error'' [] get_str;
          Some \<lparr>tr_Title = t, tr_Status = s, tr_Duration = d, tr_Error = e\<rparr> }"
| "get_test _ = None"

definition zero_test :: test_result where
  "zero_test = \<lparr>tr_Title = [], tr_Status = [], tr_Duration = 0, tr_Error = []\<rparr>"

definition zero_artifact :: artifact where
  "zero_artifact =
     \<lparr>art_ID = [], art_Kind = [], art_Name = [], art_TestTitle = [], art_Size = 0, art_Sensitive = False, art_Rel = []\<rparr>"

fun get_summary :: "json \<Rightarrow> summary option" where
  "get_summary (JObj kvs) =
     do { a \<leftarrow> field kvs ''total'' 0 get_int; b \<leftarrow> field kvs ''passed'' 0 get_int;
          c \<leftarrow> field kvs ''failed'' 0 get_int; d \<leftarrow> field kvs ''skipped'' 0 get_int;
          e \<leftarrow> field kvs ''flaky'' 0 get_int; f \<leftarrow> field kvs ''durationMs'' 0 get_int;
          ts \<leftarrow> field kvs ''tests'' [] (get_list (or_zero zero_test get_test));
          Some \<lparr>sum_Total = a, sum_Passed = b, sum_Failed = c, sum_Skipped = d, sum_Flaky = e, sum_Duration = f,
                sum_Tests = ts\<rparr> }"
| "get_summary _ = None"

definition pointer :: "(json \<Rightarrow> 'a option) \<Rightarrow> json \<Rightarrow> 'a option option" where
  "pointer f j = map_option Some (f j)"

fun decode_run :: "(go_string \<Rightarrow> int option) \<Rightarrow> json \<Rightarrow> run option" where
  "decode_run tp (JObj kvs) =
     do { i \<leftarrow> field kvs ''id'' [] get_str; w \<leftarrow> field kvs ''workflowId'' [] get_str;
          e \<leftarrow> field kvs ''env'' [] get_str; b \<leftarrow> field kvs ''submittedBy'' [] get_str;
          st \<leftarrow> field kvs ''state'' [] get_str; er \<leftarrow> field kvs ''error'' [] get_str;
          qa \<leftarrow> field kvs ''queuedAt'' 0 (get_time tp); sa \<leftarrow> field kvs ''startedAt'' None (pointer (get_time tp));
          ea \<leftarrow> field kvs ''endedAt'' None (pointer (get_time tp)); ts \<leftarrow> field kvs ''timeoutSeconds'' 0 get_int;
          ec \<leftarrow> field kvs ''exitCode'' None (pointer get_int); ps \<leftarrow> field kvs ''params'' [] get_params;
          su \<leftarrow> field kvs ''summary'' None (pointer get_summary);
          ar \<leftarrow> field kvs ''artifacts'' [] (get_list (or_zero zero_artifact get_artifact));
          pid \<leftarrow> field kvs ''pid'' 0 get_int; qp \<leftarrow> field kvs ''queuePosition'' 0 get_int;
          Some \<lparr>r_ID = i, r_WorkflowID = w, r_Env = e, r_SubmittedBy = b, r_State = st, r_Error = er, r_QueuedAt = qa,
                r_StartedAt = sa, r_EndedAt = ea, r_TimeoutSeconds = ts, r_ExitCode = ec, r_Params = ps, r_Summary = su,
                r_Artifacts = ar, r_PID = pid, r_QueuePosition = qp\<rparr> }"
| "decode_run tp JNull = Some zero_run"
| "decode_run tp _ = None"

section \<open>Reading back what was written\<close>

lemma find_the_one:
  assumes "x \<in> set xs" "P x" "\<And>y. y \<in> set xs \<Longrightarrow> P y \<Longrightarrow> y = x"
  shows "List.find P xs = Some x"
proof (cases "List.find P xs")
  case None
  with assms(1,2) show ?thesis by (auto simp: find_None_iff)
next
  case (Some y)
  then have "y \<in> set xs" "P y" by (auto simp: find_Some_iff)
  with assms(3) Some show ?thesis by simp
qed

lemma set_present: "set (present fs) = {(k, j). (k, Some j) \<in> set fs}"
  by (force simp: present_def map_filter_def)

text \<open>A field of a written struct is read from its own key, when no two names of the struct fold to the same.\<close>

lemma field_present:
  assumes "distinct (map fold_case (map fst fs))" "map_of fs k = Some v"
  shows "field (present fs) k zero f =
    (case v of None \<Rightarrow> Some zero | Some j \<Rightarrow> if j = JNull then Some zero else f j)"
proof -
  have kv: "(k, v) \<in> set fs" using assms(2) by (rule map_of_SomeD)
  have same: "k' = k \<and> v' = v" if "(k', v') \<in> set fs" "EqualFold k' k" for k' v'
  proof -
    have "inj_on (fold_case \<circ> fst) (set fs)" using assms(1) unfolding map_map distinct_map by blast
    moreover have "(fold_case \<circ> fst) (k', v') = (fold_case \<circ> fst) (k, v)"
      using that(2) by (simp only: EqualFold_def comp_apply fst_conv)
    ultimately have "(k', v') = (k, v)" using that(1) kv by (rule inj_onD)
    then show ?thesis by simp
  qed
  show ?thesis
  proof (cases v)
    case None
    have "\<not> EqualFold (fst kv) k" if "kv \<in> set (present fs)" for kv
      using that same [of "fst kv" "Some (snd kv)"] None by (auto simp: set_present)
    then have "List.find (\<lambda>kv. EqualFold (fst kv) k) (rev (present fs)) = None"
      unfolding find_None_iff set_rev by blast
    with None show ?thesis by (simp add: field_def)
  next
    case (Some j)
    have only: "kv = (k, j)" if "kv \<in> set (present fs)" "EqualFold (fst kv) k" for kv
      using that same [of "fst kv" "Some (snd kv)"] Some by (auto simp: set_present)
    have "List.find (\<lambda>kv. EqualFold (fst kv) k) (rev (present fs)) = Some (k, j)"
    proof (rule find_the_one)
      show "(k, j) \<in> set (rev (present fs))" using kv Some by (simp add: set_present)
      show "EqualFold (fst (k, j)) k" by (simp add: EqualFold_def)
    qed (use only in \<open>unfold set_rev, blast\<close>)
    with Some show ?thesis by (simp add: field_def)
  qed
qed

lemma keys_distinct:
  "distinct (map fold_case (map fst (artifact_fields a)))" "distinct (map fold_case (map fst (test_fields t)))"
  "distinct (map fold_case (map fst (summary_fields s)))" "distinct (map fold_case (map fst (run_fields tf r)))"
proof -
  have "distinct (map fold_case [''id'', ''kind'', ''name'', ''testTitle'', ''size'', ''sensitive''])"
    "distinct (map fold_case [''title'', ''status'', ''durationMs'', ''error''])"
    "distinct (map fold_case [''total'', ''passed'', ''failed'', ''skipped'', ''flaky'', ''durationMs'', ''tests''])"
    "distinct (map fold_case [''id'', ''workflowId'', ''env'', ''submittedBy'', ''state'', ''error'', ''queuedAt'',
      ''startedAt'', ''endedAt'', ''timeoutSeconds'', ''exitCode'', ''params'', ''summary'', ''artifacts'', ''pid'', ''queuePosition''])"
    by code_simp+
  then show "distinct (map fold_case (map fst (artifact_fields a)))" "distinct (map fold_case (map fst (test_fields t)))"
    "distinct (map fold_case (map fst (summary_fields s)))" "distinct (map fold_case (map fst (run_fields tf r)))"
    unfolding artifact_fields_def test_fields_def summary_fields_def run_fields_def by simp_all
qed

lemmas struct_field = field_present [OF keys_distinct(1)] field_present [OF keys_distinct(2)]
  field_present [OF keys_distinct(3)] field_present [OF keys_distinct(4)]

text \<open>Which values survive: valid text, 64-bit integers, instants whose text reads back.\<close>

definition artifact_fit :: "artifact \<Rightarrow> bool" where
  "artifact_fit a \<longleftrightarrow> valid_text (art_ID a) \<and> valid_text (art_Kind a) \<and> valid_text (art_Name a) \<and>
     valid_text (art_TestTitle a) \<and> in_int64 (art_Size a)"

definition test_fit :: "test_result \<Rightarrow> bool" where
  "test_fit t \<longleftrightarrow> valid_text (tr_Title t) \<and> valid_text (tr_Status t) \<and> in_int64 (tr_Duration t) \<and> valid_text (tr_Error t)"

definition summary_fit :: "summary \<Rightarrow> bool" where
  "summary_fit s \<longleftrightarrow> in_int64 (sum_Total s) \<and> in_int64 (sum_Passed s) \<and> in_int64 (sum_Failed s) \<and>
     in_int64 (sum_Skipped s) \<and> in_int64 (sum_Flaky s) \<and> in_int64 (sum_Duration s) \<and> (\<forall>t \<in> set (sum_Tests s). test_fit t)"

definition run_times :: "run \<Rightarrow> int list" where
  "run_times r = [r_QueuedAt r] @ (case r_StartedAt r of None \<Rightarrow> [] | Some t \<Rightarrow> [t]) @
     (case r_EndedAt r of None \<Rightarrow> [] | Some t \<Rightarrow> [t])"

definition run_fit :: "run \<Rightarrow> bool" where
  "run_fit r \<longleftrightarrow>
     valid_text (r_ID r) \<and> valid_text (r_WorkflowID r) \<and> valid_text (r_Env r) \<and> valid_text (r_SubmittedBy r) \<and>
     valid_text (r_State r) \<and> valid_text (r_Error r) \<and> in_int64 (r_TimeoutSeconds r) \<and>
     (case r_ExitCode r of None \<Rightarrow> True | Some n \<Rightarrow> in_int64 n) \<and> gomap_ok (r_Params r) \<and>
     (\<forall>kv \<in> set (r_Params r). valid_text (fst kv) \<and> valid_text (snd kv)) \<and>
     (case r_Summary r of None \<Rightarrow> True | Some s \<Rightarrow> summary_fit s) \<and> (\<forall>a \<in> set (r_Artifacts r). artifact_fit a) \<and>
     in_int64 (r_PID r) \<and> in_int64 (r_QueuePosition r)"

lemma get_written [simp]:
  "valid_text s \<Longrightarrow> get_str (jstr s) = Some s" "in_int64 n \<Longrightarrow> get_int (jint n) = Some n"
  "jstr s \<noteq> JNull" "jint n \<noteq> JNull" "encode_artifact a \<noteq> JNull" "encode_test t \<noteq> JNull" "encode_summary su \<noteq> JNull"
  "encode_params m \<noteq> JNull"
  by (simp_all add: jstr_def jint_def to_valid_id parse_itoa encode_artifact_def encode_test_def encode_summary_def
      encode_params_def)

lemma those_map: "(\<And>x. x \<in> set xs \<Longrightarrow> f (g x) = Some (h x)) \<Longrightarrow> those (map f (map g xs)) = Some (map h xs)"
  by (induction xs) auto

text \<open>The fields of each struct by name.\<close>

lemma artifact_at:
  "map_of (artifact_fields a) ''id'' = Some (Some (jstr (art_ID a)))"
  "map_of (artifact_fields a) ''kind'' = Some (Some (jstr (art_Kind a)))"
  "map_of (artifact_fields a) ''name'' = Some (Some (jstr (art_Name a)))"
  "map_of (artifact_fields a) ''testTitle'' = Some (omit_str (art_TestTitle a))"
  "map_of (artifact_fields a) ''size'' = Some (Some (jint (art_Size a)))"
  "map_of (artifact_fields a) ''sensitive'' = Some (Some (JBool (art_Sensitive a)))"
  by (simp_all add: artifact_fields_def)

lemma test_at:
  "map_of (test_fields t) ''title'' = Some (Some (jstr (tr_Title t)))"
  "map_of (test_fields t) ''status'' = Some (Some (jstr (tr_Status t)))"
  "map_of (test_fields t) ''durationMs'' = Some (Some (jint (tr_Duration t)))"
  "map_of (test_fields t) ''error'' = Some (omit_str (tr_Error t))"
  by (simp_all add: test_fields_def)

lemma summary_at:
  "map_of (summary_fields s) ''total'' = Some (Some (jint (sum_Total s)))"
  "map_of (summary_fields s) ''passed'' = Some (Some (jint (sum_Passed s)))"
  "map_of (summary_fields s) ''failed'' = Some (Some (jint (sum_Failed s)))"
  "map_of (summary_fields s) ''skipped'' = Some (Some (jint (sum_Skipped s)))"
  "map_of (summary_fields s) ''flaky'' = Some (Some (jint (sum_Flaky s)))"
  "map_of (summary_fields s) ''durationMs'' = Some (Some (jint (sum_Duration s)))"
  "map_of (summary_fields s) ''tests'' =
     Some (Some (if sum_Tests s = [] then JNull else JArr (map encode_test (sum_Tests s))))"
  by (simp_all add: summary_fields_def)

lemma run_at:
  "map_of (run_fields tf r) ''id'' = Some (Some (jstr (r_ID r)))"
  "map_of (run_fields tf r) ''workflowId'' = Some (Some (jstr (r_WorkflowID r)))"
  "map_of (run_fields tf r) ''env'' = Some (Some (jstr (r_Env r)))"
  "map_of (run_fields tf r) ''submittedBy'' = Some (omit_str (r_SubmittedBy r))"
  "map_of (run_fields tf r) ''state'' = Some (Some (jstr (r_State r)))"
  "map_of (run_fields tf r) ''error'' = Some (omit_str (r_Error r))"
  "map_of (run_fields tf r) ''queuedAt'' = Some (Some (JStr (tf (r_QueuedAt r))))"
  "map_of (run_fields tf r) ''startedAt'' = Some (map_option (\<lambda>t. JStr (tf t)) (r_StartedAt r))"
  "map_of (run_fields tf r) ''endedAt'' = Some (map_option (\<lambda>t. JStr (tf t)) (r_EndedAt r))"
  "map_of (run_fields tf r) ''timeoutSeconds'' = Some (Some (jint (r_TimeoutSeconds r)))"
  "map_of (run_fields tf r) ''exitCode'' = Some (map_option jint (r_ExitCode r))"
  "map_of (run_fields tf r) ''params'' = Some (if r_Params r = [] then None else Some (encode_params (r_Params r)))"
  "map_of (run_fields tf r) ''summary'' = Some (map_option encode_summary (r_Summary r))"
  "map_of (run_fields tf r) ''artifacts'' =
     Some (if r_Artifacts r = [] then None else Some (JArr (map encode_artifact (r_Artifacts r))))"
  "map_of (run_fields tf r) ''pid'' = Some (omit_int (r_PID r))"
  "map_of (run_fields tf r) ''queuePosition'' = Some (omit_int (r_QueuePosition r))"
  by (simp_all add: run_fields_def)

lemma field_omit [simp]:
  "valid_text s \<Longrightarrow> (case omit_str s of None \<Rightarrow> Some [] | Some j \<Rightarrow> if j = JNull then Some [] else get_str j) = Some s"
  "in_int64 n \<Longrightarrow> (case omit_int n of None \<Rightarrow> Some 0 | Some j \<Rightarrow> if j = JNull then Some 0 else get_int j) = Some n"
  by (simp_all add: omit_str_def omit_int_def)

lemma get_artifact_encode: "artifact_fit a \<Longrightarrow> get_artifact (encode_artifact a) = Some (a\<lparr>art_Rel := []\<rparr>)"
  by (simp add: encode_artifact_def struct_field artifact_at artifact_fit_def)

lemma get_test_encode: "test_fit t \<Longrightarrow> get_test (encode_test t) = Some t"
  by (simp add: encode_test_def struct_field test_at test_fit_def)

lemma get_list_encode:
  assumes "\<And>x. x \<in> set xs \<Longrightarrow> f (g x) = Some (h x)" "\<And>x. g x \<noteq> JNull"
  shows "get_list (or_zero z f) (JArr (map g xs)) = Some (map h xs)"
  using assms those_map [of xs "or_zero z f" g h] by (simp add: or_zero_def)

lemma get_summary_encode: "summary_fit s \<Longrightarrow> get_summary (encode_summary s) = Some s"
  using get_list_encode [of "sum_Tests s" get_test encode_test "\<lambda>t. t" zero_test]
  by (auto simp: encode_summary_def struct_field summary_at summary_fit_def get_test_encode)

lemma update_new: "k \<notin> set (map fst m) \<Longrightarrow> AList.update k v m = m @ [(k, v)]"
  by (induction m) auto

lemma fold_update_sorted:
  "distinct (map fst kvs) \<Longrightarrow> set (map fst kvs) \<inter> set (map fst m) = {} \<Longrightarrow>
   fold (\<lambda>kv. AList.update (fst kv) (snd kv)) kvs m = m @ kvs"
proof (induction kvs arbitrary: m)
  case (Cons kv kvs)
  then have "AList.update (fst kv) (snd kv) m = m @ [kv]"
    by (cases kv) (auto simp: update_new)
  with Cons show ?case by auto
qed simp

lemma get_params_encode:
  assumes "gomap_ok m" "\<forall>kv \<in> set m. valid_text (fst kv) \<and> valid_text (snd kv)"
  shows "get_params (encode_params m) = Some (sort_key fst m)"
proof -
  let ?s = "sort_key fst m"
  let ?kvs = "map (\<lambda>kv. (to_valid (fst kv), jstr (snd kv))) ?s"
  have "those (map (\<lambda>kv. or_zero [] get_str (snd kv)) ?kvs) = Some (map snd ?s)"
    using assms(2) by (intro those_map) (simp add: or_zero_def)
  moreover have "map fst ?kvs = map fst ?s" using assms(2) by (simp add: to_valid_id)
  then have "zip (map fst ?kvs) (map snd ?s) = ?s" by (simp only: zip_map_fst_snd)
  moreover have "distinct (map fst ?s)" using assms(1) by (metis distinct_map distinct_sort set_sort)
  then have "fold (\<lambda>kv. AList.update (fst kv) (snd kv)) ?s [] = ?s" by (simp add: fold_update_sorted)
  ultimately show ?thesis by (simp only: encode_params_def get_params.simps option.map)
qed

text \<open>
  C23. What a restart reads is what was written: for a run whose texts are valid UTF-8 and whose numbers fit 64 bits, decoding
  the document that \<open>persist\<close> encodes gives the run again, with its parameters in the order of their names and with the paths of its
  artifacts lost (their tag is \<open>json:"-"\<close>); and a text that is decoded is valid, so a second encoding changes nothing in it.
\<close>

theorem meta_roundtrip:
  assumes "run_fit r" "\<forall>t \<in> set (run_times r). tp (tf t) = Some t"
  shows "decode_run tp (encode_run tf r) = Some ((persisted r)\<lparr>r_Params := sort_key fst (r_Params r)\<rparr>) \<and>
    (\<forall>s. valid_text (to_valid s) \<and> to_valid (to_valid s) = to_valid s)"
proof -
  have arts: "get_list (or_zero zero_artifact get_artifact) (JArr (map encode_artifact (r_Artifacts r))) =
      Some (map (\<lambda>a. a\<lparr>art_Rel := []\<rparr>) (r_Artifacts r))"
    using assms(1) by (intro get_list_encode) (simp_all add: run_fit_def get_artifact_encode)
  have pars: "get_params (encode_params (r_Params r)) = Some (sort_key fst (r_Params r))"
    using assms(1) by (intro get_params_encode) (simp_all add: run_fit_def)
  have "tp (tf (r_QueuedAt r)) = Some (r_QueuedAt r)" "\<And>t. r_StartedAt r = Some t \<Longrightarrow> tp (tf t) = Some t"
    "\<And>t. r_EndedAt r = Some t \<Longrightarrow> tp (tf t) = Some t" using assms(2) by (auto simp: run_times_def)
  then have "decode_run tp (encode_run tf r) = Some ((persisted r)\<lparr>r_Params := sort_key fst (r_Params r)\<rparr>)"
    using assms(1) arts pars
    by (cases "r_StartedAt r"; cases "r_EndedAt r"; cases "r_ExitCode r"; cases "r_Summary r")
      (simp_all add: encode_run_def struct_field run_at run_fit_def pointer_def get_summary_encode persisted_def
        del: get_params.simps get_list.simps)
  then show ?thesis using valid_to_valid to_valid_id by blast
qed

text \<open>A finished run with two parameters and an artifact; instants are written as numbers.\<close>

definition written_run :: run where
  "written_run = zero_run\<lparr>r_ID := ''a'', r_State := StateSucceeded, r_StartedAt := Some 5, r_ExitCode := Some 0,
     r_Params := [(''n'', ''3''), (''b'', [CHR 0xC3, CHR 0xA9])],
     r_Artifacts := [\<lparr>art_ID = ''x'', art_Kind = ArtifactTrace, art_Name = ''trace.zip'', art_TestTitle = [], art_Size = 9,
       art_Sensitive = True, art_Rel = ''output/trace.zip''\<rparr>]\<rparr>"

lemma written_run_fit: "run_fit written_run"
  by code_simp

theorem meta_roundtrip_witness:
  "map_option (\<lambda>r. (r_Params r, map art_Rel (r_Artifacts r))) (decode_run parse_int64 (encode_run itoa written_run)) =
     Some ([(''b'', [CHR 0xC3, CHR 0xA9]), (''n'', ''3'')], [[]])"
proof -
  have "\<forall>t \<in> set (run_times written_run). parse_int64 (itoa t) = Some t"
    by (simp add: run_times_def written_run_def zero_run_def parse_itoa in_int64_def)
  from meta_roundtrip [OF written_run_fit this] have
    "decode_run parse_int64 (encode_run itoa written_run) =
       Some ((persisted written_run)\<lparr>r_Params := sort_key fst (r_Params written_run)\<rparr>)" by blast
  moreover have "sort_key fst (r_Params written_run) = [(''b'', [CHR 0xC3, CHR 0xA9]), (''n'', ''3'')]" by code_simp
  ultimately show ?thesis by (simp add: persisted_def written_run_def)
qed

section \<open>The type of a document\<close>

text \<open>
  Shapes of documents: the types of values, and objects with named fields of which some are required. An empty list may be
  \<open>null\<close>. No key occurs twice.
\<close>

datatype shape = StrS | IntS | BoolS | TimeS | ListS shape | MapS | ObjS "(go_string \<times> bool \<times> shape) list"

fun conforms :: "(go_string \<Rightarrow> int option) \<Rightarrow> shape \<Rightarrow> json \<Rightarrow> bool" where
  "conforms tp StrS j \<longleftrightarrow> get_str j \<noteq> None"
| "conforms tp IntS j \<longleftrightarrow> get_int j \<noteq> None"
| "conforms tp BoolS j \<longleftrightarrow> get_bool j \<noteq> None"
| "conforms tp TimeS j \<longleftrightarrow> get_time tp j \<noteq> None"
| "conforms tp (ListS sh) j \<longleftrightarrow> (case j of JNull \<Rightarrow> True | JArr js \<Rightarrow> list_all (conforms tp sh) js | _ \<Rightarrow> False)"
| "conforms tp MapS j \<longleftrightarrow> (case j of JObj kvs \<Rightarrow> list_all (\<lambda>kv. get_str (snd kv) \<noteq> None) kvs | _ \<Rightarrow> False)"
| "conforms tp (ObjS fs) j \<longleftrightarrow>
     (case j of
        JObj kvs \<Rightarrow>
          distinct (map fst kvs) \<and> set (map fst kvs) \<subseteq> set (map fst fs) \<and>
          list_all (\<lambda>f. case map_of kvs (fst f) of None \<Rightarrow> \<not> fst (snd f) | Some v \<Rightarrow> conforms tp (snd (snd f)) v) fs
      | _ \<Rightarrow> False)"

definition artifact_schema :: "(go_string \<times> bool \<times> shape) list" where
  "artifact_schema =
     [(''id'', True, StrS), (''kind'', True, StrS), (''name'', True, StrS), (''testTitle'', False, StrS),
     (''size'', True, IntS), (''sensitive'', True, BoolS)]"

definition artifact_shape :: shape where
  "artifact_shape = ObjS artifact_schema"

definition test_schema :: "(go_string \<times> bool \<times> shape) list" where
  "test_schema =
     [(''title'', True, StrS), (''status'', True, StrS), (''durationMs'', True, IntS), (''error'', False, StrS)]"

definition test_shape :: shape where
  "test_shape = ObjS test_schema"

definition summary_schema :: "(go_string \<times> bool \<times> shape) list" where
  "summary_schema =
     [(''total'', True, IntS), (''passed'', True, IntS), (''failed'', True, IntS), (''skipped'', True, IntS),
     (''flaky'', True, IntS), (''durationMs'', True, IntS), (''tests'', True, ListS test_shape)]"

definition summary_shape :: shape where
  "summary_shape = ObjS summary_schema"

definition run_schema :: "(go_string \<times> bool \<times> shape) list" where
  "run_schema =
     [(''id'', True, StrS), (''workflowId'', True, StrS), (''env'', True, StrS), (''submittedBy'', False, StrS),
     (''state'', True, StrS), (''error'', False, StrS), (''queuedAt'', True, TimeS), (''startedAt'', False, TimeS),
     (''endedAt'', False, TimeS), (''timeoutSeconds'', True, IntS), (''exitCode'', False, IntS), (''params'', False, MapS),
     (''summary'', False, summary_shape), (''artifacts'', False, ListS artifact_shape), (''pid'', False, IntS),
     (''queuePosition'', False, IntS)]"

definition run_shape :: shape where
  "run_shape = ObjS run_schema"

text \<open>A written struct conforms to its shape when each of its fields does.\<close>

lemma present_keys: "distinct (map fst fs) \<Longrightarrow> distinct (map fst (present fs)) \<and> set (map fst (present fs)) \<subseteq> set (map fst fs)"
  by (induction fs) (auto simp: present_def map_filter_simps split: option.splits)

lemma map_of_present: "distinct (map fst fs) \<Longrightarrow> map_of (present fs) k = Option.bind (map_of fs k) (\<lambda>v. v)"
proof (induction fs)
  case (Cons f fs)
  have "fst f \<notin> fst ` set (present fs)" using present_keys [of fs] Cons.prems by auto
  then have "map_of (present fs) (fst f) = None" by (simp add: map_of_eq_None_iff)
  with Cons show ?case by (cases "snd f") (auto simp: present_def map_filter_simps)
qed (simp add: present_def map_filter_simps)

lemma conforms_present:
  assumes "distinct (map fst fs)" "map fst fs = map fst sh"
    and "list_all2 (\<lambda>f s. case snd f of None \<Rightarrow> \<not> fst (snd s) | Some v \<Rightarrow> conforms tp (snd (snd s)) v) fs sh"
  shows "conforms tp (ObjS sh) (JObj (present fs))"
proof -
  have "case map_of (present fs) (fst s) of None \<Rightarrow> \<not> fst (snd s) | Some v \<Rightarrow> conforms tp (snd (snd s)) v"
    if s: "s \<in> set sh" for s
  proof -
    obtain n where n: "n < length sh" "s = sh ! n" using s by (metis in_set_conv_nth)
    have len: "length fs = length sh" using assms(2) by (metis length_map)
    then have "fst (fs ! n) = fst s" using assms(2) n by (metis nth_map)
    then have "map_of fs (fst s) = Some (snd (fs ! n))"
      using assms(1) n len by (metis map_of_is_SomeI nth_mem prod.collapse)
    then have "map_of (present fs) (fst s) = snd (fs ! n)" using map_of_present [OF assms(1)] by simp
    moreover have "case snd (fs ! n) of None \<Rightarrow> \<not> fst (snd (sh ! n)) | Some v \<Rightarrow> conforms tp (snd (snd (sh ! n))) v"
      using assms(3) n(1) len by (metis (lifting) list_all2_nthD)
    ultimately show ?thesis unfolding n(2) by simp
  qed
  then show ?thesis using present_keys [OF assms(1)] assms(2) by (simp add: list_all_iff)
qed

lemma conforms_written [simp]:
  "conforms tp StrS (jstr s)" "in_int64 n \<Longrightarrow> conforms tp IntS (jint n)" "conforms tp BoolS (JBool b)"
  "conforms tp MapS (encode_params m)"
  by (simp_all add: jstr_def jint_def parse_itoa encode_params_def list_all_iff)

lemma conforms_omit [simp]:
  "case omit_str s of None \<Rightarrow> True | Some v \<Rightarrow> get_str v \<noteq> None"
  "in_int64 n \<Longrightarrow> case omit_int n of None \<Rightarrow> True | Some v \<Rightarrow> get_int v \<noteq> None"
  by (simp_all add: omit_str_def omit_int_def jstr_def jint_def parse_itoa)

lemma artifact_conforms: "artifact_fit a \<Longrightarrow> conforms tp artifact_shape (encode_artifact a)"
  unfolding artifact_shape_def encode_artifact_def artifact_schema_def
  by (rule conforms_present) (simp_all add: artifact_fields_def artifact_fit_def jstr_def jint_def parse_itoa omit_str_def)

lemma test_conforms: "test_fit t \<Longrightarrow> conforms tp test_shape (encode_test t)"
  unfolding test_shape_def encode_test_def test_schema_def
  by (rule conforms_present) (simp_all add: test_fields_def test_fit_def jstr_def jint_def parse_itoa omit_str_def)

lemma conforms_list:
  "(\<And>x. x \<in> set xs \<Longrightarrow> conforms tp sh (f x)) \<Longrightarrow> conforms tp (ListS sh) (JArr (map f xs))"
  by (simp add: list_all_iff)

lemma summary_conforms:
  assumes "summary_fit s"
  shows "conforms tp summary_shape (encode_summary s)"
proof -
  have "conforms tp (ListS test_shape) (if sum_Tests s = [] then JNull else JArr (map encode_test (sum_Tests s)))"
    using assms conforms_list [of "sum_Tests s" tp test_shape encode_test]
    by (simp add: summary_fit_def test_conforms)
  then show ?thesis
    unfolding summary_shape_def encode_summary_def summary_schema_def
    by (intro conforms_present)
      (use assms in \<open>simp_all add: summary_fields_def summary_fit_def jint_def parse_itoa del: conforms.simps(5)\<close>)
qed

lemma run_conforms:
  assumes "run_fit r" "\<forall>t \<in> set (run_times r). tp (tf t) = Some t"
  shows "conforms tp run_shape (encode_run tf r)"
proof -
  have "conforms tp (ListS artifact_shape) (JArr (map encode_artifact (r_Artifacts r)))"
    using assms(1) by (intro conforms_list) (simp add: run_fit_def artifact_conforms)
  moreover have "\<And>s. r_Summary r = Some s \<Longrightarrow> conforms tp summary_shape (encode_summary s)"
    using assms(1) by (simp add: run_fit_def summary_conforms)
  moreover have "tp (tf (r_QueuedAt r)) = Some (r_QueuedAt r)" "\<And>t. r_StartedAt r = Some t \<Longrightarrow> tp (tf t) = Some t"
    "\<And>t. r_EndedAt r = Some t \<Longrightarrow> tp (tf t) = Some t" using assms(2) by (auto simp: run_times_def)
  ultimately show ?thesis
    unfolding run_shape_def encode_run_def run_schema_def
    using assms(1)
    by (cases "r_StartedAt r"; cases "r_EndedAt r"; cases "r_ExitCode r"; cases "r_Summary r"; intro conforms_present)
      (simp_all add: run_fields_def run_fit_def jstr_def jint_def parse_itoa omit_str_def omit_int_def encode_params_def
        list_all_iff)
qed

text \<open>A document of the shape is read without an error.\<close>

lemma bind_total: "x \<noteq> None \<Longrightarrow> (\<And>a. f a \<noteq> None) \<Longrightarrow> Option.bind x f \<noteq> None"
  by (cases x) simp_all

lemma find_SomeD: "List.find P xs = Some x \<Longrightarrow> x \<in> set xs \<and> P x"
  by (induction xs) (auto split: if_splits)

lemma field_conforms:
  assumes "distinct (map fold_case (map fst fs))" "conforms tp (ObjS fs) (JObj kvs)" "map_of fs k \<noteq> None"
    and "\<And>v. conforms tp (snd (the (map_of fs k))) v \<Longrightarrow> v \<noteq> JNull \<Longrightarrow> f v \<noteq> None"
  shows "field kvs k zero f \<noteq> None"
proof (cases "List.find (\<lambda>kv. EqualFold (fst kv) k) (rev kvs)")
  case None
  then show ?thesis by (simp add: field_def)
next
  case (Some kv)
  from find_SomeD [OF this] have kv: "kv \<in> set kvs" "EqualFold (fst kv) k" unfolding set_rev by blast+
  have "inj_on fold_case (set (map fst fs))" using assms(1) distinct_map [of fold_case] by blast
  moreover have c: "distinct (map fst kvs)" "set (map fst kvs) \<subseteq> set (map fst fs)"
    "\<forall>f \<in> set fs. case map_of kvs (fst f) of None \<Rightarrow> \<not> fst (snd f) | Some v \<Rightarrow> conforms tp (snd (snd f)) v"
    using assms(2) unfolding conforms.simps json.case list_all_iff by blast+
  have "fst kv \<in> set (map fst fs)" "k \<in> set (map fst fs)"
    using c(2) kv(1) assms(3) by (auto simp: map_of_eq_None_iff)
  ultimately have "fst kv = k" using kv(2) unfolding EqualFold_def by (meson inj_onD)
  then have "map_of kvs k = Some (snd kv)" using kv(1) c(1) by (metis map_of_is_SomeI prod.collapse)
  moreover obtain v where v: "map_of fs k = Some v" using assms(3) by blast
  then have "(k, v) \<in> set fs" by (rule map_of_SomeD)
  ultimately have "conforms tp (snd (the (map_of fs k))) (snd kv)" using bspec [OF c(3), of "(k, v)"] v by simp
  with Some assms(4) [of "snd kv"] show ?thesis by (simp add: field_def)
qed

lemma list_total:
  assumes "\<And>v. conforms tp sh v \<Longrightarrow> v \<noteq> JNull \<Longrightarrow> f v \<noteq> None" "conforms tp (ListS sh) v" "v \<noteq> JNull"
  shows "get_list (or_zero z f) v \<noteq> None"
proof -
  have "those (map (or_zero z f) js) \<noteq> None" if "list_all (conforms tp sh) js" for js
    using that assms(1) by (induction js) (auto simp: or_zero_def, fastforce)
  with assms(2,3) show ?thesis by (cases v) auto
qed

lemma params_total: "conforms tp MapS v \<Longrightarrow> get_params v \<noteq> None"
proof (cases v)
  case (JObj kvs)
  assume "conforms tp MapS v"
  with JObj have "those (map (\<lambda>kv. or_zero [] get_str (snd kv)) kvs) \<noteq> None"
    by (induction kvs arbitrary: v) (auto simp: or_zero_def)
  with JObj show ?thesis by auto
qed simp_all

lemma pointer_total: "f v \<noteq> None \<Longrightarrow> pointer f v \<noteq> None"
  by (simp add: pointer_def)

lemma schema_distinct:
  "distinct (map fold_case (map fst artifact_schema))" "distinct (map fold_case (map fst test_schema))"
  "distinct (map fold_case (map fst summary_schema))" "distinct (map fold_case (map fst run_schema))"
  by code_simp+

lemma artifact_total:
  assumes "conforms tp artifact_shape j"
  shows "get_artifact j \<noteq> None"
proof (cases j)
  case (JObj kvs)
  note f = field_conforms [OF schema_distinct(1) assms [unfolded artifact_shape_def JObj]]
  show ?thesis unfolding JObj get_artifact.simps by (intro bind_total f) (simp_all add: artifact_schema_def)
qed (use assms in \<open>simp_all add: artifact_shape_def\<close>)

lemma test_total:
  assumes "conforms tp test_shape j"
  shows "get_test j \<noteq> None"
proof (cases j)
  case (JObj kvs)
  note f = field_conforms [OF schema_distinct(2) assms [unfolded test_shape_def JObj]]
  show ?thesis unfolding JObj get_test.simps by (intro bind_total f) (simp_all add: test_schema_def)
qed (use assms in \<open>simp_all add: test_shape_def\<close>)

lemma summary_total:
  assumes "conforms tp summary_shape j"
  shows "get_summary j \<noteq> None"
proof (cases j)
  case (JObj kvs)
  note f = field_conforms [OF schema_distinct(3) assms [unfolded summary_shape_def JObj]]
  show ?thesis
    unfolding JObj get_summary.simps
    by (intro bind_total f list_total [OF test_total]) (simp_all add: summary_schema_def del: conforms.simps(5))
qed (use assms in \<open>simp_all add: summary_shape_def\<close>)

lemma run_total:
  assumes "conforms tp run_shape j"
  shows "decode_run tp j \<noteq> None"
proof (cases j)
  case (JObj kvs)
  note f = field_conforms [OF schema_distinct(4) assms [unfolded run_shape_def JObj]]
  show ?thesis
    unfolding JObj decode_run.simps
    by (intro bind_total f list_total [OF artifact_total] pointer_total summary_total params_total)
      (simp_all add: run_schema_def del: conforms.simps(5,6,7))
qed (use assms in \<open>simp_all add: run_shape_def\<close>)

text \<open>
  C24. \<open>meta.json\<close> is typed: every run whose values fit is written as a document of the shape of a run (the names and types of the
  struct tags, optional exactly where a tag has \<open>omitempty\<close>), and every document of this shape is read back as a run
  without an error, so no such file is skipped at a restart.
\<close>

theorem meta_typed:
  "(run_fit r \<and> (\<forall>t \<in> set (run_times r). tp (tf t) = Some t) \<longrightarrow> conforms tp run_shape (encode_run tf r)) \<and>
   (conforms tp run_shape j \<longrightarrow> (\<exists>r'. decode_run tp j = Some r'))"
  using run_conforms run_total by blast

text \<open>A document with the required fields only, and one whose exit code is a text.\<close>

definition small_doc :: "(go_string \<times> json) list" where
  "small_doc = [(''id'', JStr ''a''), (''workflowId'', JStr ''w''), (''env'', JStr ''TST''), (''state'', JStr ''queued''),
     (''queuedAt'', JStr ''5''), (''timeoutSeconds'', JNum ''60'')]"

theorem meta_typed_witness:
  "conforms parse_int64 run_shape (encode_run itoa written_run) \<and>
   (\<exists>r'. decode_run parse_int64 (JObj small_doc) = Some r') \<and>
   decode_run parse_int64 (JObj ((''exitCode'', JStr ''0'') # small_doc)) = None"
proof (intro conjI)
  have "\<forall>t \<in> set (run_times written_run). parse_int64 (itoa t) = Some t"
    by (simp add: run_times_def written_run_def zero_run_def parse_itoa in_int64_def)
  then show "conforms parse_int64 run_shape (encode_run itoa written_run)"
    using meta_typed [of written_run parse_int64 itoa JNull] written_run_fit by blast
  have "conforms parse_int64 run_shape (JObj small_doc)" by code_simp
  then show "\<exists>r'. decode_run parse_int64 (JObj small_doc) = Some r'"
    using meta_typed [of written_run parse_int64 itoa "JObj small_doc"] by blast
qed code_simp

end
