(* ===== verification/Report.thy ===== *)
theory Report
  imports Process Encoding
begin

text \<open>
  What the command tells its caller: \<open>main\<close> of \<open>cmd/pstad/main.go\<close> with its exit status, and the texts of the flags
  \<open>-version\<close> and \<open>-check\<close>. The text of an error on the standard error is not modelled.
\<close>

section \<open>Text of the flags\<close>

text \<open>\<open>fmt\<close> pads to a width in characters; a byte that is not part of one counts as one.\<close>

function rune_count :: "go_string \<Rightarrow> nat" where
  "rune_count [] = 0"
| "rune_count (c # cs) = Suc (rune_count (drop (rune_len (c # cs) - 1) cs))"
  by pat_completeness auto

termination rune_count
  by (relation "measure length") (auto simp: less_Suc_eq_le)

definition pad_right :: "nat \<Rightarrow> go_string \<Rightarrow> go_string" where
  "pad_right n s = s @ replicate (n - rune_count s) CHR '' ''"

definition em_dash :: go_string where
  "em_dash = [CHR 0xE2, CHR 0x80, CHR 0x94]"

definition workflow_line :: "workflow \<Rightarrow> go_string" where
  "workflow_line w = ''  '' @ pad_right 38 (w_ID w) @ '' '' @ w_Spec w @ [LF]"

definition check_report :: "config \<Rightarrow> catalog \<Rightarrow> go_string" where
  "check_report cfg cat =
     ''config OK'' @ [LF] @
     ''  automation:  '' @ cfg_AutomationDir cfg @ [LF] @
     ''  runs:        '' @ cfg_RunsDir cfg @ [LF] @
     ''  receipts:    '' @ cfg_ReceiptsDir cfg @ [LF] @
     ''  concurrency: '' @ itoa (cfg_MaxConcurrent cfg) @ '' (queue depth '' @ itoa (cfg_QueueDepth cfg) @ '')'' @ [LF] @
     ''manifest OK '' @ em_dash @ '' '' @ itoa (int (length (cat_Workflows cat))) @ '' workflows, '' @
       itoa (int (length (cat_CSVSchemas cat))) @ '' schemas'' @ [LF] @
     concat (map workflow_line (cat_Workflows cat))"

definition printed :: "booted \<Rightarrow> go_string" where
  "printed b =
     (case b of
        Printed v \<Rightarrow> ''pstad '' @ v @ [LF]
      | Checked cfg cat \<Rightarrow> check_report cfg cat
      | _ \<Rightarrow> [])"

section \<open>main\<close>

text \<open>The exit status; \<open>None\<close> while the server is running.\<close>

definition main_status :: "booted \<Rightarrow> phase \<Rightarrow> int option" where
  "main_status b ph =
     (case b of
        Printed v \<Rightarrow> Some 0
      | Checked cfg cat \<Rightarrow> Some 0
      | Serving srv rt s0 killed \<Rightarrow>
          (case ph of ListenerFailed \<Rightarrow> Some 1 | Stopped g \<Rightarrow> Some 0 | _ \<Rightarrow> None)
      | _ \<Rightarrow> Some 1)"

text \<open>
  The check before a deployment: it succeeds exactly if a start in the same world gets past the configuration and the manifest,
  with the same configuration and catalog, so that only the recovery of the runs and the listener can still fail.
\<close>

theorem check_foretells_start:
  "main_status (realMain \<lparr>fl_check = True, fl_version = False\<rparr> w) ph = Some 0 \<longleftrightarrow>
     (case realMain \<lparr>fl_check = False, fl_version = False\<rparr> w of
        Serving srv rt s0 killed \<Rightarrow>
          realMain \<lparr>fl_check = True, fl_version = False\<rparr> w = Checked (srv_cfg srv) (srv_catalog srv)
      | RecoveryFailed e \<Rightarrow> True
      | _ \<Rightarrow> False)"
  by (auto simp: main_status_def realMain_def httpapi_New_def Let_def
      split: prod.splits sum.splits option.splits)

text \<open>A process that was told to stop exits with 0 whatever the runs and the grace period did; one whose listener failed with 1.\<close>

theorem exit_status:
  "main_status (Serving srv rt s0 killed) ph = Some st \<longleftrightarrow>
     ph = ListenerFailed \<and> st = 1 \<or> (\<exists>g. ph = Stopped g) \<and> st = 0"
  by (auto simp: main_status_def split: phase.splits)

text \<open>The columns of the report: the path of a workflow whose id is shorter than 38 characters begins in column 42.\<close>

lemma ascii_rune_len: "of_char c < (128 :: nat) \<Longrightarrow> rune_len (c # cs) = 1"
  by (simp add: rune_len.simps)

lemma rune_count_ascii: "\<forall>c \<in> set s. of_char c < (128 :: nat) \<Longrightarrow> rune_count s = length s"
  by (induction s) (simp_all add: ascii_rune_len)

theorem workflow_column:
  assumes "\<forall>c \<in> set (w_ID w). of_char c < (128 :: nat)" "length (w_ID w) \<le> 38"
  shows "workflow_line w = ''  '' @ w_ID w @ replicate (38 - length (w_ID w)) CHR '' '' @ '' '' @ w_Spec w @ [LF] \<and>
    drop 41 (workflow_line w) = w_Spec w @ [LF]"
proof -
  have "workflow_line w = ''  '' @ w_ID w @ replicate (38 - length (w_ID w)) CHR '' '' @ '' '' @ w_Spec w @ [LF]"
    using rune_count_ascii [OF assms(1)] by (simp add: workflow_line_def pad_right_def)
  with assms(2) show ?thesis by simp
qed

end
