(* ===== verification/Whole.thy ===== *)
theory Whole
  imports Startup
begin

text \<open>
  Whole requests against the sections of the theory Interleave: a handler that nobody interrupts does exactly what its sections do one
  after the other, so a server that is asked one request at a time, while its workers go on, is one of the interleavings. What
  clients see over HTTP follows from what holds in every interleaving.
\<close>

section \<open>A request that runs alone\<close>

text \<open>From one section to another of one request, with nothing in between; the world may answer each section differently.\<close>

inductive client_runs :: "client \<Rightarrow> queue \<Rightarrow> client \<Rightarrow> queue \<Rightarrow> bool" where
  at_end: "client_runs x q x q"
| one_more: "client_step c x q = Some (x', q') \<Longrightarrow> client_runs x' q' x'' q'' \<Longrightarrow> client_runs x q x'' q''"

lemma client_runs_sys:
  assumes "client_runs x q x' q'" "k < length (s_clients s)" "s_clients s ! k = x" "s_queue s = q"
  shows "\<exists>es. sys_run es s = Some (s\<lparr>s_queue := q', s_clients := (s_clients s)[k := x']\<rparr>)"
  using assms
proof (induction arbitrary: s)
  case (at_end x q)
  then show ?case by (intro exI [of _ "[]"]) (cases s, auto)
next
  case (one_more c x q x' q' x'' q'')
  let ?s = "s\<lparr>s_queue := q', s_clients := (s_clients s)[k := x']\<rparr>"
  have "\<exists>es. sys_run es ?s = Some (?s\<lparr>s_queue := q'', s_clients := (s_clients ?s)[k := x'']\<rparr>)"
    using one_more.prems by (intro one_more.IH) simp_all
  then obtain es where "sys_run es ?s = Some (s\<lparr>s_queue := q'', s_clients := (s_clients s)[k := x'']\<rparr>)" by auto
  then show ?case
    using one_more.hyps(1) one_more.prems by (intro exI [of _ "ClientMoves k c # es"]) simp
qed

text \<open>What the world answers to the sections of one handler: all of them in one instant.\<close>

definition section_call :: "int \<Rightarrow> persist_env \<Rightarrow> call" where
  "section_call t e = \<lparr>c_now = t, c_persist = e, c_pid = None, c_said = [], c_outcome = skipped, c_found = (None, [])\<rparr>"

lemma section_call_simps [simp]: "c_now (section_call t e) = t" "c_persist (section_call t e) = e"
  by (simp_all add: section_call_def)

text \<open>The status that \<open>createRun\<close> and \<open>cancelRun\<close> answer with; a panic has none.\<close>

fun status_of :: "answer \<Rightarrow> int option" where
  "status_of (Accepted i) = Some 202"
| "status_of (AddFailed i) = Some 500"
| "status_of (SubmitPanicked i) = None"
| "status_of (TooMany i) = Some 429"
| "status_of (CancelAccepted i) = Some 202"
| "status_of (CancelRefused i ErrNotFound) = Some 404"
| "status_of (CancelRefused i ErrAlreadyFinished) = Some 409"
| "status_of (CancelRefused i (CancelStoreError e)) = Some 500"

lemma queue_full_eq: "queue_full = mark_queue_full"
  by (simp add: fun_eq_iff queue_full_def mark_queue_full_def)

section \<open>Cancelling\<close>

lemma cancel_answer:
  "map_option rs_Status (rp_Response (cancelRun ho i q)) =
     status_of (case snd (Cancel (ho_PersistUpdate ho) (ho_Now ho) i q) of
       None \<Rightarrow> CancelAccepted i | Some err \<Rightarrow> CancelRefused i err)"
  by (simp add: cancelRun_def split: prod.split option.split cancel_error.split)

lemma cancel_queue: "rp_Queue (cancelRun ho i q) = fst (Cancel (ho_PersistUpdate ho) (ho_Now ho) i q)"
  by (simp add: cancelRun_def split: prod.split option.split cancel_error.split)

lemma update_parts:
  "Update e i f (q_store q) = (s, r, err) \<Longrightarrow>
     (case update_run i f q of
        (None, q') \<Rightarrow> q' = q \<and> s = q_store q \<and> err = Some (NoRun i)
      | (Some r', q') \<Rightarrow> on_disk e r' q' = (q\<lparr>q_store := s\<rparr>, err))"
  by (auto simp: Update_def update_run_def in_mem_def on_disk_def update_mem_def Get_def Let_def
      split: option.splits prod.splits)

lemma cancel_sections:
  "client_runs (CancelCheck i) q
     (Answered (case snd (Cancel e now i q) of None \<Rightarrow> CancelAccepted i | Some err \<Rightarrow> CancelRefused i err))
     (fst (Cancel e now i q))"
proof -
  let ?c = "section_call now e"
  note step = client_runs.one_more [where c = ?c] and stop = client_runs.at_end
  show ?thesis
  proof (cases "cancel_check i q")
    case (Some err)
    then show ?thesis by (intro step [OF _ stop]) (simp add: Cancel_def)+
  next
    case check: None
    obtain a q1 where fl: "cancel_flag i q = (a, q1)" by (cases "cancel_flag i q")
    show ?thesis
    proof (cases a)
      case None
      with check fl show ?thesis by (intro step [OF _ step [OF _ stop]]) (simp add: Cancel_def)+
    next
      case (Some a')
      note flag = fl [unfolded Some]
      show ?thesis
      proof (cases "cancel_running a' q1")
        case (Some q2)
        with check flag show ?thesis
          by (intro step [OF _ step [OF _ step [OF _ stop]]]) (simp add: Cancel_def)+
      next
        case None
        obtain s r err where u: "Update e i (mark_cancelled now) (q_store q1) = (s, r, err)"
          by (cases "Update e i (mark_cancelled now) (q_store q1)")
        have c: "Cancel e now i q = (q1\<lparr>q_store := s\<rparr>, map_option CancelStoreError err)"
          using check flag None u by (simp add: Cancel_def)
        have upto: "client_runs (CancelCheck i) q y q'" if "client_runs (CancelMark i) q1 y q'" for y q'
          using check flag None by (intro step [OF _ step [OF _ step [OF _ that]]]) simp+
        obtain r' q2 where ur: "update_run i (mark_cancelled now) q1 = (r', q2)"
          by (cases "update_run i (mark_cancelled now) q1")
        show ?thesis
        proof (cases r')
          case None
          with update_parts [OF u] ur show ?thesis unfolding c by (intro upto step [OF _ stop]) auto
        next
          case (Some r')
          with update_parts [OF u] ur have "on_disk e r' q2 = (q1\<lparr>q_store := s\<rparr>, err)" by simp
          with ur Some show ?thesis
            unfolding c by (intro upto step [OF _ step [OF _ stop]]) (simp split: option.split)+
        qed
      qed
    qed
  qed
qed

section \<open>Creating\<close>

text \<open>The answer of a submission, in the branches of \<open>submit_run\<close>.\<close>

definition submit_answer :: "host \<Rightarrow> workflow \<Rightarrow> run \<Rightarrow> (go_string, go_string) gomap \<Rightarrow> queue \<Rightarrow> answer" where
  "submit_answer ho w r env q =
     (case Add (ho_PersistAdd ho) r (q_store q) of
        (s1, Some e) \<Rightarrow> AddFailed (r_ID r)
      | (s1, None) \<Rightarrow>
          (case Submit r w env (q\<lparr>q_store := s1\<rparr>) of
             None \<Rightarrow> SubmitPanicked (r_ID r)
           | Some (q2, Some ErrQueueFull) \<Rightarrow> TooMany (r_ID r)
           | Some (q2, None) \<Rightarrow> Accepted (r_ID r)))"

lemma submit_answer_status:
  "map_option rs_Status (rp_Response (submit_run ho w r env acts q)) = status_of (submit_answer ho w r env q)"
  by (simp add: submit_run_def submit_answer_def Let_def split: prod.split option.split submit_error.split)

lemma add_sections:
  assumes "Add e r (q_store q) = (s1, err)"
  shows "client_runs (Adding r w env) q
    (case err of None \<Rightarrow> Submitting r w env | Some x \<Rightarrow> Answered (AddFailed (r_ID r))) (q\<lparr>q_store := s1\<rparr>)"
proof -
  let ?c = "section_call 0 e" and ?q = "q\<lparr>q_store := (q_store q)\<lparr>runs := AList.update (r_ID r) r (runs (q_store q))\<rparr>\<rparr>"
  note step = client_runs.one_more [where c = ?c] and stop = client_runs.at_end
  have "the (Get (q_store ?q) (r_ID r)) = r" by (simp add: Get_def go_maps)
  moreover have "on_disk e r ?q = (q\<lparr>q_store := s1\<rparr>, err)" using assms by (simp add: on_disk_def Add_def)
  ultimately have "client_step ?c (AddPersist r w env) ?q =
      Some (case err of None \<Rightarrow> Submitting r w env | Some x \<Rightarrow> Answered (AddFailed (r_ID r)), q\<lparr>q_store := s1\<rparr>)"
    by (simp split: option.split)
  then show ?thesis by (intro step [OF _ step [OF _ stop]]) simp+
qed

lemma register_job:
  "submit_register r w env q = (length (q_heap q), snd (submit_register r w env q))"
  "job_of (snd (submit_register r w env q)) (length (q_heap q)) = new_job q r w env"
  by (simp_all add: submit_register_def Let_def job_of_def)

lemma register_section:
  "client_step c (Submitting r w env) q = Some (Sending (length (q_heap q)), snd (submit_register r w env q))"
  by (simp add: submit_register_def Let_def)

lemma new_job_run [simp]: "j_runID (new_job q r w env) = r_ID r"
  by (simp add: new_job_def)

text \<open>The sections after the registration, for each outcome of the channel operation.\<close>

lemma send_sections:
  assumes "Submit r w env q = Some (q2, None)"
  shows "client_runs (Submitting r w env) q (Answered (Accepted (r_ID r))) q2"
proof -
  let ?c = "section_call 0 any" and ?a = "length (q_heap q)" and ?q = "snd (submit_register r w env q)"
  have "submit_send ?a ?q = (Sent, q2)"
    using assms register_job(1) [of r w env q]
    by (auto simp: Submit_def submit_send_def split: prod.splits if_splits)
  moreover from this have "id_of q2 ?a = r_ID r"
    using register_job(2) [of r w env q] by (auto simp: submit_send_def id_of_def job_of_def new_job_def split: if_splits)
  ultimately have "client_step ?c (Sending ?a) ?q = Some (Answered (Accepted (r_ID r)), q2)"
    using register_job(2) [of r w env q] by (simp add: id_of_def)
  then show ?thesis
    by (intro client_runs.one_more [OF register_section client_runs.one_more [where c = ?c, OF _ client_runs.at_end]])
qed

lemma panic_sections:
  assumes "q_closed q"
  shows "client_runs (Submitting r w env) q (Answered (SubmitPanicked (r_ID r))) (snd (submit_register r w env q))"
proof -
  let ?c = "section_call 0 any" and ?a = "length (q_heap q)" and ?q = "snd (submit_register r w env q)"
  have "q_closed ?q" using assms by (simp add: submit_register_def Let_def)
  then have "client_step ?c (Sending ?a) ?q = Some (Answered (SubmitPanicked (r_ID r)), ?q)"
    using register_job(2) [of r w env q] by (simp add: submit_send_def new_job_def)
  then show ?thesis
    by (intro client_runs.one_more [OF register_section client_runs.one_more [where c = ?c, OF _ client_runs.at_end]])
qed

lemma full_sections:
  assumes "Submit r w env q = Some (q2, Some err)" "Update e (r_ID r) mark_queue_full (q_store q2) = (s3, x, y)"
  shows "client_runs (Submitting r w env) q (Answered (TooMany (r_ID r))) (q2\<lparr>q_store := s3\<rparr>)"
proof -
  let ?c = "section_call 0 e" and ?a = "length (q_heap q)" and ?q = "snd (submit_register r w env q)"
  note step = client_runs.one_more [where c = ?c] and stop = client_runs.at_end
  have sub: "submit_send ?a ?q = (Full, ?q)" "submit_rollback ?a ?q = Some q2"
    using assms(1) register_job(1) [of r w env q]
    by (auto simp: Submit_def submit_send_def split: prod.splits if_splits)
  have "same_ids ?q q2" using buffer_steps(3) [OF sub(2)] by (auto simp: same_ids_set_job)
  moreover have "?a < length (q_heap ?q)" by (simp add: submit_register_def Let_def)
  ultimately have id: "j_runID (job_of q2 ?a) = r_ID r"
    using register_job(2) [of r w env q] by (simp add: same_ids_def id_of_def new_job_def)
  have upto: "client_runs (Submitting r w env) q z q'" if "client_runs (MarkFull ?a) q2 z q'" for z q'
    using sub by (intro client_runs.one_more [OF register_section step [OF _ step [OF _ that]]]) simp+
  obtain r' q3 where ur: "update_run (r_ID r) queue_full q2 = (r', q3)"
    by (cases "update_run (r_ID r) queue_full q2")
  show ?thesis
  proof (cases r')
    case None
    with update_parts [OF assms(2)] ur id show ?thesis
      by (intro upto step [OF _ stop]) (auto simp: queue_full_eq)
  next
    case (Some r')
    with update_parts [OF assms(2)] ur have d: "on_disk e r' q3 = (q2\<lparr>q_store := s3\<rparr>, y)"
      by (simp add: queue_full_eq)
    have "q_heap q3 = q_heap q2" using ur Some by (auto simp: update_run_def split: option.splits)
    with id have "j_runID (job_of q3 ?a) = r_ID r" by (simp add: job_of_def)
    with ur Some d id show ?thesis
      by (intro upto step [OF _ step [OF _ stop]]) simp+
  qed
qed

lemma client_runs_trans: "client_runs x q x' q' \<Longrightarrow> client_runs x' q' x'' q'' \<Longrightarrow> client_runs x q x'' q''"
  by (induction rule: client_runs.induct) (auto intro: client_runs.one_more)

lemma submit_sections:
  "client_runs (Adding r w env) q (Answered (submit_answer ho w r env q)) (rp_Queue (submit_run ho w r env acts q))"
proof (cases rule: submit_run_cases [where ho = ho and r = r and q = q and w = w and env = env and acts = acts])
  case (unsaved s1 e)
  with add_sections [OF unsaved(1), of w env] show ?thesis by (simp add: submit_answer_def)
next
  case (panicked s1)
  then have n: "Submit r w env (q\<lparr>q_store := s1\<rparr>) = None" by (simp add: Submit_None)
  with panicked have "rp_Queue (submit_run ho w r env acts q) = snd (submit_register r w env (q\<lparr>q_store := s1\<rparr>))"
    by (simp add: submit_run_def)
  with panicked n show ?thesis
    using client_runs_trans [OF add_sections [OF panicked(1), of w env, simplified]
        panic_sections [of "q\<lparr>q_store := s1\<rparr>" r w env]]
    by (simp add: submit_answer_def)
next
  case (full s1 q2)
  obtain s3 x y where u: "Update (ho_PersistUpdate ho) (r_ID r) mark_queue_full (q_store q2) = (s3, x, y)"
    by (cases "Update (ho_PersistUpdate ho) (r_ID r) mark_queue_full (q_store q2)")
  from client_runs_trans [OF add_sections [OF full(1), of w env, simplified] full_sections [OF full(2) u]] full u
  show ?thesis by (simp add: submit_answer_def)
next
  case (sent s1 q2)
  from client_runs_trans [OF add_sections [OF sent(1), of w env, simplified] send_sections [OF sent(2)]] sent
  show ?thesis by (simp add: submit_answer_def)
qed

section \<open>A request over HTTP\<close>

text \<open>A request changes nothing, or it is a cancellation or a submission of a queued run under a fresh id.\<close>

lemma createRun_thread:
  "rp_Queue (createRun srv ho rq q) = q \<or>
   (\<exists>r w env a. NewID (ho_Civil ho) (ho_Random ho) = Some (r_ID r) \<and> r_State r = StateQueued \<and>
      client_runs (Adding r w env) q (Answered a) (rp_Queue (createRun srv ho rq q)) \<and>
      map_option rs_Status (rp_Response (createRun srv ho rq q)) = status_of a)"
proof (cases srv ho rq q rule: createRun_cases)
  case (started cc uploads w)
  then show ?thesis
  proof (cases srv ho cc w uploads q rule: start_run_cases)
    case (ready i)
    have "r_ID (new_run i w cc (ho_Now ho) (run_params cc w)) = i"
      "r_State (new_run i w cc (ho_Now ho) (run_params cc w)) = StateQueued" by (simp_all add: new_run_def)
    then show ?thesis
      unfolding started(2) ready(3) using ready(1) submit_sections submit_answer_status by metis
  qed simp_all
qed simp

lemma cancelRun_thread:
  "\<exists>a. client_runs (CancelCheck i) q (Answered a) (rp_Queue (cancelRun ho i q)) \<and>
     map_option rs_Status (rp_Response (cancelRun ho i q)) = status_of a"
  unfolding cancel_queue cancel_answer using cancel_sections by blast

definition thread_of :: "host \<Rightarrow> queue \<Rightarrow> queue \<Rightarrow> bool" where
  "thread_of ho q q' \<longleftrightarrow>
     (\<exists>x a. client_runs x q (Answered a) q' \<and>
        ((\<exists>i. x = CancelCheck i) \<or>
         (\<exists>r w env. x = Adding r w env \<and> r_State r = StateQueued \<and> NewID (ho_Civil ho) (ho_Random ho) = Some (r_ID r))))"

lemma handler_thread: "rp_Queue (handler srv ho rq ep q) = q \<or> thread_of ho q (rp_Queue (handler srv ho rq ep q))"
proof (cases "method_of ep = ''GET''")
  case True
  then show ?thesis using reads_only_handler [of ep srv ho rq] by (simp add: reads_only_def)
next
  case False
  then consider "ep = CreateRun" | i where "ep = CancelRun i" by (cases ep) simp_all
  then show ?thesis
  proof cases
    case 1
    with createRun_thread [of srv ho rq q] show ?thesis unfolding thread_of_def by (simp add: handler_def) blast
  next
    case (2 i)
    with cancelRun_thread [of i q ho] show ?thesis unfolding thread_of_def by (simp add: handler_def) blast
  qed
qed

lemma serve_thread: "rp_Queue (serve srv ho rq q) = q \<or> thread_of ho q (rp_Queue (serve srv ho rq q))"
proof -
  have "rp_Queue (serve_endpoint srv ho rq ep q) = q \<or> thread_of ho q (rp_Queue (serve_endpoint srv ho rq ep q))" for ep
    using handler_thread [of srv ho rq ep q] by (auto simp: serve_endpoint_def auth_def timeout_handler_def)
  then have "rp_Queue (mux srv ho rq q) = q \<or> thread_of ho q (rp_Queue (mux srv ho rq q))"
    by (simp add: mux_def Let_def split: option.split)
  then show ?thesis by (simp add: serve_keeps)
qed

lemma serve_is_run:
  assumes "\<And>i. NewID (ho_Civil ho) (ho_Random ho) = Some i \<Longrightarrow>
      Get (q_store (s_queue s)) i = None \<and> i \<notin> set (owned (life_of s))"
  shows "\<exists>es ys. sys_run es s =
    Some (s\<lparr>s_queue := rp_Queue (serve srv ho rq (s_queue s)), s_clients := s_clients s @ map Answered ys\<rparr>)"
proof (cases "rp_Queue (serve srv ho rq (s_queue s)) = s_queue s")
  case True
  then show ?thesis by (intro exI [of _ "[]"]) simp
next
  case False
  then obtain x a where x: "client_runs x (s_queue s) (Answered a) (rp_Queue (serve srv ho rq (s_queue s)))"
    "(\<exists>i. x = CancelCheck i) \<or>
     (\<exists>r w env. x = Adding r w env \<and> r_State r = StateQueued \<and> NewID (ho_Civil ho) (ho_Random ho) = Some (r_ID r))"
    using serve_thread [of srv ho rq "s_queue s"] unfolding thread_of_def by blast
  let ?s = "s\<lparr>s_clients := s_clients s @ [x]\<rparr>"
  have "sys_step (Arrives x) s = Some ?s" using x(2) assms by auto
  moreover obtain es where "sys_run es ?s = Some (?s\<lparr>s_queue := rp_Queue (serve srv ho rq (s_queue s)),
      s_clients := (s_clients ?s)[length (s_clients s) := Answered a]\<rparr>)"
    using client_runs_sys [OF x(1), of "length (s_clients s)" ?s] by auto
  ultimately show ?thesis by (intro exI [of _ "Arrives x # es"] exI [of _ "[a]"]) simp
qed

section \<open>A server that is asked one request at a time\<close>

text \<open>
  Requests are whole, the workers and the shutdown come in sections between them. The ids are taken to be new, as \<open>NewID\<close> makes
  them of the time and random bytes. No request is under way, so there are no threads of clients.
\<close>

inductive whole_reach :: "server \<Rightarrow> sys \<Rightarrow> sys \<Rightarrow> bool" for srv s0 where
  whole_start: "whole_reach srv s0 s0"
| whole_request: "whole_reach srv s0 s \<Longrightarrow>
    (\<And>i. NewID (ho_Civil ho) (ho_Random ho) = Some i \<Longrightarrow> Get (q_store (s_queue s)) i = None) \<Longrightarrow>
    whole_reach srv s0 (s\<lparr>s_queue := rp_Queue (serve srv ho rq (s_queue s))\<rparr>)"
| whole_worker: "whole_reach srv s0 s \<Longrightarrow> sys_step (WorkerMoves k c) s = Some s' \<Longrightarrow> whole_reach srv s0 s'"
| whole_context: "whole_reach srv s0 s \<Longrightarrow> sys_step ContextEnds s = Some s' \<Longrightarrow> whole_reach srv s0 s'"
| whole_close: "whole_reach srv s0 s \<Longrightarrow> sys_step JobsClose s = Some s' \<Longrightarrow> whole_reach srv s0 s'"

text \<open>With every request answered, only the channel and the workers own runs, and those are in the table.\<close>

lemma answered_ids: "concat (map client_ids (map (client_phase q) (map Answered ys))) = []"
proof -
  have "client_ids (client_phase q (Answered y)) = []" for y by (cases y) simp_all
  then show ?thesis by (simp add: comp_def)
qed

lemma unknown_unowned:
  assumes "life_inv (life_of s)" "s_clients s = map Answered ys" "Get (q_store (s_queue s)) i = None"
  shows "i \<notin> set (owned (life_of s))"
proof -
  let ?l = "life_of s"
  have u: "l_states ?l i = None" using assms(3) by (simp add: life_of_simps states_of_def)
  have "i \<notin> set (worker_ids v)" if "v \<in> set (l_workers ?l)" for v
    using assms(1) that u by (cases v) (auto simp: life_inv_def worker_inv_def waiting_def dest!: bspec)
  moreover have "i \<notin> set (l_chan ?l)" using assms(1) u by (auto simp: life_inv_def waiting_def dest!: bspec)
  moreover have "concat (map client_ids (l_clients ?l)) = []"
    using answered_ids [of "s_queue s" ys] assms(2) by (simp add: life_of_simps)
  ultimately show ?thesis by (auto simp: owned_def)
qed

lemma others_step:
  assumes "sys_step e s = Some s'" "e \<in> {ContextEnds, JobsClose} \<or> (\<exists>k c. e = WorkerMoves k c)"
  shows "sys_step e (s\<lparr>s_clients := cs\<rparr>) = Some (s'\<lparr>s_clients := cs\<rparr>) \<and> s_clients s' = s_clients s"
  using assms by (cases e) (auto split: if_splits)

lemma others_reach:
  assumes "sys_step e s = Some s'" "e \<in> {ContextEnds, JobsClose} \<or> (\<exists>k c. e = WorkerMoves k c)"
    and "s_clients s = [] \<and> (\<exists>ys. sys_reach s0 (s\<lparr>s_clients := map Answered ys\<rparr>))"
  shows "s_clients s' = [] \<and> (\<exists>ys. sys_reach s0 (s'\<lparr>s_clients := map Answered ys\<rparr>))"
  using others_step [OF assms(1,2)] assms(3) sys_next by metis

lemma whole_reach_view:
  assumes "whole_reach srv s0 s" "sys_inv s0" "s_clients s0 = []"
  shows "s_clients s = [] \<and> (\<exists>ys. sys_reach s0 (s\<lparr>s_clients := map Answered ys\<rparr>))"
  using assms
proof (induction rule: whole_reach.induct)
  case whole_start
  then show ?case by (cases s0) (auto intro!: exI [of _ "[]"] intro: sys_init)
next
  case (whole_request s ho rq)
  then obtain ys where ys: "s_clients s = []" "sys_reach s0 (s\<lparr>s_clients := map Answered ys\<rparr>)" by auto
  let ?s = "s\<lparr>s_clients := map Answered ys\<rparr>"
  have "life_inv (life_of ?s)" using sys_reach_inv [OF ys(2)] whole_request.prems by (simp add: sys_inv_def)
  then have "Get (q_store (s_queue ?s)) i = None \<and> i \<notin> set (owned (life_of ?s))"
    if "NewID (ho_Civil ho) (ho_Random ho) = Some i" for i
    using unknown_unowned [of ?s ys i] whole_request.hyps(2) [OF that] by simp
  then obtain es zs where "sys_run es ?s =
      Some (?s\<lparr>s_queue := rp_Queue (serve srv ho rq (s_queue s)), s_clients := s_clients ?s @ map Answered zs\<rparr>)"
    using serve_is_run [of ho ?s srv rq] by auto
  from sys_run_reach [OF this ys(2)] ys(1) show ?case by (auto intro!: exI [of _ "ys @ zs"])
next
  case (whole_worker s k c s')
  then show ?case by (intro others_reach [OF whole_worker.hyps(2)]) blast+
next
  case (whole_context s s')
  then show ?case by (intro others_reach [OF whole_context.hyps(2)]) blast+
next
  case (whole_close s s')
  then show ?case by (intro others_reach [OF whole_close.hyps(2)]) blast+
qed

text \<open>A world without a limit on uploads of its own, and a host that has the attachment of the sample table.\<close>

definition open_world :: world where
  "open_world = sample_world\<lparr>wo_around := (wo_around sample_world)\<lparr>so_Getenv :=
     (\<lambda>k. if k = ''PSTAD_TOKEN'' then ''s3cret'' else [])\<rparr>\<rparr>"

definition library_host :: host where
  "library_host = sample_host\<lparr>ho_Stat := (\<lambda>p. Some False)\<rparr>"

section \<open>Properties\<close>

text \<open>
  C2. Whole requests refine the sections: whatever a started server does when its clients ask one request at a time, the handlers being
  the functions of the theory Handlers, is one of the interleavings of the sections of \<open>createRun\<close>, \<open>Cancel\<close>, \<open>worker\<close> and
  \<open>Stop\<close>, with the same queue, table, workers and executions. So what holds in every interleaving holds of it.
\<close>

theorem whole_requests_refine:
  assumes "realMain fl w = Serving srv rt s0 killed" "whole_reach srv s0 s"
  shows "\<exists>s'. sys_reach s0 s' \<and> s_queue s' = s_queue s \<and> s_workers s' = s_workers s \<and> s_started s' = s_started s \<and>
    (\<forall>x \<in> set (s_clients s'). \<exists>y. x = Answered y)"
proof -
  obtain st n m where b:
    "Recover (wo_ReadDir w) (wo_Persist w) (wo_Now w) (NewStore\<lparr>disk := wo_Runs w\<rparr>) = ((st, killed, n, m), None)"
    "s0 = sys_start st (cfg_RunsDir (srv_cfg srv)) (nat (cfg_MaxConcurrent (srv_cfg srv)))
       (nat (cfg_QueueDepth (srv_cfg srv)))"
    by (rule realMain_Serving [OF assms(1)]) blast
  have "Schedule.recovered st" by (rule Recover_recovered [OF b(1)]) (simp add: NewStore_def)
  then have "sys_inv s0" "s_clients s0 = []"
    using reach_inv [OF _ sys_init] b(2) by (auto simp: sys_start_def)
  from whole_reach_view [OF assms(2) this] show ?thesis
    by (elim conjE exE) (intro exI conjI, assumption, auto)
qed

theorem whole_requests_refine_witness:
  "\<exists>srv rt s0 s'. realMain \<lparr>fl_check = False, fl_version = False\<rparr> open_world = Serving srv rt s0 [42] \<and>
     sys_reach s0 s' \<and> q_jobs (s_queue s') = [0]"
proof -
  let ?rq = "sample_request sample_parts"
  have "(case realMain \<lparr>fl_check = False, fl_version = False\<rparr> open_world of
      Serving srv rt s0 killed \<Rightarrow>
        killed = [42] \<and>
        (case NewID (ho_Civil library_host) (ho_Random library_host) of
           Some i \<Rightarrow> Get (q_store (s_queue s0)) i = None | None \<Rightarrow> False) \<and>
        q_jobs (rp_Queue (serve srv library_host ?rq (s_queue s0))) = [0]
    | _ \<Rightarrow> False)" by code_simp
  then obtain srv rt s0 i where
    s: "realMain \<lparr>fl_check = False, fl_version = False\<rparr> open_world = Serving srv rt s0 [42]"
    and i: "NewID (ho_Civil library_host) (ho_Random library_host) = Some i" "Get (q_store (s_queue s0)) i = None"
    and j: "q_jobs (rp_Queue (serve srv library_host ?rq (s_queue s0))) = [0]"
    by (auto split: booted.splits option.splits)
  have "whole_reach srv s0 (s0\<lparr>s_queue := rp_Queue (serve srv library_host ?rq (s_queue s0))\<rparr>)"
    by (rule whole_request [OF whole_start]) (use i in auto)
  from whole_requests_refine [OF s this] s j show ?thesis by auto
qed

end
