(* ===== verification/Polling.thy ===== *)
theory Polling
  imports Whole
begin

text \<open>
  What a client that polls the service can rely on, whatever the workers and the other requests do in between: the results of a
  finished run do not change any more, and a run that was seen once is found again.
\<close>

section \<open>Who can change the record of a run\<close>

lemma client_record:
  assumes "client_step c x q = Some (x', q')" "i \<notin> set (client_ids (client_phase q x))"
  shows "Get (q_store q') i = Get (q_store q) i \<or>
    (\<exists>t r. Get (q_store q) i = Some r \<and> Get (q_store q') i = Some (mark_cancelled t r))"
proof (cases x)
  case (Adding r w env)
  then show ?thesis using assms by (auto simp: Get_def go_maps)
next
  case (AddPersist r w env)
  then have "q' = fst (on_disk (c_persist c) (the (Get (q_store q) (r_ID r))) q)"
    using assms(1) by (auto split: prod.splits option.splits)
  then show ?thesis by simp
next
  case (Submitting r w env)
  then show ?thesis using assms(1) register_section [of c r w env q] by (auto simp: submit_register_def Let_def)
next
  case (RollingBack a)
  then show ?thesis using assms(1) by (auto dest!: buffer_steps(3))
next
  case (MarkFull a)
  then show ?thesis
    using assms by (auto simp: update_run_def Get_update_mem id_of_def split: option.splits)
next
  case (CancelMark j)
  then have "Get (q_store q') i = Get (update_mem j (mark_cancelled (c_now c)) (q_store q)) i"
    using assms(1) by (auto simp: update_run_def split: option.splits)
  then show ?thesis by (cases "Get (q_store q) i") (auto simp: Get_update_mem)
next
  case (CancelPersist j r)
  then have "q' = fst (on_disk (c_persist c) r q)" using assms(1) by (auto split: prod.splits option.splits)
  then show ?thesis by simp
qed (use assms(1) in \<open>auto simp: submit_send_def cancel_flag_def cancel_running_def
      split: if_splits option.splits prod.splits send_result.splits\<close>)

lemma worker_record:
  assumes "worker_step c w q = Some (w', q')" "i \<notin> set (worker_ids (worker_phase q w))"
  shows "Get (q_store q') i = Get (q_store q) i"
  using assms
  by (cases w)
    (auto simp: receive_def update_run_def Get_update_mem id_of_def set_cancelFn_def finish_remove_def Let_def
      dest!: buffer_steps split: list.splits if_splits option.splits)

section \<open>A run that nobody owns\<close>

lemma owned_update: "set (concat (map f (xs[k := y]))) \<subseteq> set (concat (map f xs)) \<union> set (f y)"
  using set_update_subset_insert [of xs k y] by auto

lemma unowned_step:
  assumes "life_step l l'" "i \<notin> set (owned l)" "l_states l i \<noteq> None"
  shows "i \<notin> set (owned l')"
  using assms(1)
proof cases
  case (add k j)
  then have "j \<in> set (owned l)" using nth_mem [OF add(2)] by (force simp: owned_def)
  with assms(2) add show ?thesis using owned_update [of client_ids "l_clients l" k "COwn j"] by (auto simp: owned_def)
next
  case (strand k j)
  with assms(2) show ?thesis using owned_update [of client_ids "l_clients l" k "CStranded j"] by (auto simp: owned_def)
next
  case (send k j)
  then have "j \<in> set (owned l)" using nth_mem [OF send(2)] by (force simp: owned_def)
  with assms(2) send show ?thesis using owned_update [of client_ids "l_clients l" k CRest] by (auto simp: owned_def)
next
  case (reject k j)
  with assms(2) show ?thesis using owned_update [of client_ids "l_clients l" k CRest] by (auto simp: owned_def)
next
  case (pick k j js)
  then have "j \<in> set (owned l)" by (simp add: owned_def)
  with assms(2) pick show ?thesis using owned_update [of worker_ids "l_workers l" k "WWait j"] by (auto simp: owned_def)
next
  case (skip k j)
  with assms(2) show ?thesis using owned_update [of worker_ids "l_workers l" k WFree] by (auto simp: owned_def)
next
  case (start k j)
  then have "j \<in> set (owned l)" using nth_mem [OF start(2)] by (force simp: owned_def)
  with assms(2) start show ?thesis using owned_update [of worker_ids "l_workers l" k "WRun j"] by (auto simp: owned_def)
next
  case (complete k j st)
  with assms(2) show ?thesis using owned_update [of worker_ids "l_workers l" k WFree] by (auto simp: owned_def)
next
  case (leave k)
  with assms(2) show ?thesis using owned_update [of worker_ids "l_workers l" k WExit] by (auto simp: owned_def)
qed (use assms(2,3) in \<open>auto simp: owned_def\<close>)

text \<open>A run that has ended by itself is nobody's.\<close>

lemma finished_unowned:
  assumes "life_inv l" "l_states l i = Some st" "Terminal st" "st \<noteq> StateCancelled"
  shows "i \<notin> set (owned l)"
proof -
  have st: "\<not> waiting l i" "st \<noteq> StateRunning" using assms(2-4) by (auto simp: waiting_def)
  have "i \<notin> set (worker_ids v)" if "v \<in> set (l_workers l)" for v
    using assms that st by (cases v) (auto simp: life_inv_def worker_inv_def dest!: bspec)
  moreover have "i \<notin> set (client_ids v)" if "v \<in> set (l_clients l)" for v
    using assms that st by (cases v) (auto simp: life_inv_def client_inv_def dest!: bspec)
  ultimately show ?thesis using assms(1) st by (auto simp: owned_def life_inv_def)
qed

lemma record_step:
  assumes "sys_inv s" "sys_step e s = Some s'" "i \<notin> set (owned (life_of s))" "Get (q_store (s_queue s)) i = Some r"
  shows "i \<notin> set (owned (life_of s'))"
    "Get (q_store (s_queue s')) i = Some r \<or> (\<exists>t. Get (q_store (s_queue s')) i = Some (mark_cancelled t r))"
proof -
  have "l_states (life_of s) i \<noteq> None" using assms(4) by (simp add: life_of_simps states_of_def)
  then show "i \<notin> set (owned (life_of s'))"
    using sys_sim [OF assms(1,2)] unowned_step assms(3) by metis
  show "Get (q_store (s_queue s')) i = Some r \<or> (\<exists>t. Get (q_store (s_queue s')) i = Some (mark_cancelled t r))"
  proof (cases e)
    case (ClientMoves k c)
    then obtain x' q' where k: "k < length (s_clients s)"
      and st: "client_step c (s_clients s ! k) (s_queue s) = Some (x', q')" and q: "s_queue s' = q'"
      using assms(2) by (auto split: if_splits)
    have "i \<notin> set (client_ids (client_phase (s_queue s) (s_clients s ! k)))"
      using assms(3) nth_mem [OF k] by (force simp: owned_def life_of_simps)
    from client_record [OF st this] assms(4) show ?thesis by (auto simp: q)
  next
    case (WorkerMoves k c)
    then obtain w' q' where k: "k < length (s_workers s)"
      and st: "worker_step c (s_workers s ! k) (s_queue s) = Some (w', q')" and q: "s_queue s' = q'"
      using assms(2) by (auto split: if_splits)
    have "i \<notin> set (worker_ids (worker_phase (s_queue s) (s_workers s ! k)))"
      using assms(3) nth_mem [OF k] by (force simp: owned_def life_of_simps)
    from worker_record [OF st this] assms(4) show ?thesis by (simp add: q)
  qed (use assms(2,4) in \<open>auto simp: close_jobs_def split: if_splits\<close>)
qed

lemma mark_cancelled_twice: "mark_cancelled t (mark_cancelled u r) = mark_cancelled t r"
  by (simp add: mark_cancelled_def)

lemma record_reach:
  assumes "sys_reach s s'" "sys_inv s" "i \<notin> set (owned (life_of s))" "Get (q_store (s_queue s)) i = Some r"
  shows "i \<notin> set (owned (life_of s')) \<and>
    (\<exists>r'. Get (q_store (s_queue s')) i = Some r' \<and> (r' = r \<or> (\<exists>t. r' = mark_cancelled t r)))"
  using assms(1) unfolding sys_reach_moves
proof (rule threads.reach_also)
  fix s1 e s2
  assume "sys_inv s1" "sys_step e s1 = Some s2" and "i \<notin> set (owned (life_of s1)) \<and>
    (\<exists>r'. Get (q_store (s_queue s1)) i = Some r' \<and> (r' = r \<or> (\<exists>t. r' = mark_cancelled t r)))"
  moreover from this obtain r1 where r1: "i \<notin> set (owned (life_of s1))" "Get (q_store (s_queue s1)) i = Some r1"
    "r1 = r \<or> (\<exists>t. r1 = mark_cancelled t r)" by auto
  ultimately show "i \<notin> set (owned (life_of s2)) \<and>
    (\<exists>r'. Get (q_store (s_queue s2)) i = Some r' \<and> (r' = r \<or> (\<exists>t. r' = mark_cancelled t r)))"
    using record_step [of s1 e s2 i r1] by (auto simp: mark_cancelled_twice)
qed (use assms in auto)

text \<open>The finished record of a run that a client has seen, in every later state.\<close>

lemma finished_record:
  assumes "realMain fl w = Serving srv rt s0 killed" "sys_reach s0 s" "sys_reach s s'"
    and "Get (q_store (s_queue s)) i = Some r" "Terminal (r_State r)" "r_State r \<noteq> StateCancelled"
  shows "\<exists>r'. Get (q_store (s_queue s')) i = Some r' \<and> (r' = r \<or> (\<exists>t. r' = mark_cancelled t r))"
proof -
  obtain st n m where b:
    "Recover (wo_ReadDir w) (wo_Persist w) (wo_Now w) (NewStore\<lparr>disk := wo_Runs w\<rparr>) = ((st, killed, n, m), None)"
    "s0 = sys_start st (cfg_RunsDir (srv_cfg srv)) (nat (cfg_MaxConcurrent (srv_cfg srv)))
       (nat (cfg_QueueDepth (srv_cfg srv)))"
    by (rule realMain_Serving [OF assms(1)]) blast
  have "Schedule.recovered st" by (rule Recover_recovered [OF b(1)]) (simp add: NewStore_def)
  then have inv: "sys_inv s" using reach_inv assms(2) b(2) by metis
  then have "i \<notin> set (owned (life_of s))"
    using finished_unowned [of "life_of s" i "r_State r"] assms(4-6)
    by (simp add: sys_inv_def life_of_simps states_of_def)
  from record_reach [OF assms(3) inv this assms(4)] show ?thesis by blast
qed

section \<open>Properties\<close>

text \<open>
  C4. Results are final: when \<open>GET /v1/runs/{id}/results\<close> has answered with a run that ended by itself, then at any later time, after
  whatever the workers, the other requests and the shutdown did, the same request answers 200 with the same summary, outputs and
  artifacts, as long as the files of the run are there. Its state is the same, or a late cancellation has been recorded over it.
\<close>

theorem results_are_final:
  assumes "realMain fl w = Serving srv rt s0 killed" "sys_reach s0 s" "sys_reach s s'"
    and "rp_Response (getResults srv ho i (s_queue s)) = Some a" "rs_Body a = ResultsBody j st sm outs arts"
    and "Terminal st" "st \<noteq> StateCancelled"
  shows "\<exists>b st'. rp_Response (getResults srv ho i (s_queue s')) = Some b \<and> rs_Status b = 200 \<and>
    rs_Body b = ResultsBody j st' sm outs arts \<and> st' \<in> {st, StateCancelled}"
proof -
  obtain r where get: "Get (q_store (s_queue s)) i = Some r"
    using assms(4,5) by (cases "Get (q_store (s_queue s)) i") (auto simp: getResults_def no_such_run_def)
  then have "rs_Body a = ResultsBody (r_ID r) (r_State r) (r_Summary r)
      (concat (map (output_of ho (layout_of srv i)) (r_Artifacts r))) (r_Artifacts r)"
    using assms(4) by (auto simp: getResults_def)
  then have r: "Get (q_store (s_queue s)) i = Some r" "j = r_ID r" "st = r_State r" "sm = r_Summary r"
    "outs = concat (map (output_of ho (layout_of srv i)) (r_Artifacts r))" "arts = r_Artifacts r"
    using assms(5) get by simp_all
  from finished_record [OF assms(1-3) r(1)] assms(6,7) obtain r' where
    r': "Get (q_store (s_queue s')) i = Some r'" "r' = r \<or> (\<exists>t. r' = mark_cancelled t r)"
    unfolding r(3) by blast
  from r'(2) have same: "r_ID r' = j \<and> r_Summary r' = sm \<and> r_Artifacts r' = arts \<and> r_State r' \<in> {st, StateCancelled}"
    unfolding r(2,3,4,6) by (elim disjE exE) (simp_all add: mark_cancelled_def)
  then have "rp_Response (getResults srv ho i (s_queue s')) =
      Some (writeJSON 200 (ResultsBody j (r_State r') sm outs arts))"
    using r'(1) r(5,6) by (simp add: getResults_def)
  with same show ?thesis by simp
qed

definition late_cancel :: "event list" where
  "late_cancel = [Arrives (CancelCheck ''b''), ClientMoves 0 quiet_call, ContextEnds]"

theorem results_are_final_witness:
  "\<exists>srv rt s0 s' b. realMain \<lparr>fl_check = False, fl_version = False\<rparr> sample_world = Serving srv rt s0 [42] \<and>
     sys_run late_cancel s0 = Some s' \<and>
     rp_Response (getResults srv sample_host ''b'' (s_queue s')) = Some b \<and> rs_Status b = 200"
proof -
  have "(case realMain \<lparr>fl_check = False, fl_version = False\<rparr> sample_world of
      Serving srv rt s0 killed \<Rightarrow>
        killed = [42] \<and> sys_run late_cancel s0 \<noteq> None \<and>
        (case rp_Response (getResults srv sample_host ''b'' (s_queue s0)) of
           Some a \<Rightarrow> (case rs_Body a of ResultsBody j st sm outs arts \<Rightarrow> Terminal st \<and> st \<noteq> StateCancelled | _ \<Rightarrow> False)
         | None \<Rightarrow> False)
    | _ \<Rightarrow> False)" by code_simp
  then obtain srv rt s0 s' a j st sm outs arts where
    s: "realMain \<lparr>fl_check = False, fl_version = False\<rparr> sample_world = Serving srv rt s0 [42]"
    and s': "sys_run late_cancel s0 = Some s'"
    and a: "rp_Response (getResults srv sample_host ''b'' (s_queue s0)) = Some a"
      "rs_Body a = ResultsBody j st sm outs arts" "Terminal st" "st \<noteq> StateCancelled"
    by (auto split: booted.splits option.splits payload.splits)
  from results_are_final [OF s sys_init sys_run_reach [OF s' sys_init] a] s s' show ?thesis by blast
qed

end
