(* ===== verification/Tailing.thy ===== *)
theory Tailing
  imports Polling Races
begin

text \<open>
  A client that tails the log of a run over HTTP while the workers write it: the buffer that answers is always the one of the first
  answer, it only grows, and so the answers fit together.
\<close>

section \<open>Buffers only grow\<close>

definition extends :: "buffer \<Rightarrow> buffer \<Rightarrow> bool" where
  "extends b b' \<longleftrightarrow> capacity b' = capacity b \<and> (\<forall>h. holds b h \<longrightarrow> (\<exists>k. holds b' (h @ k)))"

lemma extends_refl [simp]: "extends b b"
  unfolding extends_def by (metis append_Nil2)







section \<open>The buffers of the jobs\<close>

definition buf_of :: "queue \<Rightarrow> nat \<Rightarrow> buffer" where
  "buf_of q a = j_buf (job_of q a)"


lemma buf_of_heap: "q_heap q' = q_heap q \<Longrightarrow> buf_of q' = buf_of q"
  by (simp add: fun_eq_iff buf_of_def job_of_def)

lemma buf_of_simps [simp]:
  "buf_of (in_mem i f q) = buf_of q" "buf_of (fst (on_disk e r q)) = buf_of q" "buf_of (q\<lparr>q_bufs := m\<rparr>) = buf_of q"
  "buf_of (q\<lparr>q_live := m\<rparr>) = buf_of q"
  "buf_of (finish_remove a q) = buf_of q" "buf_of (q\<lparr>q_jobs := js\<rparr>) = buf_of q" "buf_of (q\<lparr>q_cancelled := cs\<rparr>) = buf_of q"
  "buf_of (q\<lparr>q_store := s\<rparr>) = buf_of q" "buf_of (q\<lparr>q_ctxDone := x\<rparr>) = buf_of q" "buf_of (close_jobs q) = buf_of q"
  by (rule buf_of_heap; simp add: finish_remove_def Let_def close_jobs_def)+














section \<open>The system\<close>



















section \<open>Two polls\<close>








section \<open>Property\<close>



end
