(* ===== verification/Supervised.thy ===== *)
theory Supervised
  imports Whole
begin

text \<open>
  The worker's part of the gap between the components alone and the interleaved system: the goroutines of \<open>Execute\<close>, in any order,
  do to the queue what the one section \<open>Executing\<close> of the theory Interleave does, and \<open>finish\<close> is the run of its sections.
\<close>

section \<open>Execute\<close>

lemma write_all_append: "write_all wr (ts @ us) b = Option.bind (write_all wr ts b) (write_all wr us)"
  by (induction ts arbitrary: b) (simp_all split: bind_split)

text \<open>The buffer of an execution is what writing everything that was said makes of the buffer at its start.\<close>

definition spoken :: "buffer \<Rightarrow> exec_state \<Rightarrow> bool" where
  "spoken b x \<longleftrightarrow> write_all Append (x_said x) b = Some (x_buf x)"

lemma spoken_append: "spoken b x \<Longrightarrow> Append t (x_buf x) = Some b' \<Longrightarrow> write_all Append (x_said x @ [t]) b = Some b'"
  by (simp add: spoken_def write_all_append)

lemma spoken_step:
  assumes "spoken b x" "exec_step e x = Some x'"
  shows "spoken b x'"
proof -
  consider "e = ReaderTakes" | err where "e = WatcherKilled err"
    | (quiet) "e \<noteq> ReaderTakes" "\<And>err. e \<noteq> WatcherKilled err" by blast
  then show ?thesis
  proof cases
    case 1
    with assms(2) have "exec_step ReaderTakes x = Some x'" by simp
    then show ?thesis
      by (rule reader_takes) (use assms(1) spoken_append in \<open>simp_all add: spoken_def\<close>)
  next
    case 2
    with assms(2) have "exec_step (WatcherKilled err) x = Some x'" by simp
    then show ?thesis
      by (rule watcher_killed) (use assms(1) spoken_append in \<open>simp_all add: spoken_def\<close>)
  next
    case quiet
    with quiet_step [OF assms(2)] assms(1) show ?thesis by (simp add: spoken_def)
  qed
qed

interpretation saying: kept exec_step "\<lambda>x. control_ok x \<and> spoken b x" for b
  by unfold_locales (use control_step spoken_step in blast)

lemma started_spoken:
  assumes "Execute ce pe st rt sp buf = Some (Inr (pid, x0))"
  shows "control_ok x0 \<and> spoken buf x0"
proof -
  obtain b where b: "Append (announcement rt sp) buf = Some b" "x0 = exec_start b (announcement rt sp)"
    using assms by (auto simp: Execute_def split: option.splits sum.splits)
  then show ?thesis by (simp add: spoken_def control_ok_def exec_start_def)
qed

lemma exec_reach_moves: "exec_reach x0 x \<Longrightarrow> (moves exec_step)\<^sup>*\<^sup>* x0 x"
  by (induction rule: exec_reach.induct) (auto intro: rtranclp.rtrancl_into_rtrancl movesI)

lemma returned_outcome:
  assumes "control_ok x" "x_caller x = Returned out"
  shows "Terminal (oc_State out) \<and> (oc_State out = StateCancelled \<longrightarrow> x_ctx x = Some ContextCanceled)"
proof -
  obtain w k where w: "out = classify w k" "k = None \<or> (\<exists>r. x_ctx x = Some r \<and> k = Some (stop_state r))"
    using assms by (auto simp: control_ok_def split: option.splits)
  from w(2) show ?thesis
  proof (elim disjE exE conjE)
    assume "k = None"
    with w(1) show ?thesis by (cases w) (auto simp: classify_def Terminal_def state_defs)
  next
    fix r
    assume "x_ctx x = Some r" "k = Some (stop_state r)"
    with w(1) show ?thesis
      by (cases w; cases r) (simp_all add: classify_def stop_state_def Terminal_def state_defs)
  qed
qed

text \<open>
  C7. The supervision of a child refines the section of the worker: whenever \<open>Execute\<close>, run with the buffer of a job, returns, in
  any interleaving of its goroutines, the section \<open>Executing\<close> is possible with the lines that were said and the outcome that was
  returned, and leaves the buffer as the goroutines left it; given that a context reported as cancelled is that of the job or
  of the server. When it fails before the child is started, the section \<open>Launching\<close> does the same.
\<close>

theorem execute_refines_section:
  assumes "Execute ce pe st rt sp (j_buf (job_of q a)) = Some r"
    and "case r of
        Inl (out, b) \<Rightarrow> True
      | Inr (pid, x0) \<Rightarrow> exec_reach x0 x \<and> x_caller x = Returned out \<and>
          (x_ctx x = Some ContextCanceled \<longrightarrow> j_ctxDone (job_of q a) \<or> q_ctxDone q)"
  shows "case r of
      Inl (out, b) \<Rightarrow> \<exists>said. worker_step (c\<lparr>c_pid := None, c_outcome := out, c_said := said\<rparr>) (Launching a) q =
        Some (Finishing a out, set_job a (\<lambda>j. j\<lparr>j_buf := b\<rparr>) q)
    | Inr (pid, x0) \<Rightarrow> worker_step (c\<lparr>c_outcome := out, c_said := x_said x\<rparr>) (Executing a) q =
        Some (Finishing a out, set_job a (\<lambda>j. j\<lparr>j_buf := x_buf x\<rparr>) q)"
proof (cases r)
  case (Inl y)
  obtain out b where y: "y = (out, b)" by (cases y)
  have "oc_State out = StateErrored \<and> (\<exists>said. write_all Append said (j_buf (job_of q a)) = Some b)"
  proof (cases "ce = None \<and> pe = None")
    case True
    then have "oc_State out = StateErrored \<and> write_all Append [announcement rt sp] (j_buf (job_of q a)) = Some b"
      using assms(1) Inl y by (auto simp: Execute_def split: option.splits sum.splits)
    then show ?thesis by blast
  next
    case False
    then have "oc_State out = StateErrored \<and> write_all Append [] (j_buf (job_of q a)) = Some b"
      using assms(1) Inl y by (auto simp: Execute_def split: option.splits)
    then show ?thesis by blast
  qed
  then show ?thesis by (auto simp: Inl y say_all_def)
next
  case (Inr y)
  obtain pid x0 where y: "y = (pid, x0)" by (cases y)
  have x: "exec_reach x0 x" "x_caller x = Returned out"
    "x_ctx x = Some ContextCanceled \<longrightarrow> j_ctxDone (job_of q a) \<or> q_ctxDone q" using assms(2) by (simp_all add: Inr y)
  have "control_ok x \<and> spoken (j_buf (job_of q a)) x"
    using saying.reach_kept [OF exec_reach_moves [OF x(1)]] started_spoken [OF assms(1) [unfolded Inr y]] by blast
  with returned_outcome [OF _ x(2)] x(3) show ?thesis by (simp add: Inr y spoken_def say_all_def outcome_ok_def)
qed

definition late_execution :: "exec_event list" where
  "late_execution = [ContextDone DeadlineExceeded, WatcherFires, WatcherKilled (Some ''gone''), ChildExits (WaitExit (-1)),
     CallerWaits, ReaderEnds, CallerReturns]"

definition one_job :: queue where
  "one_job = snd (submit_register (zero_run\<lparr>r_ID := ''a''\<rparr>) sample_workflow [] small_queue)"

theorem execute_refines_section_witness:
  "\<exists>x0 x out. Execute None None (Inr 7) sample_runtime sample_spec (j_buf (job_of one_job 0)) = Some (Inr (7, x0)) \<and>
     exec_run late_execution x0 = Some x \<and> oc_State out = StateTimedOut \<and> length (x_said x) = 2 \<and>
     worker_step (quiet_call\<lparr>c_outcome := out, c_said := x_said x\<rparr>) (Executing 0) one_job =
       Some (Finishing 0 out, set_job 0 (\<lambda>j. j\<lparr>j_buf := x_buf x\<rparr>) one_job)"
proof -
  have "j_buf (job_of one_job 0) = logbuf_New 5000"
    by (simp add: one_job_def submit_register_def small_queue_def NewQueue_def job_of_def new_job_def Let_def)
  then have opened: "open_buffer (j_buf (job_of one_job 0)) []" by (simp add: New_open)
  obtain b where b: "Append (announcement sample_runtime sample_spec) (j_buf (job_of one_job 0)) = Some b"
    "open_buffer b [StripANSI (announcement sample_runtime sample_spec)]"
    using ring.wr_rep [OF opened, of "announcement sample_runtime sample_spec"] by auto
  obtain b' where b': "Append (kill_note ''gone'') b = Some b'"
    using ring.wr_rep [OF b(2), of "kill_note ''gone''"] by auto
  define x0 where "x0 = exec_start b (announcement sample_runtime sample_spec)"
  have e: "Execute None None (Inr 7) sample_runtime sample_spec (j_buf (job_of one_job 0)) = Some (Inr (7, x0))"
    by (simp add: Execute_def b(1) x0_def)
  obtain x out where x: "exec_run late_execution x0 = Some x" "x_ctx x = Some DeadlineExceeded" "length (x_said x) = 2"
    "x_caller x = Returned out" "oc_State out = StateTimedOut"
    using b'
    by (simp add: late_execution_def x0_def exec_start_def say_def classify_def stop_state_def kill_note_def)
  have "exec_reach x0 x" by (rule exec_run_reach [OF x(1) exec_init])
  with x have "worker_step (quiet_call\<lparr>c_outcome := out, c_said := x_said x\<rparr>) (Executing 0) one_job =
      Some (Finishing 0 out, set_job 0 (\<lambda>j. j\<lparr>j_buf := x_buf x\<rparr>) one_job)"
    using execute_refines_section [OF e, of x out quiet_call] by (simp del: worker_step.simps)
  with e x show ?thesis by blast
qed

section \<open>finish\<close>

text \<open>From one section to another of one worker, with nothing in between.\<close>

inductive worker_runs :: "worker \<Rightarrow> queue \<Rightarrow> worker \<Rightarrow> queue \<Rightarrow> bool" where
  rests: "worker_runs w q w q"
| goes_on: "worker_step c w q = Some (w', q') \<Longrightarrow> worker_runs w' q' w'' q'' \<Longrightarrow> worker_runs w q w'' q''"

lemma update_sections:
  assumes "Update e i f (q_store q) = (s, x, err)"
  obtains (absent) "update_run i f q = (None, q)" "s = q_store q"
  | (present) r q1 where "update_run i f q = (Some r, q1)" "on_disk e r q1 = (q\<lparr>q_store := s\<rparr>, err)"
  using update_parts [OF assms] by (cases "update_run i f q") (auto split: option.splits)

theorem finish_sections:
  assumes "finish e now sa a out q = Some q'"
  shows "worker_runs (Finishing a out) q Idle q'"
proof -
  let ?c = "(section_call now e)\<lparr>c_found := sa\<rparr>" and ?i = "j_runID (job_of q a)"
  note step = worker_runs.goes_on [where c = ?c]
  obtain s x err where u: "Update e ?i (finalise now out sa) (q_store q) = (s, x, err)"
    by (cases "Update e ?i (finalise now out sa) (q_store q)")
  then obtain q1 where l: "finish_log a out (q\<lparr>q_store := s\<rparr>) = Some q1" "q' = finish_remove a q1"
    using assms by (auto simp: finish_def)
  then have tail: "worker_runs (Logging a out) (q\<lparr>q_store := s\<rparr>) Idle q'"
    by (intro step [OF _ step [OF _ worker_runs.rests]]) simp+
  from u show ?thesis
  proof (cases rule: update_sections)
    case absent
    then have "q\<lparr>q_store := s\<rparr> = q" by simp
    with absent tail show ?thesis by (intro step [OF _ tail]) simp
  next
    case (present r q2)
    then show ?thesis by (intro step [OF _ step [OF _ tail]]) simp+
  qed
qed

end
