(* ===== verification/Spec2Isabelle.thy ===== *)
theory Spec2Isabelle
  imports Cancelling Journey Restart Report Tailing Supervised
begin

text \<open>
  A model of the run service \<open>pstad\<close> (directory \<open>src/server\<close>, written in Go) and the theorems that make it correct.
  The service executes Playwright workflows for its clients: a client uploads tables over HTTP, the service validates them,
  queues a run, executes it in a child process with its own directory, and serves the log, the results and the files of the
  run.

  \<^bold>\<open>The parts, from the bottom.\<close>

  \<^item> Prelude: Go strings as byte strings, Go maps as association lists with distinct keys (the order is the
    iteration order, which Go leaves open) and their contract, the locale \<open>dict\<close>.
  \<^item> Machines: step functions with an invariant (the locale \<open>kept\<close>) and with a simulation by an abstract machine (\<open>simulated\<close>, which
    extends it). They are interpreted on the steps of Exec (\<open>execution\<close>, \<open>saying\<close>), of Interleave (\<open>threads\<close>) and of
    Process (\<open>server\<close>, \<open>ordered\<close>).
  \<^item> Paths, Strconv, Sha1, Csv: the functions of the standard library that the program uses - \<open>path/filepath\<close> on
    Unix, \<open>strconv\<close> and 64-bit integers, \<open>crypto/sha1\<close> on words, the reader of \<open>encoding/csv\<close>.
  \<^item> Logbuf (\<open>internal/logbuf/logbuf.go\<close>): \<open>StripANSI\<close>; the ring buffer of a run's output with polling reads
    (\<open>Since\<close>) and subscriber channels, which are a heap of channel records. The locale \<open>tail_log\<close> is what a polling
    client relies on.
  \<^item> Layout (\<open>internal/run/layout.go\<close>): the directory of a run and the guard \<open>Resolve\<close> of artifact paths, an
    instance of the locale \<open>path_jail\<close>.
  \<^item> Run, Kill, Store, Results (\<open>run.go\<close>, \<open>kill_unix.go\<close>, \<open>kill_windows.go\<close>, \<open>store.go\<close>, \<open>results.go\<close>): the
    record of a run, the end of a process tree, the table of runs with its mirror \<open>meta.json\<close> (an instance of the locale
    \<open>run_table\<close>) and its recovery, the summary of a report and the list of artifacts.
  \<^item> Catalog (\<open>internal/catalog/catalog.go\<close>): the manifest of the workflows and its validation.
  \<^item> Exec (\<open>exec.go\<close>): the environment and command of the child; the goroutines of \<open>Execute\<close> as events that may
    come in any order.
  \<^item> Queue (\<open>queue.go\<close>): the bounded queue; \<open>Submit\<close>, \<open>Cancel\<close> and \<open>finish\<close> as the sections between two locks and as
    their composition. A job is an entry of a heap, because the worker and \<open>Cancel\<close> share it.
  \<^item> Lifecycle, Interleave, Schedule, Races: the abstract life cycle of runs with its invariant; the system of all workers,
    requests and the shutdown, whose steps are the sections of the code in any order; the simulation of the
    second by the first and what follows from it; executions that show the races the locking leaves.
  \<^item> Cancelling: what a cancellation of a waiting run is worth in every interleaving.
  \<^item> Encoding, Restart: the JSON document of a run (the struct tags of \<open>run.go\<close>) and its decoding; what a restart of the
    server leaves of a run.
  \<^item> Receipts, Config (\<open>internal/receipts\<close>, \<open>internal/config\<close>): the attachment library, the configuration.
  \<^item> Upload, Handlers, Creation, Reading, Server (\<open>internal/httpapi\<close>): the checks of an uploaded table; every handler as a
    function of server, host, request and queue; what holds of \<open>createRun\<close> and of the reading handlers; the router
    and the middleware.
  \<^item> Journey: a table from the upload to the environment of the child process.
  \<^item> Startup, Process, Report (\<open>cmd/pstad/main.go\<close>): the composition, from the flags to the started queue; the process from
    serving over the signal and the HTTP shutdown to its end; the printed texts and the exit status.
  \<^item> Whole, Supervised: whole requests, the goroutines of \<open>Execute\<close> and the whole of \<open>finish\<close> as runs of the sections of
    Interleave.
  \<^item> Polling, Tailing: what the clients that poll a run, its results and its log can rely on.

  \<^bold>\<open>How state and effects correspond.\<close> Structs are records whose fields have a prefix; a handle on shared data is
  the data itself, threaded through, or an address in a heap where aliasing matters (jobs, channels). What the operating system, the
  clock, the random source, \<open>encoding/json\<close> and the multipart reader answer are arguments: fields of a record
  (\<open>surroundings\<close>, \<open>host\<close>, \<open>world\<close>, \<open>persist_env\<close>, \<open>call\<close>) or functions. An error is the left part of a sum or a constructor of an error
  type; a panic is \<open>None\<close>. Formatted messages are constructors instead of texts where a value is quoted. An HTTP body
  is the value before its encoding; a stored run is what decoding its document gives (Encoding shows that these agree). A run's
  state is a string, as in the source.

  \<^bold>\<open>What the lemmas show.\<close> Per component: the exact result of each operation on each branch, the invariants its operations
  keep, round trips (artifact paths, a written and read table, routes), termination and bounds. Across components:
  in every interleaving a run makes only the moves of its life cycle, is executed at most once, never when it was cancelled while
  it waited, and is finished after a stop; its results do not change once it has ended by itself; handlers that are asked one at a
  time are one of these interleavings, and the goroutines of \<open>Execute\<close> do what the section of the worker does;
  the answers to a client that tails a log fit together; a process that stops after a signal leaves no worker and no running run behind; the document of a run
  reads back as the run; the child of a run gets the settings of its request and of the server, and the contents of a table reach
  nothing but its file; a request without the token changes and learns nothing; a reply depends on no file outside its run's directory;
  an accepted run is within its bounds and validated, a refused one leaves no trace; a server that comes up satisfies the
  hypotheses of these theorems.

  \<^bold>\<open>Loops and bounds.\<close> No definition has fuel. Loops are structural recursions or have a termination proof with a
  measure (\<open>strip_csi\<close>, \<open>stripComments\<close>, \<open>trim_start\<close>, the CSV reader). The probe loop of \<open>KillTree\<close> runs over a list of
  observations and is shown to end within 51 of them. That \<open>Execute\<close> and \<open>Stop\<close> return is a decreasing measure
  together with the existence of a step.

  \<^bold>\<open>Proofs across threads.\<close> The simulation of Interleave by Lifecycle goes through what one step can mean for the machine
  (\<open>client_effect\<close>, \<open>worker_effect\<close>): a lemma per section gives the effect of the step, and one lemma per kind of thread makes each
  effect a step of the machine. The invariant of the machine (\<open>life_inv\<close>) is then available in every reachable state.

  \<^bold>\<open>Not modelled.\<close> The text of JSON documents and of instants (parameters of Encoding) and the documents of responses other than runs, the
  framing of multipart bodies, range and conditional requests of \<open>http.ServeContent\<close>, the path cleaning and redirects of
  \<open>ServeMux\<close>, the sockets and time limits of \<open>http.Server\<close>, log output other than the access log, the text of an error that ends the
  command, \<open>prepareCmd\<close>, symbolic links, and Unicode case mapping and folding
  beyond the characters that meet ASCII. A handler is one step of its own in Handlers, \<open>Execute\<close> a system of its own in Exec; Interleave interleaves the
  sections, and Whole and Supervised relate them. Data races in the sense of the Go memory model are
  not modelled, except the unlocked read of \<open>cancelFn\<close>. The clients (\<open>src/streamlit\<close>, \<open>src/public\<close>), the Playwright tests and the
  deployment files are outside the service.

  \<^bold>\<open>Plan.\<close> The documents of the responses other than runs are what the development could say next.
\<close>

end
